(* ===== verification/Prelude.thy ===== *)
theory Prelude
  imports Main "HOL-Library.Word"
begin

unbundle bit_operations_syntax

text \<open>
  What every component shares: the Rust machine types, the outcome of a Rust call, the
  bit-level primitives of the standard library the code uses, and the arithmetic lemmas that
  move a machine word to the natural number it stands for.

  Integers keep their width. A \<open>u64\<close> is a 64-bit word, arithmetic on it wraps, and where the
  code can overflow the lemmas of the components show that it does not. \<open>usize\<close> is 64 bits
  wide (the targets of the tools); an index is a natural number, and the places where the code
  converts to \<open>usize\<close> are written out.
\<close>

type_synonym u8 = "8 word"
type_synonym u16 = "16 word"
type_synonym u32 = "32 word"
type_synonym u64 = "64 word"
type_synonym i32 = "32 word" \<comment> \<open>read with \<open>sint\<close>\<close>
type_synonym i64 = "64 word" \<comment> \<open>read with \<open>sint\<close>\<close>

named_theorems layout_simps \<open>what the layout fields of a histogram evaluate to\<close>
named_theorems nat_view \<open>the natural number a machine computation stands for\<close>

section \<open>The outcome of a call\<close>

text \<open>
  A call returns \<open>Ok\<close>, returns \<open>Err\<close>, or does not return: \<open>Panic\<close> stands for a failed
  \<open>expect\<close>, \<open>unwrap\<close>, \<open>assert!\<close> or out-of-range index. A function whose Rust type is
  not a \<open>Result\<close> but which can panic has the same type with the error left open. A method on
  \<open>&mut self\<close> that fails has the state it leaves behind in its error.
\<close>

datatype ('e, 'a) res = Ok 'a | Err 'e | Panic

primrec bind_res :: "('e, 'a) res \<Rightarrow> ('a \<Rightarrow> ('e, 'b) res) \<Rightarrow> ('e, 'b) res" where
  "bind_res (Ok x) f = f x"
| "bind_res (Err e) f = Err e"
| "bind_res Panic f = Panic"

primrec map_err :: "('e \<Rightarrow> 'f) \<Rightarrow> ('e, 'a) res \<Rightarrow> ('f, 'a) res" where
  "map_err f (Ok x) = Ok x"
| "map_err f (Err e) = Err (f e)"
| "map_err f Panic = Panic"

primrec expect :: "'a option \<Rightarrow> ('e, 'a) res" where
  "expect None = Panic"
| "expect (Some x) = Ok x"

primrec unwrap_res :: "('e, 'a) res \<Rightarrow> ('f, 'a) res" where
  "unwrap_res (Ok x) = Ok x"
| "unwrap_res (Err e) = Panic"
| "unwrap_res Panic = Panic"

primrec ok_or :: "'e \<Rightarrow> 'a option \<Rightarrow> ('e, 'a) res" where
  "ok_or e None = Err e"
| "ok_or e (Some x) = Ok x"

definition assert_that :: "bool \<Rightarrow> ('e, unit) res" where
  "assert_that b = (if b then Ok () else Panic)"

lemma bind_res_eq_Ok:
  "bind_res m f = Ok y \<longleftrightarrow> (\<exists>x. m = Ok x \<and> f x = Ok y)"
  by (cases m) auto

lemma bind_res_assoc: "bind_res (bind_res m f) g = bind_res m (\<lambda>x. bind_res (f x) g)"
  by (cases m) auto

lemma expect_eq_Ok [simp]: "expect m = Ok x \<longleftrightarrow> m = Some x"
  by (cases m) auto

lemma ok_or_eq_Ok [simp]: "ok_or e m = Ok x \<longleftrightarrow> m = Some x"
  by (cases m) auto

lemma map_err_eq_Ok [simp]: "map_err f m = Ok x \<longleftrightarrow> m = Ok x"
  by (cases m) auto

lemma unwrap_res_eq_Ok [simp]: "unwrap_res m = Ok x \<longleftrightarrow> m = Ok x"
  by (cases m) auto

lemma assert_that_True [simp]: "assert_that True = Ok ()"
  by (simp add: assert_that_def)

section \<open>Standard library: conversions and bits\<close>

definition u64_max :: nat where
  "u64_max = 18446744073709551615"

definition usize_max :: nat where
  "usize_max = 18446744073709551615"

text \<open>\<open>to_usize\<close> of \<open>num_traits::ToPrimitive\<close>: \<open>None\<close> for a value outside \<open>usize\<close>.\<close>

definition to_usize :: "int \<Rightarrow> nat option" where
  "to_usize i = (if 0 \<le> i \<and> i \<le> int usize_max then Some (nat i) else None)"

definition to_u32 :: "nat \<Rightarrow> u32 option" where
  "to_u32 i = (if i < 4294967296 then Some (of_nat i) else None)"

text \<open>The number of binary digits, and Rust's \<open>leading_zeros\<close> defined with it.\<close>

function bit_len :: "nat \<Rightarrow> nat" where
  "bit_len n = (if n = 0 then 0 else Suc (bit_len (n div 2)))"
  by pat_completeness auto
termination
  by (relation "measure id") auto

declare bit_len.simps [simp del]

definition leading_zeros :: "'a::len word \<Rightarrow> nat" where
  "leading_zeros w = LENGTH('a) - bit_len (unat w)"

text \<open>
  Shifts by an amount held in a \<open>u8\<close>. A shift by the width or more is masked, as in a release
  build; the layout lemmas show that no histogram built by the library shifts that far.
\<close>

definition shl :: "'a::len word \<Rightarrow> u8 \<Rightarrow> 'a word" where
  "shl x k = push_bit (unat k mod LENGTH('a)) x"

definition shr :: "'a::len word \<Rightarrow> u8 \<Rightarrow> 'a word" where
  "shr x k = drop_bit (unat k mod LENGTH('a)) x"

text \<open>\<open>num_traits::Saturating\<close> and the checked operations, at any width.\<close>

definition saturating_add :: "'a::len word \<Rightarrow> 'a word \<Rightarrow> 'a word" where
  "saturating_add x y = (if unat x + unat y < 2 ^ LENGTH('a) then x + y else - 1)"

definition checked_add :: "'a::len word \<Rightarrow> 'a word \<Rightarrow> 'a word option" where
  "checked_add x y = (if unat x + unat y < 2 ^ LENGTH('a) then Some (x + y) else None)"

definition checked_sub :: "'a::len word \<Rightarrow> 'a word \<Rightarrow> 'a word option" where
  "checked_sub x y = (if y \<le> x then Some (x - y) else None)"

definition checked_add_usize :: "nat \<Rightarrow> nat \<Rightarrow> nat option" where
  "checked_add_usize x y = (if x + y \<le> usize_max then Some (x + y) else None)"

section \<open>Number of digits\<close>

lemma bit_len_0 [simp]: "bit_len 0 = 0"
  by (simp add: bit_len.simps)

lemma bit_len_pos: "0 < n \<Longrightarrow> bit_len n = Suc (bit_len (n div 2))"
  by (simp add: bit_len.simps)

lemma bit_len_le_iff: "bit_len n \<le> k \<longleftrightarrow> n < 2 ^ k"
proof (induction n arbitrary: k rule: bit_len.induct)
  case (1 n)
  show ?case
  proof (cases "n = 0")
    case False
    show ?thesis
    proof (cases k)
      case 0
      with False show ?thesis by (simp add: bit_len_pos)
    next
      case (Suc k')
      with False 1 have "bit_len n \<le> k \<longleftrightarrow> n div 2 < 2 ^ k'"
        by (simp add: bit_len_pos)
      also have "\<dots> \<longleftrightarrow> n < 2 ^ k"
        using Suc by (auto simp: div_less_iff_less_mult mult.commute)
      finally show ?thesis .
    qed
  qed simp
qed

lemma less_bit_len_iff: "k < bit_len n \<longleftrightarrow> 2 ^ k \<le> n"
  using bit_len_le_iff [of n k] by linarith

lemma bit_len_eq_iff: "0 < n \<Longrightarrow> bit_len n = Suc k \<longleftrightarrow> 2 ^ k \<le> n \<and> n < 2 ^ Suc k"
  using bit_len_le_iff [of n "Suc k"] less_bit_len_iff [of k n] by linarith

lemma bit_len_mono: "m \<le> n \<Longrightarrow> bit_len m \<le> bit_len n"
  by (meson bit_len_le_iff le_less_trans order_refl)

lemma less_two_power_bit_len: "n < 2 ^ bit_len n"
  using bit_len_le_iff by blast

lemma bit_len_word_le: "bit_len (unat (w :: 'a::len word)) \<le> LENGTH('a)"
  by (simp add: bit_len_le_iff)

lemma bit_len_max: "bit_len (max m n) = max (bit_len m) (bit_len n)"
  by (metis bit_len_mono max.absorb_iff2 max.orderE nle_le)

lemma less_two_power_iff_drop_bit: "n < 2 ^ k \<longleftrightarrow> drop_bit k n = (0::nat)"
  by (simp add: drop_bit_eq_div div_eq_0_iff)

lemma or_less_two_power_iff: "(a OR b :: nat) < 2 ^ k \<longleftrightarrow> a < 2 ^ k \<and> b < 2 ^ k"
  by (simp add: less_two_power_iff_drop_bit or_eq_0_iff)

lemma bit_len_or: "bit_len (a OR b) = max (bit_len a) (bit_len b)"
proof (rule antisym)
  show "bit_len (a OR b) \<le> max (bit_len a) (bit_len b)"
    unfolding bit_len_le_iff or_less_two_power_iff
    by (simp flip: bit_len_le_iff)
  have "a < 2 ^ bit_len (a OR b) \<and> b < 2 ^ bit_len (a OR b)"
    using less_two_power_bit_len [of "a OR b"] by (simp add: or_less_two_power_iff)
  then show "max (bit_len a) (bit_len b) \<le> bit_len (a OR b)"
    by (simp add: bit_len_le_iff)
qed

section \<open>Words as natural numbers\<close>

lemma u64_max_eq: "u64_max = 2 ^ 64 - 1"
  by (simp add: u64_max_def)

lemma unat_le_u64_max: "unat (x :: u64) \<le> u64_max"
proof -
  have "unat x < 2 ^ 64" using unsigned_less [of x, where ?'a = nat] by simp
  then show ?thesis by (simp add: u64_max_def)
qed

lemma unat_minus_1_u64 [simp]: "unat (- 1 :: u64) = u64_max"
  unfolding unsigned_minus_1_eq_mask by (simp add: u64_max_def mask_eq_exp_minus_1)

lemma eq_minus_1_iff: "(x :: u64) = - 1 \<longleftrightarrow> unat x = u64_max"
  by (simp add: word_unat_eq_iff)

lemma eq_of_nat_unat: "unat (x :: 'a::len word) = n \<Longrightarrow> x = of_nat n"
  by (metis of_nat_unat ucast_id)

lemma unat_of_nat_less: "n < 2 ^ LENGTH('a) \<Longrightarrow> unat (of_nat n :: 'a::len word) = n"
  by (simp add: unat_of_nat)

lemma word_one_le_iff: "1 \<le> (x :: 'a::len word) \<longleftrightarrow> x \<noteq> 0"
  by (simp add: word_le_nat_alt Suc_le_eq unat_gt_0)

lemma unat_u64_less: "unat (x :: u64) < 2 ^ 64"
  using unsigned_less [of x, where ?'a = nat] by simp

lemma to_usize_u32 [simp]: "to_usize (uint (w :: u32)) = Some (unat w)"
  using unsigned_less [of w, where ?'a = int] by (simp add: to_usize_def usize_max_def)

lemma two_power_less: "k < n \<Longrightarrow> (2::nat) ^ k < 2 ^ n"
  by simp

lemma unat_push_bit:
  "unat (push_bit k (x :: 'a::len word)) = unat x * 2 ^ k mod 2 ^ LENGTH('a)"
  by (rule trans [OF unsigned_push_bit_eq]) (simp only: take_bit_eq_mod push_bit_eq_mult)

lemma unat_drop_bit: "unat (drop_bit k (x :: 'a::len word)) = unat x div 2 ^ k"
  by (rule trans [OF unat_drop_bit_eq drop_bit_eq_div])

lemma shl_of_nat:
  "k < LENGTH('a) \<Longrightarrow> k < 256 \<Longrightarrow> shl (x :: 'a::len word) (of_nat k) = x * 2 ^ k"
  by (simp add: shl_def unat_of_nat_less push_bit_eq_mult)

lemma unat_shl_nat:
  "unat k < LENGTH('a) \<Longrightarrow> unat x * 2 ^ unat k < 2 ^ LENGTH('a)
    \<Longrightarrow> unat (shl (x :: 'a::len word) k) = unat x * 2 ^ unat k"
  by (simp add: shl_def unat_push_bit)

lemma unat_shr_nat:
  "unat k < LENGTH('a) \<Longrightarrow> unat (shr (x :: 'a::len word) k) = unat x div 2 ^ unat k"
  by (simp add: shr_def unat_drop_bit)

lemma unat_add_nat:
  "unat x + unat y < 2 ^ LENGTH('a) \<Longrightarrow> unat (x + y :: 'a::len word) = unat x + unat y"
  by (simp add: unat_word_ariths)

lemma unat_sub_nat: "y \<le> x \<Longrightarrow> unat (x - y :: 'a::len word) = unat x - unat y"
  by (rule unat_sub)

lemma unat_sub_less: "y \<noteq> 0 \<Longrightarrow> y \<le> x \<Longrightarrow> unat (x - y :: 'a::len word) < unat x"
proof -
  assume "y \<noteq> 0" and "y \<le> x"
  moreover from this have "0 < unat y" by (metis gr0I unsigned_eq_0_iff)
  ultimately show ?thesis by (simp add: unat_sub_nat word_le_nat_alt)
qed

lemma unat_ucast_nat:
  "unat x < 2 ^ LENGTH('b) \<Longrightarrow> unat (ucast (x :: 'a::len word) :: 'b::len word) = unat x"
  by (simp add: unsigned_ucast_eq take_bit_nat_eq_self)

lemma unat_saturating_add [nat_view]:
  "unat (saturating_add x y :: 'a::len word) = min (2 ^ LENGTH('a) - 1) (unat x + unat y)"
  by (auto simp: saturating_add_def unat_word_ariths unsigned_minus_1_eq_mask
      mask_eq_exp_minus_1 min_def)

lemma unat_saturating_add_u64:
  "unat (saturating_add x y :: u64) = min u64_max (unat x + unat y)"
  by (simp add: unat_saturating_add u64_max_def)

lemma checked_sub_Some_unat:
  "checked_sub x y = Some z \<Longrightarrow> unat x = unat z + unat (y :: 'a::len word)"
  by (auto simp: checked_sub_def word_le_nat_alt unat_sub split: if_splits)

lemma checked_add_Some_unat:
  "checked_add x y = Some z \<Longrightarrow> unat z = unat x + unat (y :: 'a::len word)"
  by (auto simp: checked_add_def unat_word_ariths split: if_splits)

section \<open>Lists of counts\<close>

text \<open>The sum of the counts as a natural number, and what a single update does to it.\<close>

definition sum_counts :: "'a::len word list \<Rightarrow> nat" where
  "sum_counts cs = sum_list (map unat cs)"

lemma sum_counts_Nil [simp]: "sum_counts [] = 0"
  by (simp add: sum_counts_def)

lemma sum_counts_Cons [simp]: "sum_counts (c # cs) = unat c + sum_counts cs"
  by (simp add: sum_counts_def)

lemma sum_counts_append [simp]: "sum_counts (cs @ ds) = sum_counts cs + sum_counts ds"
  by (simp add: sum_counts_def)

lemma sum_counts_replicate_0 [simp]: "sum_counts (replicate n 0) = 0"
  by (induction n) auto

lemma sum_counts_update:
  "i < length cs \<Longrightarrow> sum_counts (cs[i := c]) + unat (cs ! i) = sum_counts cs + unat c"
proof (induction cs arbitrary: i)
  case (Cons d cs)
  then show ?case by (cases i) auto
qed simp

lemma nth_le_sum_counts: "i < length cs \<Longrightarrow> unat (cs ! i) \<le> sum_counts cs"
  using sum_counts_update [of i cs 0] by simp

lemma sum_counts_take_Suc:
  "i < length cs \<Longrightarrow> sum_counts (take (Suc i) cs) = sum_counts (take i cs) + unat (cs ! i)"
  by (simp add: take_Suc_conv_app_nth)

lemma sum_counts_take_le: "sum_counts (take i cs) \<le> sum_counts cs"
  by (metis append_take_drop_id le_add1 sum_counts_append)

lemma sum_counts_take_mono: "i \<le> j \<Longrightarrow> sum_counts (take i cs) \<le> sum_counts (take j cs)"
  by (metis min.absorb1 sum_counts_take_le take_take)

text \<open>\<open>Vec::resize\<close>: truncate or pad with the given value.\<close>

definition vec_resize :: "'a list \<Rightarrow> nat \<Rightarrow> 'a \<Rightarrow> 'a list" where
  "vec_resize xs n x = take n xs @ replicate (n - length xs) x"

lemma length_vec_resize [simp]: "length (vec_resize xs n x) = n"
  by (simp add: vec_resize_def)

lemma nth_vec_resize:
  "i < n \<Longrightarrow> vec_resize xs n x ! i = (if i < length xs then xs ! i else x)"
  by (auto simp: vec_resize_def nth_append)

lemma sum_counts_vec_resize:
  "length cs \<le> n \<Longrightarrow> sum_counts (vec_resize cs n 0) = sum_counts cs"
  by (simp add: vec_resize_def)

end
