(* ===== verification/Geometry.thy ===== *)
theory Geometry
  imports Prelude
begin

text \<open>
  The reference description of the bins of a histogram, on natural numbers. A layout is two
  exponents: the unit magnitude \<open>um\<close> (values below \<open>2 ^ um\<close> are not told apart) and the half
  count magnitude \<open>hm\<close> (a bucket uses \<open>2 ^ hm\<close> sub-buckets, bucket 0 twice as many). Bucket
  \<open>e\<close> has bins of width \<open>2 ^ (e + um)\<close>.

  The locale \<open>binning\<close> is the contract between the index calculation and everything that
  scans or updates the counts: an index and a value function that are inverse on the bins and
  monotone. It is interpreted on the code's own index calculation in the theory Layout.
\<close>

section \<open>The contract of an index calculation\<close>

locale binning =
  fixes ok :: "'l \<Rightarrow> bool"
    and bins :: "'l \<Rightarrow> nat"
    and limit :: "'l \<Rightarrow> nat"
    and index :: "'l \<Rightarrow> nat \<Rightarrow> nat"
    and val :: "'l \<Rightarrow> nat \<Rightarrow> nat"
  assumes index_less: "ok l \<Longrightarrow> v < limit l \<Longrightarrow> index l v < bins l"
    and val_less: "ok l \<Longrightarrow> i < bins l \<Longrightarrow> val l i < limit l"
    and index_val: "ok l \<Longrightarrow> i < bins l \<Longrightarrow> index l (val l i) = i"
    and index_mono: "ok l \<Longrightarrow> v \<le> w \<Longrightarrow> w < limit l \<Longrightarrow> index l v \<le> index l w"
    and val_index_le: "ok l \<Longrightarrow> v < limit l \<Longrightarrow> val l (index l v) \<le> v"
begin

lemma val_strict_mono: "ok l \<Longrightarrow> i < j \<Longrightarrow> j < bins l \<Longrightarrow> val l i < val l j"
  using index_mono [of l "val l j" "val l i"] index_val [of l i] index_val [of l j]
    val_less [of l i] by (metis le_less_trans less_trans linorder_not_le nat_less_le)

lemma val_mono: "ok l \<Longrightarrow> i \<le> j \<Longrightarrow> j < bins l \<Longrightarrow> val l i \<le> val l j"
  using val_strict_mono [of l i j] by (cases "i = j") auto

lemma le_index_iff:
  assumes "ok l" and "i < bins l" and "v < limit l"
  shows "i \<le> index l v \<longleftrightarrow> val l i \<le> v"
proof
  assume "i \<le> index l v"
  then have "val l i \<le> val l (index l v)"
    using assms by (auto intro: val_mono index_less)
  also have "\<dots> \<le> v" using assms by (auto intro: val_index_le)
  finally show "val l i \<le> v" .
next
  assume "val l i \<le> v"
  then have "index l (val l i) \<le> index l v" using assms by (auto intro: index_mono)
  then show "i \<le> index l v" using assms by (simp add: index_val)
qed

lemma index_less_iff:
  "ok l \<Longrightarrow> i < bins l \<Longrightarrow> v < limit l \<Longrightarrow> index l v < i \<longleftrightarrow> v < val l i"
  using le_index_iff [of l i v] by linarith

text \<open>A bin holds exactly the values from its own value up to the value of the next bin.\<close>

lemma index_eq_iff:
  assumes "ok l" and "Suc i < bins l" and "v < limit l"
  shows "index l v = i \<longleftrightarrow> val l i \<le> v \<and> v < val l (Suc i)"
  using le_index_iff [of l i v] index_less_iff [of l "Suc i" v] assms by auto

lemma same_bin_lowest:
  assumes "ok l" and "v < limit l" and "w < limit l" and "index l v = index l w"
  shows "val l (index l v) \<le> w"
  using assms by (simp add: val_index_le)

end

section \<open>Buckets and bins on natural numbers\<close>

definition bin_bucket :: "nat \<Rightarrow> nat \<Rightarrow> nat \<Rightarrow> nat" where
  "bin_bucket um hm v = bit_len v - (um + hm + 1)"

definition bin_sub :: "nat \<Rightarrow> nat \<Rightarrow> nat \<Rightarrow> nat" where
  "bin_sub um hm v = v div 2 ^ (bin_bucket um hm v + um)"

definition bin_index :: "nat \<Rightarrow> nat \<Rightarrow> nat \<Rightarrow> nat" where
  "bin_index um hm v = bin_bucket um hm v * 2 ^ hm + bin_sub um hm v"

definition bin_width :: "nat \<Rightarrow> nat \<Rightarrow> nat \<Rightarrow> nat" where
  "bin_width um hm v = 2 ^ (bin_bucket um hm v + um)"

definition bin_low :: "nat \<Rightarrow> nat \<Rightarrow> nat \<Rightarrow> nat" where
  "bin_low um hm v = bin_sub um hm v * bin_width um hm v"

definition bin_value :: "nat \<Rightarrow> nat \<Rightarrow> nat \<Rightarrow> nat" where
  "bin_value um hm i =
     (if i < 2 ^ hm then i * 2 ^ um
      else (i mod 2 ^ hm + 2 ^ hm) * 2 ^ (i div 2 ^ hm - 1 + um))"

subsection \<open>Where a value lands\<close>

lemma bin_width_pos [simp]: "0 < bin_width um hm v"
  by (simp add: bin_width_def)

lemma bin_bucket_less_iff:
  "0 < b \<Longrightarrow> bin_bucket um hm v < b \<longleftrightarrow> v < 2 ^ (um + hm + b)"
  using bit_len_le_iff [of v "um + hm + b"] by (auto simp: bin_bucket_def)

lemma value_less_bucket: "v < 2 ^ (um + hm + 1 + bin_bucket um hm v)"
proof -
  have "bit_len v \<le> um + hm + 1 + bin_bucket um hm v" by (simp add: bin_bucket_def)
  then show ?thesis by (simp only: bit_len_le_iff)
qed

lemma bucket_le_value:
  "0 < bin_bucket um hm v \<Longrightarrow> 2 ^ (um + hm + bin_bucket um hm v) \<le> v"
  using less_bit_len_iff [of "um + hm + bin_bucket um hm v" v] by (simp add: bin_bucket_def)

lemma bin_sub_less: "bin_sub um hm v < 2 ^ (hm + 1)"
proof -
  let ?e = "bin_bucket um hm v"
  have "v < 2 ^ (hm + 1) * 2 ^ (?e + um)"
    using value_less_bucket [of v um hm] by (simp add: power_add mult_ac)
  then show ?thesis by (simp add: bin_sub_def less_mult_imp_div_less)
qed

lemma bin_sub_ge: "0 < bin_bucket um hm v \<Longrightarrow> 2 ^ hm \<le> bin_sub um hm v"
proof -
  let ?e = "bin_bucket um hm v"
  assume "0 < ?e"
  then have "2 ^ hm * 2 ^ (?e + um) \<le> v"
    using bucket_le_value [of um hm v] by (simp add: power_add mult_ac)
  then show ?thesis
    by (simp add: bin_sub_def less_eq_div_iff_mult_less_eq)
qed

lemma bin_low_le: "bin_low um hm v \<le> v"
  by (simp add: bin_low_def bin_sub_def bin_width_def)

lemma less_bin_low_width: "v < bin_low um hm v + bin_width um hm v"
proof -
  let ?w = "2 ^ (bin_bucket um hm v + um) :: nat"
  have "v = v div ?w * ?w + v mod ?w" by (simp only: div_mult_mod_eq)
  moreover have "v mod ?w < ?w" by simp
  ultimately show ?thesis
    unfolding bin_low_def bin_sub_def bin_width_def by linarith
qed

lemma bin_bucket_mono: "v \<le> w \<Longrightarrow> bin_bucket um hm v \<le> bin_bucket um hm w"
  by (simp add: bin_bucket_def bit_len_mono diff_le_mono)

lemma bin_index_bounds:
  shows "0 < bin_bucket um hm v \<Longrightarrow> (bin_bucket um hm v + 1) * 2 ^ hm \<le> bin_index um hm v"
    and "bin_index um hm v < (bin_bucket um hm v + 2) * 2 ^ hm"
  using bin_sub_ge [of um hm v] bin_sub_less [of um hm v]
  by (auto simp: bin_index_def algebra_simps)

lemma bin_index_mono:
  assumes "v \<le> w"
  shows "bin_index um hm v \<le> bin_index um hm w"
proof (cases "bin_bucket um hm v = bin_bucket um hm w")
  case True
  then show ?thesis using assms by (simp add: bin_index_def bin_sub_def div_le_mono)
next
  case False
  then have less: "bin_bucket um hm v + 1 \<le> bin_bucket um hm w"
    using bin_bucket_mono [OF assms] by (metis Suc_eq_plus1 Suc_leI nat_less_le)
  have "bin_index um hm v \<le> (bin_bucket um hm v + 2) * 2 ^ hm"
    using bin_index_bounds(2) less_imp_le by blast
  also have "\<dots> \<le> (bin_bucket um hm w + 1) * 2 ^ hm"
    using less by (intro mult_le_mono1) linarith
  also have "\<dots> \<le> bin_index um hm w"
    using less by (intro bin_index_bounds(1)) linarith
  finally show ?thesis .
qed

lemma bin_index_less_iff:
  assumes "0 < b"
  shows "bin_index um hm v < (b + 1) * 2 ^ hm \<longleftrightarrow> v < 2 ^ (um + hm + b)"
proof -
  have "bin_bucket um hm v < b \<Longrightarrow> bin_index um hm v < (b + 1) * 2 ^ hm"
    using bin_index_bounds(2) [of um hm v] mult_le_mono1 [of "bin_bucket um hm v + 2" "b + 1" "2 ^ hm"]
    by linarith
  moreover have "b \<le> bin_bucket um hm v \<Longrightarrow> (b + 1) * 2 ^ hm \<le> bin_index um hm v"
    using bin_index_bounds(1) [of um hm v] assms
      mult_le_mono1 [of "b + 1" "bin_bucket um hm v + 1" "2 ^ hm"] by linarith
  ultimately show ?thesis
    using bin_bucket_less_iff [OF assms, of um hm v] by (meson linorder_not_less)
qed

subsection \<open>From an index back to a value\<close>

lemma bin_bucket_loc:
  assumes "s < 2 ^ (hm + 1)" and "0 < e \<Longrightarrow> 2 ^ hm \<le> s" and "r < 2 ^ (e + um)"
  shows "bin_bucket um hm (s * 2 ^ (e + um) + r) = e"
proof -
  let ?v = "s * 2 ^ (e + um) + r"
  have "?v < (s + 1) * 2 ^ (e + um)" using assms(3) by simp
  also have "\<dots> \<le> 2 ^ (hm + 1) * 2 ^ (e + um)"
    using assms(1) by (intro mult_le_mono1) simp
  also have "\<dots> = 2 ^ (um + hm + (e + 1))" by (simp add: power_add mult_ac)
  finally have upper: "bin_bucket um hm ?v < e + 1" by (simp add: bin_bucket_less_iff)
  have "\<not> bin_bucket um hm ?v < e"
  proof
    assume less: "bin_bucket um hm ?v < e"
    then have "0 < e" by simp
    with less have "?v < 2 ^ hm * 2 ^ (e + um)"
      by (simp add: bin_bucket_less_iff power_add mult_ac)
    moreover have "2 ^ hm * 2 ^ (e + um) \<le> s * 2 ^ (e + um)"
      using assms(2) \<open>0 < e\<close> by simp
    ultimately show False by linarith
  qed
  with upper show ?thesis by simp
qed

lemma bin_sub_loc:
  assumes "s < 2 ^ (hm + 1)" and "0 < e \<Longrightarrow> 2 ^ hm \<le> s" and "r < 2 ^ (e + um)"
  shows "bin_sub um hm (s * 2 ^ (e + um) + r) = s"
  using bin_bucket_loc [OF assms] assms(3) by (simp add: bin_sub_def)

lemma bin_value_split:
  obtains e s where "bin_value um hm i = s * 2 ^ (e + um)" and "i = e * 2 ^ hm + s"
    and "s < 2 ^ (hm + 1)" and "0 < e \<Longrightarrow> 2 ^ hm \<le> s"
proof (cases "i < 2 ^ hm")
  case True
  show thesis
    by (rule that [of i 0]) (use True in \<open>auto simp: bin_value_def\<close>)
next
  case False
  then have pos: "0 < i div 2 ^ hm" by (simp add: div_greater_zero_iff)
  have "i = i div 2 ^ hm * 2 ^ hm + i mod 2 ^ hm" by (simp only: div_mult_mod_eq)
  also have "\<dots> = (i div 2 ^ hm - 1) * 2 ^ hm + (i mod 2 ^ hm + 2 ^ hm)"
    using pos by (metis (no_types, lifting) Suc_diff_1 add.assoc add.commute mult_Suc)
  finally have "i = (i div 2 ^ hm - 1) * 2 ^ hm + (i mod 2 ^ hm + 2 ^ hm)" .
  moreover have "i mod 2 ^ hm + 2 ^ hm < 2 ^ (hm + 1)" by simp
  ultimately show thesis
    using False by (intro that [of "i mod 2 ^ hm + 2 ^ hm" "i div 2 ^ hm - 1"])
      (auto simp: bin_value_def)
qed

lemma bin_index_value: "bin_index um hm (bin_value um hm i) = i"
proof -
  obtain e s where v: "bin_value um hm i = s * 2 ^ (e + um)" and i: "i = e * 2 ^ hm + s"
    and s: "s < 2 ^ (hm + 1)" "0 < e \<Longrightarrow> 2 ^ hm \<le> s"
    using bin_value_split [of um hm i] by metis
  show ?thesis
    unfolding bin_index_def v
    using bin_bucket_loc [of s hm e 0 um] bin_sub_loc [of s hm e 0 um] s i by simp
qed

lemma bin_value_index: "bin_value um hm (bin_index um hm v) = bin_low um hm v"
proof (cases "bin_index um hm v < 2 ^ hm")
  case True
  then have "bin_bucket um hm v = 0" using bin_index_bounds(1) [of um hm v] by (auto simp: algebra_simps)
  with True show ?thesis
    by (simp add: bin_value_def bin_low_def bin_width_def bin_index_def)
next
  case False
  let ?e = "bin_bucket um hm v" and ?s = "bin_sub um hm v"
  have ge: "2 ^ hm \<le> ?s" using False bin_sub_ge [of um hm v]
    by (cases "?e = 0") (auto simp: bin_index_def)
  then have s: "?s = 2 ^ hm + (?s - 2 ^ hm)" and "?s - 2 ^ hm < 2 ^ hm"
    using bin_sub_less [of um hm v] by auto
  then have "bin_index um hm v = (?e + 1) * 2 ^ hm + (?s - 2 ^ hm)"
    by (simp add: bin_index_def)
  then have "bin_index um hm v div 2 ^ hm = ?e + 1"
    and "bin_index um hm v mod 2 ^ hm = ?s - 2 ^ hm"
    using \<open>?s - 2 ^ hm < 2 ^ hm\<close> by (simp_all add: div_mult_self3 del: mult_Suc)
  with False ge show ?thesis
    by (simp add: bin_value_def bin_low_def bin_width_def)
qed

lemma bin_value_less_iff:
  "0 < b \<Longrightarrow> bin_value um hm i < 2 ^ (um + hm + b) \<longleftrightarrow> i < (b + 1) * 2 ^ hm"
  using bin_index_less_iff [of b um hm "bin_value um hm i"] by (simp add: bin_index_value)

lemma bin_low_idem: "bin_low um hm (bin_low um hm v) = bin_low um hm v"
  by (metis bin_index_value bin_value_index)

lemma bin_index_low: "bin_index um hm (bin_low um hm v) = bin_index um hm v"
  by (metis bin_index_value bin_value_index)

lemma bin_low_high_same:
  assumes "bin_low um hm v \<le> w" and "w < bin_low um hm v + bin_width um hm v"
  shows "bin_index um hm w = bin_index um hm v"
proof -
  let ?e = "bin_bucket um hm v" and ?s = "bin_sub um hm v"
  have r: "w - bin_low um hm v < 2 ^ (?e + um)" and w: "w = ?s * 2 ^ (?e + um) + (w - bin_low um hm v)"
    using assms by (auto simp: bin_width_def bin_low_def)
  have "bin_bucket um hm w = ?e"
    by (subst w, rule bin_bucket_loc [OF bin_sub_less _ r]) (rule bin_sub_ge)
  moreover have "bin_sub um hm w = ?s"
    by (subst w, rule bin_sub_loc [OF bin_sub_less _ r]) (rule bin_sub_ge)
  ultimately show ?thesis by (simp add: bin_index_def)
qed

lemma bin_bucket_low: "bin_bucket um hm (bin_low um hm v) = bin_bucket um hm v"
  using bin_bucket_loc [where s = "bin_sub um hm v" and e = "bin_bucket um hm v" and r = 0,
      OF bin_sub_less bin_sub_ge]
  by (simp add: bin_low_def bin_width_def)

text \<open>The last value of a bin of a histogram with \<open>b\<close> buckets is still below its limit.\<close>

lemma bin_top_le:
  assumes "0 < b" and "v < 2 ^ (um + hm + b)"
  shows "bin_low um hm v + bin_width um hm v \<le> 2 ^ (um + hm + b)"
proof -
  let ?e = "bin_bucket um hm v"
  have "?e < b" using assms by (simp add: bin_bucket_less_iff)
  have "bin_low um hm v + bin_width um hm v = (bin_sub um hm v + 1) * 2 ^ (?e + um)"
    by (simp add: bin_low_def bin_width_def algebra_simps)
  also have "\<dots> \<le> 2 ^ (hm + 1) * 2 ^ (?e + um)"
    using bin_sub_less [of um hm v] by (intro mult_le_mono1) simp
  also have "\<dots> = 2 ^ (um + hm + (?e + 1))" by (simp add: power_add mult_ac)
  also have "\<dots> \<le> 2 ^ (um + hm + b)"
    using \<open>?e < b\<close> by (intro power_increasing) auto
  finally show ?thesis .
qed

text \<open>The precision of a bin: as narrow as the unit, or \<open>2 ^ hm\<close> times narrower than its values.\<close>

lemma bin_width_precision:
  "bin_width um hm v = 2 ^ um \<or> bin_width um hm v * 2 ^ hm \<le> v"
proof (cases "bin_bucket um hm v")
  case (Suc e)
  then show ?thesis
    using bucket_le_value [of um hm v] by (simp add: bin_width_def power_add mult_ac)
qed (simp add: bin_width_def)

end
