(* ===== verification/Layout.thy ===== *)
theory Layout
  imports Geometry
begin

unbundle bit_operations_syntax

text \<open>
  The histogram as a record and its index calculation (\<open>lib.rs\<close>): the bucket and sub-bucket
  of a value, the index of a value in the counts array, the value of an index, and the ranges
  of equivalent values. The lemmas give each function as arithmetic on the reference bins of
  the theory Geometry, and interpret the contract \<open>binning\<close> on them.
\<close>

section \<open>The histogram\<close>

record 'c histogram =
  auto_resize :: bool
  highest_trackable_value :: u64
  lowest_discernible_value :: u64
  significant_value_digits :: u8
  bucket_count :: u8
  sub_bucket_count :: u32
  sub_bucket_half_count :: u32
  sub_bucket_half_count_magnitude :: u8
  sub_bucket_mask :: u64
  leading_zero_count_base :: u8
  unit_magnitude :: u8
  unit_magnitude_mask :: u64
  max_value :: u64
  min_non_zero_value :: u64
  total_count :: u64
  counts :: "'c list"

definition ORIGINAL_MIN :: u64 where "ORIGINAL_MIN = - 1"
definition ORIGINAL_MAX :: u64 where "ORIGINAL_MAX = 0"

definition distinct_values :: "'c histogram \<Rightarrow> nat" where
  "distinct_values h = length (counts h)"

definition low :: "'c histogram \<Rightarrow> u64" where
  "low h = lowest_discernible_value h"

definition high :: "'c histogram \<Rightarrow> u64" where
  "high h = highest_trackable_value h"

definition sigfig :: "'c histogram \<Rightarrow> u8" where
  "sigfig h = significant_value_digits h"

definition len :: "'c histogram \<Rightarrow> u64" where
  "len h = total_count h"

definition is_empty :: "'c histogram \<Rightarrow> bool" where
  "is_empty h \<longleftrightarrow> total_count h = 0"

definition buckets :: "'c histogram \<Rightarrow> u8" where
  "buckets h = bucket_count h"

section \<open>Index calculation\<close>

definition bucket_for :: "'c histogram \<Rightarrow> u64 \<Rightarrow> u8" where
  "bucket_for h value =
     leading_zero_count_base h - of_nat (leading_zeros (value OR sub_bucket_mask h))"

definition sub_bucket_for :: "'c histogram \<Rightarrow> u64 \<Rightarrow> u8 \<Rightarrow> u32" where
  "sub_bucket_for h value bucket_index = ucast (shr value (bucket_index + unit_magnitude h))"

definition value_from_loc :: "'c histogram \<Rightarrow> u8 \<Rightarrow> u32 \<Rightarrow> u64" where
  "value_from_loc h bucket_index sub_bucket_index =
     shl (ucast sub_bucket_index) (bucket_index + unit_magnitude h)"

definition index_for :: "'c histogram \<Rightarrow> u64 \<Rightarrow> nat option" where
  "index_for h value =
     (let bucket_index = bucket_for h value;
          sub_bucket_index = sub_bucket_for h value bucket_index;
          bucket_base_index =
            shl (ucast bucket_index + 1 :: i32) (sub_bucket_half_count_magnitude h);
          offset_in_bucket = sub_bucket_index - sub_bucket_half_count h;
          index = bucket_base_index + offset_in_bucket
      in to_usize (sint index))"

definition value_for :: "'c histogram \<Rightarrow> nat \<Rightarrow> ('e, u64) res" where
  "value_for h index =
     (let bucket_index =
            int (drop_bit (unat (sub_bucket_half_count_magnitude h) mod 64) index) - 1
      in bind_res (expect (to_u32 index)) (\<lambda>i.
           let sub_bucket_index =
                 (i AND (sub_bucket_half_count h - 1)) + sub_bucket_half_count h
           in if bucket_index < 0
              then Ok (value_from_loc h 0 (sub_bucket_index - sub_bucket_half_count h))
              else Ok (value_from_loc h (of_int bucket_index) sub_bucket_index)))"

definition last_index :: "'c histogram \<Rightarrow> ('e, nat) res" where
  "last_index h = (if distinct_values h = 0 then Panic else Ok (distinct_values h - 1))"

definition index_for_or_last :: "'c histogram \<Rightarrow> u64 \<Rightarrow> ('e, nat) res" where
  "index_for_or_last h value =
     bind_res (last_index h) (\<lambda>last.
       case index_for h value of None \<Rightarrow> Ok last | Some i \<Rightarrow> Ok (min i last))"

text \<open>\<open>mut_at\<close> hands out a reference into the counts; the model hands out its position.\<close>

definition mut_at :: "'c histogram \<Rightarrow> u64 \<Rightarrow> nat option" where
  "mut_at h value =
     (case index_for h value of
        None \<Rightarrow> None
      | Some i \<Rightarrow> (if i < length (counts h) then Some i else None))"

definition count_at_index :: "'c histogram \<Rightarrow> nat \<Rightarrow> 'c option" where
  "count_at_index h index = (if index < length (counts h) then Some (counts h ! index) else None)"

definition set_count_at_index :: "'c histogram \<Rightarrow> nat \<Rightarrow> 'c \<Rightarrow> (unit, 'c histogram) res" where
  "set_count_at_index h index count =
     (if index < length (counts h) then Ok (h\<lparr>counts := (counts h)[index := count]\<rparr>) else Err ())"

section \<open>Ranges of equivalent values\<close>

definition lowest_equivalent :: "'c histogram \<Rightarrow> u64 \<Rightarrow> u64" where
  "lowest_equivalent h value =
     (let bucket_index = bucket_for h value;
          sub_bucket_index = sub_bucket_for h value bucket_index
      in value_from_loc h bucket_index sub_bucket_index)"

definition equivalent_range :: "'c histogram \<Rightarrow> u64 \<Rightarrow> u64" where
  "equivalent_range h value = shl 1 (unit_magnitude h + bucket_for h value)"

definition next_non_equivalent :: "'c histogram \<Rightarrow> u64 \<Rightarrow> u64" where
  "next_non_equivalent h value =
     saturating_add (lowest_equivalent h value) (equivalent_range h value)"

definition highest_equivalent :: "'c histogram \<Rightarrow> u64 \<Rightarrow> u64" where
  "highest_equivalent h value =
     (if value = - 1 then - 1 else next_non_equivalent h value - 1)"

definition median_equivalent :: "'c histogram \<Rightarrow> u64 \<Rightarrow> ('e, u64) res" where
  "median_equivalent h value =
     expect (checked_add (lowest_equivalent h value) (shr (equivalent_range h value) 1))"

definition equivalent :: "'c histogram \<Rightarrow> u64 \<Rightarrow> u64 \<Rightarrow> bool" where
  "equivalent h value1 value2 \<longleftrightarrow> lowest_equivalent h value1 = lowest_equivalent h value2"

section \<open>Sizing\<close>

text \<open>
  The doubling loop of \<open>buckets_to_cover\<close>. It ends because the value doubles until it passes
  half of the \<open>u64\<close> range; from 0 it would not end, which the layout rules out.
\<close>

partial_function (option) buckets_loop :: "u64 \<Rightarrow> u64 \<Rightarrow> u8 \<Rightarrow> u8 option" where
  "buckets_loop smallest_untrackable_value value buckets_needed =
     (if smallest_untrackable_value \<le> value then
        (if smallest_untrackable_value > 0x7FFFFFFFFFFFFFFF
         then Some (buckets_needed + 1)
         else buckets_loop (shl smallest_untrackable_value 1) value (buckets_needed + 1))
      else Some buckets_needed)"

definition buckets_to_cover :: "'c histogram \<Rightarrow> u64 \<Rightarrow> u8 option" where
  "buckets_to_cover h value =
     buckets_loop (shl (ucast (sub_bucket_count h)) (unit_magnitude h)) value 1"

definition num_bins :: "'c histogram \<Rightarrow> u8 \<Rightarrow> u32" where
  "num_bins h number_of_buckets = (ucast number_of_buckets + 1) * sub_bucket_half_count h"

section \<open>The layout invariant\<close>

abbreviation um :: "'c histogram \<Rightarrow> nat" where
  "um h \<equiv> unat (unit_magnitude h)"

abbreviation hm :: "'c histogram \<Rightarrow> nat" where
  "hm h \<equiv> unat (sub_bucket_half_count_magnitude h)"

abbreviation bc :: "'c histogram \<Rightarrow> nat" where
  "bc h \<equiv> unat (bucket_count h)"

text \<open>What the comments on the fields of \<open>Histogram\<close> say, all of it fixed by construction.\<close>

definition layout_ok :: "'c histogram \<Rightarrow> bool" where
  "layout_ok h \<longleftrightarrow>
     hm h \<le> 17 \<and> um h + hm h + 1 \<le> 63 \<and>
     unat (sub_bucket_count h) = 2 ^ (hm h + 1) \<and>
     unat (sub_bucket_half_count h) = 2 ^ hm h \<and>
     unat (sub_bucket_mask h) = (2 ^ (hm h + 1) - 1) * 2 ^ um h \<and>
     unat (leading_zero_count_base h) = 64 - (um h + hm h + 1) \<and>
     unat (unit_magnitude_mask h) = 2 ^ um h - 1"

text \<open>The values a histogram has room for, and the length of its counts array.\<close>

definition capacity :: "'c histogram \<Rightarrow> nat" where
  "capacity h = 2 ^ (um h + hm h + bc h)"

definition bins_ok :: "'c histogram \<Rightarrow> bool" where
  "bins_ok h \<longleftrightarrow>
     layout_ok h \<and> 1 \<le> bc h \<and> um h + hm h + bc h \<le> 64 \<and>
     length (counts h) = (bc h + 1) * 2 ^ hm h"

lemma layout_okD [layout_simps]:
  assumes "layout_ok h"
  shows "hm h \<le> 17" and "um h + hm h + 1 \<le> 63"
    and "unat (sub_bucket_count h) = 2 ^ (hm h + 1)"
    and "unat (sub_bucket_half_count h) = 2 ^ hm h"
    and "unat (sub_bucket_mask h) = (2 ^ (hm h + 1) - 1) * 2 ^ um h"
    and "unat (leading_zero_count_base h) = 64 - (um h + hm h + 1)"
    and "unat (unit_magnitude_mask h) = 2 ^ um h - 1"
  using assms by (auto simp: layout_ok_def)

lemma bins_okD:
  assumes "bins_ok h"
  shows "layout_ok h" and "1 \<le> bc h" and "um h + hm h + bc h \<le> 64"
    and "length (counts h) = (bc h + 1) * 2 ^ hm h"
  using assms by (auto simp: bins_ok_def)


section \<open>The code's calculation is the reference one\<close>

lemma bit_len_mask_shifted: "bit_len ((2 ^ Suc k - 1) * 2 ^ m) = m + k + 1"
proof -
  have "2 ^ k * 2 ^ m \<le> (2 ^ Suc k - 1) * (2::nat) ^ m"
    by (intro mult_le_mono1) simp
  moreover have "(2 ^ Suc k - 1) * 2 ^ m < 2 ^ Suc k * (2::nat) ^ m"
    by (intro mult_strict_right_mono) simp_all
  ultimately show ?thesis
    using bit_len_eq_iff [of "(2 ^ Suc k - 1) * 2 ^ m" "m + k"] one_less_power [of "2::nat" "Suc k"]
    by (simp add: power_add mult_ac)
qed

lemma unat_bucket_for [nat_view]:
  assumes "layout_ok h"
  shows "unat (bucket_for h v) = bin_bucket (um h) (hm h) (unat v)"
proof -
  let ?k = "um h + hm h + 1" and ?l = "bit_len (unat v)"
  note [simp] = layout_okD [OF assms]
  have k: "?k \<le> 63" using assms by (rule layout_okD)
  have "bit_len (unat (v OR sub_bucket_mask h)) = max ?l ?k"
    using bit_len_mask_shifted [of "hm h" "um h"] by (simp add: unsigned_or_eq bit_len_or)
  then have lz: "leading_zeros (v OR sub_bucket_mask h) = 64 - max ?l ?k"
    by (simp add: leading_zeros_def)
  have "unat (of_nat (64 - max ?l ?k) :: u8) = 64 - max ?l ?k"
    by (simp add: unat_of_nat)
  moreover from this have "of_nat (64 - max ?l ?k) \<le> leading_zero_count_base h"
    by (simp add: word_le_nat_alt)
  ultimately have "unat (bucket_for h v) = (64 - ?k) - (64 - max ?l ?k)"
    by (simp add: bucket_for_def lz unat_sub_nat)
  also have "\<dots> = ?l - ?k"
    using bit_len_word_le [of v] k by (simp add: max_def)
  finally show ?thesis by (simp add: bin_bucket_def)
qed

lemma bucket_shift_less:
  assumes "layout_ok h"
  shows "bin_bucket (um h) (hm h) (unat (v :: u64)) + um h < 64"
  using bit_len_word_le [of v] layout_okD(2) [OF assms] by (simp add: bin_bucket_def)

lemma unat_bucket_plus_unit:
  assumes "layout_ok h"
  shows "unat (bucket_for h v + unit_magnitude h) = bin_bucket (um h) (hm h) (unat v) + um h"
    and "unat (unit_magnitude h + bucket_for h v) = bin_bucket (um h) (hm h) (unat v) + um h"
  using bucket_shift_less [OF assms, of v] unat_bucket_for [OF assms, of v]
  by (simp_all add: unat_add_nat)

lemma unat_sub_bucket_for [nat_view]:
  assumes "layout_ok h"
  shows "unat (sub_bucket_for h v (bucket_for h v)) = bin_sub (um h) (hm h) (unat v)"
proof -
  note b = unat_bucket_plus_unit [OF assms, of v]
  have "unat (shr v (bucket_for h v + unit_magnitude h)) = bin_sub (um h) (hm h) (unat v)"
    using bucket_shift_less [OF assms, of v] by (simp add: unat_shr_nat b bin_sub_def)
  moreover have "bin_sub (um h) (hm h) (unat v) < 2 ^ 32"
  proof -
    have "bin_sub (um h) (hm h) (unat v) < 2 ^ (hm h + 1)" by (rule bin_sub_less)
    also have "\<dots> \<le> 2 ^ 32" using layout_okD(1) [OF assms] by (intro power_increasing) auto
    finally show ?thesis .
  qed
  ultimately show ?thesis by (simp add: sub_bucket_for_def unat_ucast_nat)
qed

lemma unat_value_from_loc [nat_view]:
  assumes "unat b + um h < 64" and "unat s * 2 ^ (unat b + um h) < 2 ^ 64"
  shows "unat (value_from_loc h b s) = unat s * 2 ^ (unat b + um h)"
proof -
  have s: "unat (ucast s :: u64) = unat s"
    using unsigned_less [of s, where ?'a = nat] by (intro unat_ucast_nat) simp
  have b: "unat (b + unit_magnitude h) = unat b + um h"
    using assms(1) by (intro unat_add_nat) simp
  show ?thesis
    using assms by (simp add: value_from_loc_def unat_shl_nat s b)
qed

lemma unat_lowest_equivalent [nat_view]:
  assumes "layout_ok h"
  shows "unat (lowest_equivalent h v) = bin_low (um h) (hm h) (unat v)"
proof -
  have "bin_low (um h) (hm h) (unat v) < 2 ^ 64"
    using bin_low_le [of "um h" "hm h" "unat v"] unsigned_less [of v, where ?'a = nat] by simp
  then show ?thesis
    using bucket_shift_less [OF assms, of v]
    by (simp add: lowest_equivalent_def Let_def unat_value_from_loc nat_view assms bin_low_def bin_width_def)
qed

lemma unat_equivalent_range [nat_view]:
  assumes "layout_ok h"
  shows "unat (equivalent_range h v) = bin_width (um h) (hm h) (unat v)"
proof -
  let ?k = "bin_bucket (um h) (hm h) (unat v) + um h"
  have "(2::nat) ^ ?k < 2 ^ 64"
    using bucket_shift_less [OF assms, of v] by (intro power_strict_increasing) auto
  then show ?thesis
    using bucket_shift_less [OF assms, of v] unat_bucket_plus_unit(2) [OF assms, of v]
    by (simp add: equivalent_range_def unat_shl_nat bin_width_def)
qed

lemma bin_top_le_u64:
  assumes "layout_ok h"
  shows "bin_low (um h) (hm h) (unat (v::u64)) + bin_width (um h) (hm h) (unat v) \<le> 2 ^ 64"
proof -
  let ?b = "64 - (um h + hm h)"
  have "0 < ?b" and "um h + hm h + ?b = 64" using layout_okD(2) [OF assms] by auto
  then show ?thesis
    using bin_top_le [of ?b "unat v" "um h" "hm h"] unsigned_less [of v, where ?'a = nat] by simp
qed

lemma unat_next_non_equivalent [nat_view]:
  assumes "layout_ok h"
  shows "unat (next_non_equivalent h v) =
    min u64_max (bin_low (um h) (hm h) (unat v) + bin_width (um h) (hm h) (unat v))"
  by (simp add: next_non_equivalent_def unat_saturating_add_u64 nat_view assms)

lemma nth_i32:
  assumes "n < 2 ^ 31" shows "sint (of_nat n :: i32) = int n"
  using assms by (simp add: sint_uint uint_nat unat_of_nat signed_take_bit_int_eq_self_iff)

lemma half_count_eq: "layout_ok h \<Longrightarrow> sub_bucket_half_count h = 2 ^ hm h"
  by (metis layout_okD(4) of_nat_numeral of_nat_power of_nat_unat ucast_id)

lemma index_for_eq:
  assumes "layout_ok h"
  shows "index_for h v = Some (bin_index (um h) (hm h) (unat v))"
proof -
  let ?e = "bin_bucket (um h) (hm h) (unat v)" and ?s = "bin_sub (um h) (hm h) (unat v)"
  note l = layout_okD [OF assms]
  have e: "?e \<le> 63" using bucket_shift_less [OF assms, of v] by simp
  have b: "(ucast (bucket_for h v) :: i32) = of_nat ?e"
    by (simp add: unat_bucket_for [OF assms, symmetric] of_nat_unat)
  have s: "sub_bucket_for h v (bucket_for h v) = of_nat ?s"
    by (simp add: unat_sub_bucket_for [OF assms, symmetric])
  note half = half_count_eq [OF assms]
  have "shl (ucast (bucket_for h v) + 1 :: i32) (sub_bucket_half_count_magnitude h)
      = of_nat ((?e + 1) * 2 ^ hm h)"
    using l(1) by (simp add: shl_def b push_bit_eq_mult algebra_simps)
  then have ix: "shl (ucast (bucket_for h v) + 1 :: i32) (sub_bucket_half_count_magnitude h)
      + (sub_bucket_for h v (bucket_for h v) - sub_bucket_half_count h)
      = of_nat (bin_index (um h) (hm h) (unat v))"
    by (simp add: s half bin_index_def algebra_simps)
  have "bin_index (um h) (hm h) (unat v) < (?e + 2) * 2 ^ hm h" by (rule bin_index_bounds)
  also have "\<dots> \<le> 65 * 2 ^ 17"
    using e l(1) by (intro mult_le_mono power_increasing) auto
  finally have "bin_index (um h) (hm h) (unat v) < 2 ^ 31" by simp
  then show ?thesis
    by (simp add: index_for_def Let_def ix nth_i32 to_usize_def usize_max_def)
qed

text \<open>An index below the counts of any histogram fits in a \<open>u32\<close>.\<close>

lemma bins_less_u32:
  assumes "layout_ok h" and "um h + hm h + b \<le> 64"
  shows "(b + 1) * 2 ^ hm h < 2 ^ 31"
proof -
  have "(b + 1) * 2 ^ hm h \<le> 65 * 2 ^ 17"
    using assms layout_okD(1) [OF assms(1)] by (intro mult_le_mono power_increasing) auto
  then show ?thesis by simp
qed

lemma unat_mask_part:
  assumes "layout_ok h" and "i < 2 ^ 32"
  shows "unat ((of_nat i AND (sub_bucket_half_count h - 1)) + sub_bucket_half_count h)
    = i mod 2 ^ hm h + 2 ^ hm h"
proof -
  note l = layout_okD [OF assms(1)]
  have "of_nat i AND (sub_bucket_half_count h - 1) = take_bit (hm h) (of_nat i)"
    by (simp add: take_bit_eq_mask mask_eq_exp_minus_1 half_count_eq assms)
  moreover have "unat (take_bit (hm h) (of_nat i :: u32)) = take_bit (hm h) (unat (of_nat i :: u32))"
    by (rule unsigned_take_bit_eq)
  moreover have "take_bit (hm h) (unat (of_nat i :: u32)) = i mod 2 ^ hm h"
    using assms(2) by (simp add: take_bit_eq_mod unat_of_nat)
  ultimately have u: "unat (of_nat i AND (sub_bucket_half_count h - 1)) = i mod 2 ^ hm h"
    by simp
  have "i mod 2 ^ hm h + 2 ^ hm h < 2 ^ (hm h + 1)" by simp
  also have "\<dots> \<le> 2 ^ 18" using l(1) by (intro power_increasing) auto
  finally show ?thesis using u l(4) by (subst unat_add_nat) auto
qed

lemma value_for_eq:
  assumes ok: "layout_ok h" and i: "i < 2 ^ 32" and v: "bin_value (um h) (hm h) i < 2 ^ 64"
  shows "value_for h i = Ok (of_nat (bin_value (um h) (hm h) i))"
proof -
  note l = layout_okD [OF ok]
  note m = unat_mask_part [OF ok i]
  let ?s = "(of_nat i AND (sub_bucket_half_count h - 1)) + sub_bucket_half_count h"
  have u32: "to_u32 i = Some (of_nat i)" using i by (simp add: to_u32_def)
  have sh: "drop_bit (hm h mod 64) i = i div 2 ^ hm h"
    using l(1) by (simp add: drop_bit_eq_div)
  show ?thesis
  proof (cases "i < 2 ^ hm h")
    case True
    then have "unat (?s - sub_bucket_half_count h) = i"
      using m l(4) by (subst unat_sub_nat) (auto simp: word_le_nat_alt)
    then have "unat (value_from_loc h 0 (?s - sub_bucket_half_count h)) = i * 2 ^ um h"
      using v True l(2) by (subst unat_value_from_loc) (auto simp: bin_value_def)
    then have "value_from_loc h 0 (?s - sub_bucket_half_count h) = of_nat (i * 2 ^ um h)"
      by (metis of_nat_unat ucast_id)
    with True show ?thesis
      by (simp add: value_for_def u32 sh Let_def bin_value_def)
  next
    case False
    let ?e = "i div 2 ^ hm h - 1"
    have pos: "0 < i div 2 ^ hm h" using False by (simp add: div_greater_zero_iff)
    have val: "bin_value (um h) (hm h) i = (i mod 2 ^ hm h + 2 ^ hm h) * 2 ^ (?e + um h)"
      using False by (simp add: bin_value_def)
    have "1 \<le> i mod 2 ^ hm h + 2 ^ hm h" by (simp add: trans_le_add2)
    then have "2 ^ (?e + um h) \<le> bin_value (um h) (hm h) i" by (simp add: val)
    with v have "(2::nat) ^ (?e + um h) < 2 ^ 64" by linarith
    then have e: "?e + um h < 64" by (simp only: power_strict_increasing_iff)
    have "of_int (int (i div 2 ^ hm h) - 1) = (of_nat ?e :: u8)"
      using pos by (metis Suc_diff_1 add_diff_cancel_left' of_int_of_nat_eq of_nat_Suc)
    moreover have "unat (of_nat ?e :: u8) = ?e" using e by (simp add: unat_of_nat)
    ultimately have "unat (value_from_loc h (of_int (int (i div 2 ^ hm h) - 1)) ?s)
        = bin_value (um h) (hm h) i"
      using e v m by (subst unat_value_from_loc) (auto simp: val)
    then have "value_from_loc h (of_int (int (i div 2 ^ hm h) - 1)) ?s
        = of_nat (bin_value (um h) (hm h) i)"
      by (metis of_nat_unat ucast_id)
    with pos show ?thesis
      by (simp add: value_for_def u32 sh Let_def)
  qed
qed

section \<open>The contract on the code's functions\<close>

definition h_index :: "'c histogram \<Rightarrow> nat \<Rightarrow> nat" where
  "h_index h v = (case index_for h (of_nat v) of Some i \<Rightarrow> i | None \<Rightarrow> 0)"

definition h_value :: "'c histogram \<Rightarrow> nat \<Rightarrow> nat" where
  "h_value h i = (case value_for h i :: (unit, u64) res of Ok v \<Rightarrow> unat v | _ \<Rightarrow> 0)"

lemma h_index_eq: "layout_ok h \<Longrightarrow> v < 2 ^ 64 \<Longrightarrow> h_index h v = bin_index (um h) (hm h) v"
  by (simp add: h_index_def index_for_eq unat_of_nat)

lemma index_for_h_index: "layout_ok h \<Longrightarrow> index_for h v = Some (h_index h (unat v))"
  by (simp add: h_index_def index_for_eq)

lemma capacity_le: "bins_ok h \<Longrightarrow> capacity h \<le> 2 ^ 64"
  unfolding capacity_def using bins_okD(3) by (intro power_increasing) auto

lemma bin_value_less_capacity:
  "bins_ok h \<Longrightarrow> bin_value (um h) (hm h) i < capacity h \<longleftrightarrow> i < length (counts h)"
  using bin_value_less_iff [of "bc h" "um h" "hm h" i] bins_okD [of h] by (simp add: capacity_def)

lemma bin_index_less_length:
  "bins_ok h \<Longrightarrow> bin_index (um h) (hm h) v < length (counts h) \<longleftrightarrow> v < capacity h"
  using bin_index_less_iff [of "bc h" "um h" "hm h" v] bins_okD [of h] by (simp add: capacity_def)

lemma length_counts_less: "bins_ok h \<Longrightarrow> length (counts h) < 2 ^ 31"
  using bins_less_u32 [of h "bc h"] bins_okD [of h] by simp

lemma length_counts_pos: "bins_ok h \<Longrightarrow> 0 < length (counts h)"
  by (simp add: bins_okD(4))

lemma value_for_bins:
  assumes "bins_ok h" and "i < length (counts h)"
  shows "value_for h i = Ok (of_nat (bin_value (um h) (hm h) i))"
    and "bin_value (um h) (hm h) i < 2 ^ 64"
    and "h_value h i = bin_value (um h) (hm h) i"
    and "value_for h i = Ok (of_nat (h_value h i))"
proof -
  show lt: "bin_value (um h) (hm h) i < 2 ^ 64"
    using assms bin_value_less_capacity capacity_le [of h] by (metis less_le_trans)
  show eq: "value_for h i = Ok (of_nat (bin_value (um h) (hm h) i))"
    using lt assms(2) length_counts_less [OF assms(1)]
    by (intro value_for_eq bins_okD(1) [OF assms(1)]) auto
  have "value_for h i = (Ok (of_nat (bin_value (um h) (hm h) i)) :: (unit, u64) res)"
    using lt assms(2) length_counts_less [OF assms(1)]
    by (intro value_for_eq bins_okD(1) [OF assms(1)]) auto
  then show h: "h_value h i = bin_value (um h) (hm h) i"
    using lt by (simp add: h_value_def unat_of_nat)
  show "value_for h i = Ok (of_nat (h_value h i))" by (simp add: h eq)
qed

interpretation bins: binning bins_ok "\<lambda>h. length (counts h)" capacity h_index h_value
proof unfold_locales
  fix l :: "'a histogram" and v w i :: nat
  assume ok: "bins_ok l"
  have lt: "v < capacity l \<Longrightarrow> v < 2 ^ 64" for v
    using capacity_le [OF ok] by simp
  note [simp] = h_index_eq [OF bins_okD(1) [OF ok]] value_for_bins(3) [OF ok]
  show "v < capacity l \<Longrightarrow> h_index l v < length (counts l)"
    using lt ok by (simp add: bin_index_less_length)
  show "i < length (counts l) \<Longrightarrow> h_value l i < capacity l"
    using ok by (simp add: bin_value_less_capacity)
  show "i < length (counts l) \<Longrightarrow> h_index l (h_value l i) = i"
    using value_for_bins(2) [OF ok] by (simp add: bin_index_value)
  show "v \<le> w \<Longrightarrow> w < capacity l \<Longrightarrow> h_index l v \<le> h_index l w"
    using lt [of w] by (simp add: bin_index_mono)
  show "v < capacity l \<Longrightarrow> h_value l (h_index l v) \<le> v"
    using lt [of v] ok by (simp add: bin_index_less_length bin_value_index bin_low_le)
qed

lemmas bins_facts = bins.index_less bins.val_less bins.index_val bins.index_mono
  bins.val_index_le bins.val_strict_mono bins.le_index_iff bins.index_less_iff

section \<open>Ends of the ranges\<close>

lemma unat_highest_equivalent [nat_view]:
  assumes "layout_ok h"
  shows "unat (highest_equivalent h v) =
    (if v = - 1 then u64_max
     else min u64_max (bin_low (um h) (hm h) (unat v) + bin_width (um h) (hm h) (unat v)) - 1)"
proof -
  have "1 \<le> next_non_equivalent h v"
    using unat_next_non_equivalent [OF assms, of v]
    by (simp add: word_le_nat_alt u64_max_def Suc_le_eq)
  then have "unat (next_non_equivalent h v - 1) = unat (next_non_equivalent h v) - 1"
    by (simp add: unat_sub_nat)
  then show ?thesis
    by (simp add: highest_equivalent_def unat_next_non_equivalent [OF assms])
qed

lemma lowest_equivalent_le: "layout_ok h \<Longrightarrow> lowest_equivalent h v \<le> v"
  by (simp add: word_le_nat_alt nat_view bin_low_le)

lemma le_highest_equivalent: "layout_ok h \<Longrightarrow> v \<le> highest_equivalent h v"
proof -
  assume ok: "layout_ok h"
  have "v \<noteq> - 1 \<Longrightarrow> unat v < u64_max"
    using unat_le_u64_max [of v] by (simp add: eq_minus_1_iff)
  then show ?thesis
    using less_bin_low_width [of "unat v" "um h" "hm h"] unat_le_u64_max [of v]
    by (auto simp: word_le_nat_alt unat_highest_equivalent [OF ok] min_def eq_minus_1_iff)
qed

text \<open>Below the very last bin of the \<open>u64\<close> range, the ends of a bin are exact.\<close>

lemma highest_equivalent_exact:
  assumes "layout_ok h"
    and "bin_low (um h) (hm h) (unat v) + bin_width (um h) (hm h) (unat v) < 2 ^ 64"
  shows "unat (highest_equivalent h v) =
    bin_low (um h) (hm h) (unat v) + bin_width (um h) (hm h) (unat v) - 1"
proof -
  have "v \<noteq> - 1"
    using assms(2) less_bin_low_width [of "unat v" "um h" "hm h"]
    by (auto simp: eq_minus_1_iff u64_max_def)
  then show ?thesis
    using assms by (simp add: unat_highest_equivalent u64_max_def min.absorb2)
qed

section \<open>Sizing\<close>

lemma unat_double:
  assumes "unat (s :: u64) = 2 ^ k" and "k < 63"
  shows "unat (shl s 1) = 2 ^ Suc k"
proof -
  have "(2::nat) ^ Suc k < 2 ^ 64" using assms(2) by (intro power_strict_increasing) auto
  then show ?thesis using assms by (subst unat_shl_nat) auto
qed

lemma buckets_loop_eq:
  assumes "unat s = 2 ^ k" and "k \<le> 63"
  shows "buckets_loop s v n = Some (n + of_nat (max k (bit_len (unat v)) - k))"
  using assms
proof (induction "63 - k" arbitrary: s k n)
  case 0
  then have k: "k = 63" by simp
  have "s \<le> v \<longleftrightarrow> 63 < bit_len (unat v)"
    using 0 k by (simp add: word_le_nat_alt less_bit_len_iff)
  moreover have "s > 0x7FFFFFFFFFFFFFFF" using 0 k by (simp add: word_less_nat_alt)
  ultimately show ?case
    using le_antisym [OF bit_len_word_le [of v]] k
    by (auto simp: buckets_loop.simps [of s v n] max_def Suc_le_eq)
next
  case (Suc m)
  then have k: "k < 63" by simp
  then have "2 ^ k \<le> (2::nat) ^ 62" by (intro power_increasing) auto
  then have small: "\<not> s > 0x7FFFFFFFFFFFFFFF" using Suc.prems by (simp add: word_less_nat_alt)
  have le: "s \<le> v \<longleftrightarrow> k < bit_len (unat v)"
    using Suc.prems by (simp add: word_le_nat_alt less_bit_len_iff)
  have "buckets_loop (shl s 1) v (n + 1)
      = Some (n + 1 + of_nat (max (Suc k) (bit_len (unat v)) - Suc k))"
    using Suc.hyps(1) [OF _ unat_double [OF Suc.prems(1) k]] Suc.hyps(2) k by simp
  moreover have "k < bit_len (unat v) \<Longrightarrow>
      n + 1 + of_nat (max (Suc k) (bit_len (unat v)) - Suc k)
      = n + of_nat (max k (bit_len (unat v)) - k)"
    by (simp add: max_def Suc_diff_Suc [symmetric])
  ultimately show ?case
    using small le by (auto simp: buckets_loop.simps [of s v n] max_def)
qed

lemma buckets_to_cover_eq:
  assumes "layout_ok h"
  shows "buckets_to_cover h v = Some (of_nat (1 + bin_bucket (um h) (hm h) (unat v)))"
proof -
  note l = layout_okD [OF assms]
  have "(2::nat) ^ (um h + hm h + 1) < 2 ^ 64" using l(2) by (intro power_strict_increasing) auto
  moreover have "unat (ucast (sub_bucket_count h) :: u64) = 2 ^ (hm h + 1)"
    using l(3) unsigned_less [of "sub_bucket_count h", where ?'a = nat]
    by (subst unat_ucast_nat) auto
  ultimately have "unat (shl (ucast (sub_bucket_count h) :: u64) (unit_magnitude h))
      = 2 ^ (um h + hm h + 1)"
    using l(2) by (subst unat_shl_nat) (auto simp: power_add mult_ac)
  from buckets_loop_eq [OF this, of v 1] show ?thesis
    using l(2) by (simp add: buckets_to_cover_def bin_bucket_def max_def)
qed

lemma unat_num_bins:
  assumes "layout_ok h" and "um h + hm h + unat n \<le> 64"
  shows "unat (num_bins h n) = (unat n + 1) * 2 ^ hm h"
proof -
  have "unat (ucast n + 1 :: u32) = unat n + 1"
    using unsigned_less [of n, where ?'a = nat]
    by (subst unat_add_nat) (auto simp: unat_ucast_nat)
  then show ?thesis
    using bins_less_u32 [OF assms] layout_okD(4) [OF assms(1)]
    by (simp add: num_bins_def unat_word_ariths)
qed

section \<open>The fields the index calculation does not read\<close>

lemma layout_ok_update [simp]:
  "layout_ok (h\<lparr>auto_resize := x0\<rparr>) = layout_ok h"
  "layout_ok (h\<lparr>highest_trackable_value := x1\<rparr>) = layout_ok h"
  "layout_ok (h\<lparr>bucket_count := x2\<rparr>) = layout_ok h"
  "layout_ok (h\<lparr>max_value := x3\<rparr>) = layout_ok h"
  "layout_ok (h\<lparr>min_non_zero_value := x4\<rparr>) = layout_ok h"
  "layout_ok (h\<lparr>total_count := x5\<rparr>) = layout_ok h"
  "layout_ok (h\<lparr>counts := x6\<rparr>) = layout_ok h"
  by (simp_all add: layout_ok_def)

lemma bucket_for_update [simp]:
  "bucket_for (h\<lparr>auto_resize := x0\<rparr>) = bucket_for h"
  "bucket_for (h\<lparr>highest_trackable_value := x1\<rparr>) = bucket_for h"
  "bucket_for (h\<lparr>bucket_count := x2\<rparr>) = bucket_for h"
  "bucket_for (h\<lparr>max_value := x3\<rparr>) = bucket_for h"
  "bucket_for (h\<lparr>min_non_zero_value := x4\<rparr>) = bucket_for h"
  "bucket_for (h\<lparr>total_count := x5\<rparr>) = bucket_for h"
  "bucket_for (h\<lparr>counts := x6\<rparr>) = bucket_for h"
  by (simp_all add: bucket_for_def fun_eq_iff)

lemma sub_bucket_for_update [simp]:
  "sub_bucket_for (h\<lparr>auto_resize := x0\<rparr>) = sub_bucket_for h"
  "sub_bucket_for (h\<lparr>highest_trackable_value := x1\<rparr>) = sub_bucket_for h"
  "sub_bucket_for (h\<lparr>bucket_count := x2\<rparr>) = sub_bucket_for h"
  "sub_bucket_for (h\<lparr>max_value := x3\<rparr>) = sub_bucket_for h"
  "sub_bucket_for (h\<lparr>min_non_zero_value := x4\<rparr>) = sub_bucket_for h"
  "sub_bucket_for (h\<lparr>total_count := x5\<rparr>) = sub_bucket_for h"
  "sub_bucket_for (h\<lparr>counts := x6\<rparr>) = sub_bucket_for h"
  by (simp_all add: sub_bucket_for_def fun_eq_iff)

lemma value_from_loc_update [simp]:
  "value_from_loc (h\<lparr>auto_resize := x0\<rparr>) = value_from_loc h"
  "value_from_loc (h\<lparr>highest_trackable_value := x1\<rparr>) = value_from_loc h"
  "value_from_loc (h\<lparr>bucket_count := x2\<rparr>) = value_from_loc h"
  "value_from_loc (h\<lparr>max_value := x3\<rparr>) = value_from_loc h"
  "value_from_loc (h\<lparr>min_non_zero_value := x4\<rparr>) = value_from_loc h"
  "value_from_loc (h\<lparr>total_count := x5\<rparr>) = value_from_loc h"
  "value_from_loc (h\<lparr>counts := x6\<rparr>) = value_from_loc h"
  by (simp_all add: value_from_loc_def fun_eq_iff)

lemma index_for_update [simp]:
  "index_for (h\<lparr>auto_resize := x0\<rparr>) = index_for h"
  "index_for (h\<lparr>highest_trackable_value := x1\<rparr>) = index_for h"
  "index_for (h\<lparr>bucket_count := x2\<rparr>) = index_for h"
  "index_for (h\<lparr>max_value := x3\<rparr>) = index_for h"
  "index_for (h\<lparr>min_non_zero_value := x4\<rparr>) = index_for h"
  "index_for (h\<lparr>total_count := x5\<rparr>) = index_for h"
  "index_for (h\<lparr>counts := x6\<rparr>) = index_for h"
  by (simp_all add: index_for_def fun_eq_iff)

lemma value_for_update [simp]:
  "value_for (h\<lparr>auto_resize := x0\<rparr>) = value_for h"
  "value_for (h\<lparr>highest_trackable_value := x1\<rparr>) = value_for h"
  "value_for (h\<lparr>bucket_count := x2\<rparr>) = value_for h"
  "value_for (h\<lparr>max_value := x3\<rparr>) = value_for h"
  "value_for (h\<lparr>min_non_zero_value := x4\<rparr>) = value_for h"
  "value_for (h\<lparr>total_count := x5\<rparr>) = value_for h"
  "value_for (h\<lparr>counts := x6\<rparr>) = value_for h"
  by (simp_all add: value_for_def fun_eq_iff Let_def cong: if_cong)

lemma h_index_update [simp]:
  "h_index (h\<lparr>auto_resize := x0\<rparr>) = h_index h"
  "h_index (h\<lparr>highest_trackable_value := x1\<rparr>) = h_index h"
  "h_index (h\<lparr>bucket_count := x2\<rparr>) = h_index h"
  "h_index (h\<lparr>max_value := x3\<rparr>) = h_index h"
  "h_index (h\<lparr>min_non_zero_value := x4\<rparr>) = h_index h"
  "h_index (h\<lparr>total_count := x5\<rparr>) = h_index h"
  "h_index (h\<lparr>counts := x6\<rparr>) = h_index h"
  by (simp_all add: h_index_def fun_eq_iff)

lemma h_value_update [simp]:
  "h_value (h\<lparr>auto_resize := x0\<rparr>) = h_value h"
  "h_value (h\<lparr>highest_trackable_value := x1\<rparr>) = h_value h"
  "h_value (h\<lparr>bucket_count := x2\<rparr>) = h_value h"
  "h_value (h\<lparr>max_value := x3\<rparr>) = h_value h"
  "h_value (h\<lparr>min_non_zero_value := x4\<rparr>) = h_value h"
  "h_value (h\<lparr>total_count := x5\<rparr>) = h_value h"
  "h_value (h\<lparr>counts := x6\<rparr>) = h_value h"
  by (simp_all add: h_value_def fun_eq_iff)

lemma lowest_equivalent_update [simp]:
  "lowest_equivalent (h\<lparr>auto_resize := x0\<rparr>) = lowest_equivalent h"
  "lowest_equivalent (h\<lparr>highest_trackable_value := x1\<rparr>) = lowest_equivalent h"
  "lowest_equivalent (h\<lparr>bucket_count := x2\<rparr>) = lowest_equivalent h"
  "lowest_equivalent (h\<lparr>max_value := x3\<rparr>) = lowest_equivalent h"
  "lowest_equivalent (h\<lparr>min_non_zero_value := x4\<rparr>) = lowest_equivalent h"
  "lowest_equivalent (h\<lparr>total_count := x5\<rparr>) = lowest_equivalent h"
  "lowest_equivalent (h\<lparr>counts := x6\<rparr>) = lowest_equivalent h"
  by (simp_all add: lowest_equivalent_def fun_eq_iff)

lemma equivalent_range_update [simp]:
  "equivalent_range (h\<lparr>auto_resize := x0\<rparr>) = equivalent_range h"
  "equivalent_range (h\<lparr>highest_trackable_value := x1\<rparr>) = equivalent_range h"
  "equivalent_range (h\<lparr>bucket_count := x2\<rparr>) = equivalent_range h"
  "equivalent_range (h\<lparr>max_value := x3\<rparr>) = equivalent_range h"
  "equivalent_range (h\<lparr>min_non_zero_value := x4\<rparr>) = equivalent_range h"
  "equivalent_range (h\<lparr>total_count := x5\<rparr>) = equivalent_range h"
  "equivalent_range (h\<lparr>counts := x6\<rparr>) = equivalent_range h"
  by (simp_all add: equivalent_range_def fun_eq_iff)

lemma next_non_equivalent_update [simp]:
  "next_non_equivalent (h\<lparr>auto_resize := x0\<rparr>) = next_non_equivalent h"
  "next_non_equivalent (h\<lparr>highest_trackable_value := x1\<rparr>) = next_non_equivalent h"
  "next_non_equivalent (h\<lparr>bucket_count := x2\<rparr>) = next_non_equivalent h"
  "next_non_equivalent (h\<lparr>max_value := x3\<rparr>) = next_non_equivalent h"
  "next_non_equivalent (h\<lparr>min_non_zero_value := x4\<rparr>) = next_non_equivalent h"
  "next_non_equivalent (h\<lparr>total_count := x5\<rparr>) = next_non_equivalent h"
  "next_non_equivalent (h\<lparr>counts := x6\<rparr>) = next_non_equivalent h"
  by (simp_all add: next_non_equivalent_def fun_eq_iff)

lemma highest_equivalent_update [simp]:
  "highest_equivalent (h\<lparr>auto_resize := x0\<rparr>) = highest_equivalent h"
  "highest_equivalent (h\<lparr>highest_trackable_value := x1\<rparr>) = highest_equivalent h"
  "highest_equivalent (h\<lparr>bucket_count := x2\<rparr>) = highest_equivalent h"
  "highest_equivalent (h\<lparr>max_value := x3\<rparr>) = highest_equivalent h"
  "highest_equivalent (h\<lparr>min_non_zero_value := x4\<rparr>) = highest_equivalent h"
  "highest_equivalent (h\<lparr>total_count := x5\<rparr>) = highest_equivalent h"
  "highest_equivalent (h\<lparr>counts := x6\<rparr>) = highest_equivalent h"
  by (simp_all add: highest_equivalent_def fun_eq_iff cong: if_cong)

end
