(* ===== verification/Float64.thy ===== *)
theory Float64
  imports Complex_Main Prelude
begin

text \<open>
  The \<open>f64\<close> arithmetic the code uses, executable and with IEEE 754 rounding: to nearest, ties
  to even, 53 bits of precision. A \<open>u64\<close> cast to \<open>f64\<close> is a natural number, so the first
  section works on naturals.
\<close>

section \<open>Rounding a quotient of naturals\<close>

definition rne :: "nat \<Rightarrow> nat \<Rightarrow> nat" where
  "rne a b =
     (let q = a div b; r = a mod b
      in if 2 * r < b then q else if b < 2 * r then q + 1 else if even q then q else q + 1)"

lemma rne_bounds:
  assumes "0 < b"
  shows "2 * a \<le> 2 * rne a b * b + b" and "2 * rne a b * b \<le> 2 * a + b"
proof -
  have d: "a = a div b * b + a mod b" by (simp only: div_mult_mod_eq)
  define q r where "q = a div b" and "r = a mod b"
  have a: "a = q * b + r" and "r < b" using d assms by (simp_all add: q_def r_def)
  have c: "rne a b = (if 2 * r < b then q else if b < 2 * r then q + 1 else if even q then q else q + 1)"
    by (simp add: rne_def q_def r_def Let_def)
  have "2 * r < b \<and> rne a b = q \<or> b \<le> 2 * r \<and> rne a b = q + 1 \<or> 2 * r = b \<and> rne a b = q"
    using c by (cases "2 * r < b"; cases "b < 2 * r"; cases "even q") simp_all
  then show "2 * a \<le> 2 * rne a b * b + b" and "2 * rne a b * b \<le> 2 * a + b"
    using \<open>r < b\<close> by (auto simp: a algebra_simps)
qed

lemma rne_exact [simp]: "0 < b \<Longrightarrow> rne (q * b) b = q"
  by (simp add: rne_def)

lemma rne_mono:
  assumes "a \<le> a'"
  shows "rne a b \<le> rne a' b"
proof (cases "a div b = a' div b")
  case True
  have "a mod b \<le> a' mod b"
    using assms True by (metis add_le_cancel_left div_mult_mod_eq)
  with True show ?thesis by (auto simp: rne_def Let_def)
next
  case False
  then have "a div b + 1 \<le> a' div b" using div_le_mono [OF assms, of b] by simp
  moreover have "rne a b \<le> a div b + 1" and "a' div b \<le> rne a' b"
    by (simp_all add: rne_def Let_def)
  ultimately show ?thesis by linarith
qed

section \<open>Natural numbers as doubles\<close>

text \<open>\<open>n as f64\<close> for an unsigned integer: the nearest number of at most 53 significant bits.\<close>

definition nat_as_f64 :: "nat \<Rightarrow> nat" where
  "nat_as_f64 n = (let k = bit_len n - 53 in rne n (2 ^ k) * 2 ^ k)"

lemma nat_as_f64_exact: "n \<le> 2 ^ 53 \<Longrightarrow> nat_as_f64 n = n"
proof (cases "n = 2 ^ 53")
  case True
  then have "bit_len n = 54" by (simp add: bit_len.simps)
  then show ?thesis by (simp add: nat_as_f64_def True rne_def)
next
  case False
  assume "n \<le> 2 ^ 53"
  with False have "bit_len n \<le> 53" by (simp add: bit_len_le_iff)
  then show ?thesis using rne_exact [of 1 n] by (simp add: nat_as_f64_def)
qed

lemma nat_as_f64_le: "n \<le> 2 ^ k \<Longrightarrow> nat_as_f64 n \<le> 2 ^ k"
proof (cases "k \<le> 53")
  case True
  assume "n \<le> 2 ^ k"
  moreover from True have "(2::nat) ^ k \<le> 2 ^ 53" by (intro power_increasing) auto
  ultimately show ?thesis by (simp add: nat_as_f64_exact)
next
  case False
  assume n: "n \<le> 2 ^ k"
  let ?j = "bit_len n - 53"
  have "bit_len n \<le> Suc k"
    unfolding bit_len_le_iff using n by (simp add: le_less_trans)
  then have "2 ^ k = 2 ^ (k - ?j) * (2::nat) ^ ?j"
    using False by (simp flip: power_add)
  then have "rne n (2 ^ ?j) \<le> 2 ^ (k - ?j)"
    using rne_mono [OF n, of "2 ^ ?j"] by simp
  then have "rne n (2 ^ ?j) * 2 ^ ?j \<le> 2 ^ (k - ?j) * 2 ^ ?j" by simp
  with \<open>2 ^ k = _\<close> show ?thesis by (simp add: nat_as_f64_def Let_def)
qed

lemma nat_as_f64_ge: "2 ^ k \<le> n \<Longrightarrow> k \<le> bit_len n - 1 \<Longrightarrow> 2 ^ k \<le> nat_as_f64 n"
proof (cases "n \<le> 2 ^ 53")
  case False
  assume n: "2 ^ k \<le> n" "k \<le> bit_len n - 1"
  let ?l = "bit_len n - 1" and ?j = "bit_len n - 53"
  have "0 < n" using False by simp
  then have le: "2 ^ ?l \<le> n"
    using bit_len_eq_iff [of n ?l] bit_len_pos [of n] by simp
  have "?j \<le> ?l" by simp
  then have "2 ^ ?l = 2 ^ (?l - ?j) * (2::nat) ^ ?j" by (simp flip: power_add)
  then have "2 ^ (?l - ?j) \<le> rne n (2 ^ ?j)"
    using rne_mono [OF le, of "2 ^ ?j"] by simp
  then have "2 ^ (?l - ?j) * 2 ^ ?j \<le> rne n (2 ^ ?j) * 2 ^ ?j" by simp
  moreover have "(2::nat) ^ k \<le> 2 ^ ?l" using n(2) by (intro power_increasing) auto
  ultimately have "2 ^ k \<le> rne n (2 ^ ?j) * 2 ^ ?j" using \<open>2 ^ ?l = _\<close> by linarith
  then show ?thesis by (simp only: nat_as_f64_def Let_def)
qed (simp add: nat_as_f64_exact)

lemma nat_as_f64_pos: "0 < n \<Longrightarrow> 0 < nat_as_f64 n"
  using nat_as_f64_ge [of 0 n] by simp

text \<open>
  \<open>(x as f64).log2()\<close> rounded down. The logarithm is itself rounded to 53 bits, so a number just
  below \<open>2 ^ (k + 1)\<close> has the logarithm \<open>k + 1\<close>: the distance that still rounds up is
  \<open>log2_slack k\<close> units of \<open>2 ^ (k + 1 - 53)\<close>. An \<open>x\<close> within it is
  \<open>2 ^ (k + 1) * (1 - j / 2 ^ 53)\<close> with \<open>j \<le> log2_slack k\<close>; the logarithm differs from
  \<open>k + 1\<close> by \<open>j / (ln 2 * 2 ^ 53)\<close>, which is at most half a unit in the last place below
  \<open>k + 1\<close>, \<open>2 ^ (bit_len k - 54)\<close>, for \<open>j \<le> ln 2 * 2 ^ (bit_len k - 1)\<close>.
\<close>

definition log2_slack :: "nat \<Rightarrow> nat" where
  "log2_slack k = [0, 0, 1, 2, 5, 11, 22, 44] ! bit_len k"

definition f64_log2_floor :: "nat \<Rightarrow> nat" where
  "f64_log2_floor x =
     (let k = bit_len x - 1
      in if (2 ^ (k + 1) - x) * 2 ^ 53 \<le> log2_slack k * 2 ^ (k + 1) then k + 1 else k)"

text \<open>
  \<open>f64::from(x).log2()\<close> rounded up, for an \<open>x: u32\<close>. A 32-bit number is exact as a double,
  and its distance to a power of two is too large for the logarithm to round to an integer.
\<close>

definition f64_log2_ceil_u32 :: "u32 \<Rightarrow> nat" where
  "f64_log2_ceil_u32 x = bit_len (unat x - 1)"

lemma log2_slack_le: "k < 64 \<Longrightarrow> log2_slack k \<le> 22"
proof -
  assume "k < 64"
  then have "bit_len k \<le> 6" by (simp add: bit_len_le_iff)
  then have "bit_len k = 0 \<or> bit_len k = 1 \<or> bit_len k = 2 \<or> bit_len k = 3 \<or> bit_len k = 4
    \<or> bit_len k = 5 \<or> bit_len k = 6" by linarith
  then show ?thesis by (auto simp: log2_slack_def)
qed

lemma f64_log2_floor_le: "0 < x \<Longrightarrow> x < 2 ^ k \<Longrightarrow> f64_log2_floor x \<le> k"
  using bit_len_le_iff [of x k] bit_len_pos [of x] by (auto simp: f64_log2_floor_def Let_def)

text \<open>Below \<open>2 ^ 48\<close> the rounding of the logarithm makes no difference.\<close>

lemma f64_log2_floor_exact:
  assumes "0 < x" and "x < 2 ^ 48"
  shows "2 ^ f64_log2_floor x \<le> x" and "x < 2 ^ (f64_log2_floor x + 1)"
proof -
  let ?k = "bit_len x - 1"
  have k: "2 ^ ?k \<le> x" "x < 2 ^ (?k + 1)"
    using bit_len_eq_iff [OF assms(1), of ?k] bit_len_pos [OF assms(1)] by simp_all
  have "bit_len x \<le> 48" using assms(2) by (simp add: bit_len_le_iff)
  then have "log2_slack ?k * 2 ^ (?k + 1) \<le> 22 * 2 ^ 48"
    using bit_len_pos [OF assms(1)]
    by (intro mult_le_mono log2_slack_le power_increasing) auto
  also have "\<dots> < 1 * 2 ^ 53" by simp
  also have "\<dots> \<le> (2 ^ (?k + 1) - x) * 2 ^ 53"
    using k(2) by (intro mult_le_mono1) linarith
  finally have "\<not> (2 ^ (?k + 1) - x) * 2 ^ 53 \<le> log2_slack ?k * 2 ^ (?k + 1)" by simp
  then have "f64_log2_floor x = ?k" by (simp add: f64_log2_floor_def Let_def)
  then show "2 ^ f64_log2_floor x \<le> x" and "x < 2 ^ (f64_log2_floor x + 1)"
    using k by simp_all
qed


lemma f64_log2_floor_cast_le: "0 < n \<Longrightarrow> n < 2 ^ 63 \<Longrightarrow> f64_log2_floor (nat_as_f64 n) \<le> 63"
proof (cases "nat_as_f64 n = 2 ^ 63")
  case True
  then show ?thesis by (simp add: f64_log2_floor_def bit_len.simps log2_slack_def)
next
  case False
  assume "0 < n" and "n < 2 ^ 63"
  with False have "nat_as_f64 n < 2 ^ 63"
    using nat_as_f64_le [of n 63] by linarith
  then show ?thesis using \<open>0 < n\<close> by (simp add: f64_log2_floor_le nat_as_f64_pos)
qed

end
