(* ===== verification/Double.thy ===== *)
theory Double
  imports Float64
begin

text \<open>
  Double precision arithmetic as rationals: a finite \<open>f64\<close> is the rational it stands for, and an
  operation rounds the exact result to 53 significant bits, to nearest, ties to even, with the
  smallest quantum \<open>2 ^ -1074\<close> and overflow to infinity at \<open>2 ^ 1024\<close>. The two zeros are one
  (nothing in the code tells them apart). The rounding is monotone and exact on the natural
  numbers up to \<open>2 ^ 53\<close>, which is all that the queries rely on.
\<close>

datatype f64 = Fin rat | PosInf | NegInf | NaN

section \<open>Rounding\<close>

definition rne_rat :: "rat \<Rightarrow> int" where
  "rne_rat x =
     (let f = \<lfloor>x\<rfloor>; r = x - of_int f
      in if r < 1 / 2 then f else if 1 / 2 < r then f + 1 else if even f then f else f + 1)"

definition flog2 :: "rat \<Rightarrow> int" where
  "flog2 x =
     (let (n, d) = quotient_of x; e = int (bit_len (nat n)) - int (bit_len (nat d))
      in if 2 powi e \<le> x then e else e - 1)"

definition quantum :: "rat \<Rightarrow> rat" where
  "quantum x = 2 powi max (flog2 x - 52) (- 1074)"

definition f64_round :: "rat \<Rightarrow> f64" where
  "f64_round x =
     (if x = 0 then Fin 0
      else let q = quantum \<bar>x\<bar>; y = of_int (rne_rat (x / q)) * q
           in if y \<ge> 2 ^ 1024 then PosInf else if y \<le> - (2 ^ 1024) then NegInf else Fin y)"

lemma rne_rat_of_int [simp]: "rne_rat (of_int n) = n"
  by (simp add: rne_rat_def)

lemma rne_rat_bounds: "\<lfloor>x\<rfloor> \<le> rne_rat x" "rne_rat x \<le> \<lfloor>x\<rfloor> + 1"
  by (simp_all add: rne_rat_def Let_def)

lemma rne_rat_mono:
  assumes "x \<le> y"
  shows "rne_rat x \<le> rne_rat y"
proof (cases "\<lfloor>x\<rfloor> = \<lfloor>y\<rfloor>")
  case True
  then show ?thesis using assms by (auto simp: rne_rat_def Let_def)
next
  case False
  then have "\<lfloor>x\<rfloor> + 1 \<le> \<lfloor>y\<rfloor>" using floor_mono [OF assms] by linarith
  then show ?thesis using rne_rat_bounds(2) [of x] rne_rat_bounds(1) [of y] by linarith
qed

lemma rne_rat_nonneg: "0 \<le> x \<Longrightarrow> 0 \<le> rne_rat x"
  using rne_rat_bounds(1) [of x] by (simp add: order_trans [of 0 "\<lfloor>x\<rfloor>"])

section \<open>The binary exponent\<close>

lemma bit_len_nat_bounds:
  assumes "0 < n"
  shows "(2::rat) powi (int (bit_len n) - 1) \<le> of_nat n" and "(of_nat n :: rat) < 2 powi int (bit_len n)"
proof -
  obtain k where k: "bit_len n = Suc k" using bit_len_pos [OF assms] by blast
  then have "2 ^ k \<le> n" and "n < 2 ^ Suc k" using bit_len_eq_iff [OF assms] by auto
  then have "(2::rat) ^ k \<le> of_nat n" and "(of_nat n :: rat) < 2 ^ Suc k"
    by (metis of_nat_le_iff of_nat_numeral of_nat_power, metis of_nat_less_iff of_nat_numeral of_nat_power)
  then show "(2::rat) powi (int (bit_len n) - 1) \<le> of_nat n" and "(of_nat n :: rat) < 2 powi int (bit_len n)"
    by (simp_all add: k power_int_def nat_add_distrib)
qed

lemma flog2_bounds:
  assumes "0 < x"
  shows "2 powi flog2 x \<le> x" and "x < 2 powi (flog2 x + 1)"
proof -
  obtain n d where q: "quotient_of x = (n, d)" by (cases "quotient_of x")
  then have d: "0 < d" using quotient_of_denom_pos by blast
  have x: "x = of_int n / of_int d" using q by (rule quotient_of_div)
  then have n: "0 < n" using assms d by (simp add: zero_less_divide_iff)
  let ?a = "int (bit_len (nat n))" and ?b = "int (bit_len (nat d))"
  have rn: "(of_nat (nat n) :: rat) = of_int n" "(of_nat (nat d) :: rat) = of_int d"
    using n d by simp_all
  have bn: "2 powi (?a - 1) \<le> (of_int n :: rat)" "(of_int n :: rat) < 2 powi ?a"
    using bit_len_nat_bounds [of "nat n"] n rn by simp_all
  have bd: "2 powi (?b - 1) \<le> (of_int d :: rat)" "(of_int d :: rat) < 2 powi ?b"
    using bit_len_nat_bounds [of "nat d"] d rn by simp_all
  have "2 powi (?a - 1) / 2 powi ?b < x"
  proof -
    have "2 powi (?a - 1) / 2 powi ?b \<le> (of_int n :: rat) / 2 powi ?b"
      using bn(1) by (intro divide_right_mono) simp_all
    also have "\<dots> < of_int n / of_int d"
      using bd(2) n d by (intro divide_strict_left_mono) simp_all
    finally show ?thesis by (simp add: x)
  qed
  moreover have "2 powi (?a - 1) / 2 powi ?b = (2::rat) powi (?a - ?b - 1)"
    by (subst power_int_diff [symmetric]) (simp_all add: algebra_simps)
  ultimately have low: "2 powi (?a - ?b - 1) < x" by simp
  have "x < 2 powi ?a / 2 powi (?b - 1)"
  proof -
    have "x < 2 powi ?a / of_int d"
      unfolding x using bn(2) d by (intro divide_strict_right_mono) simp_all
    also have "\<dots> \<le> 2 powi ?a / 2 powi (?b - 1)"
      using bd(1) d by (intro divide_left_mono) simp_all
    finally show ?thesis .
  qed
  moreover have "2 powi ?a / 2 powi (?b - 1) = (2::rat) powi (?a - ?b + 1)"
    by (subst power_int_diff [symmetric]) (simp_all add: algebra_simps)
  ultimately have up: "x < 2 powi (?a - ?b + 1)" by simp
  have f: "flog2 x = (if 2 powi (?a - ?b) \<le> x then ?a - ?b else ?a - ?b - 1)"
    by (simp add: flog2_def q Let_def)
  show "2 powi flog2 x \<le> x" and "x < 2 powi (flog2 x + 1)"
    unfolding f using low up by (auto simp: algebra_simps)
qed

lemma powi_less_imp_less: "(2::rat) powi i < 2 powi j \<Longrightarrow> i < j"
  by (metis linorder_not_le one_le_numeral power_int_increasing)

lemma flog2_eqI: "0 < x \<Longrightarrow> 2 powi e \<le> x \<Longrightarrow> x < 2 powi (e + 1) \<Longrightarrow> flog2 x = e"
  using powi_less_imp_less [of e "flog2 x + 1"] powi_less_imp_less [of "flog2 x" "e + 1"]
    flog2_bounds [of x] by fastforce

lemma flog2_mono: "0 < x \<Longrightarrow> x \<le> y \<Longrightarrow> flog2 x \<le> flog2 y"
  using powi_less_imp_less [of "flog2 x" "flog2 y + 1"] flog2_bounds [of x] flog2_bounds [of y]
  by fastforce

section \<open>Monotone and exact\<close>

definition round_val :: "rat \<Rightarrow> rat" where
  "round_val x = of_int (rne_rat (x / quantum x)) * quantum x"

lemma quantum_pos [simp]: "0 < quantum x"
  by (simp add: quantum_def)

lemma f64_round_pos: "0 < x \<Longrightarrow> f64_round x = (if round_val x \<ge> 2 ^ 1024 then PosInf else Fin (round_val x))"
proof -
  assume "0 < x"
  then have "0 \<le> rne_rat (x / quantum x)" by (intro rne_rat_nonneg) (simp add: less_imp_le)
  then have "0 \<le> round_val x" by (simp add: round_val_def less_imp_le)
  moreover have "\<not> r \<le> - (2 ^ 1024)" if "0 \<le> r" for r :: rat
    using that by (meson le_less_trans neg_less_0_iff_less not_le zero_less_numeral zero_less_power)
  ultimately show ?thesis
    using \<open>0 < x\<close> by (simp add: f64_round_def round_val_def [symmetric] Let_def)
qed

lemma round_val_multiple:
  "x = of_int n * quantum x \<Longrightarrow> round_val x = x"
  unfolding round_val_def using quantum_pos [of x]
  by (metis nonzero_mult_div_cancel_right order_less_irrefl rne_rat_of_int)

lemma quantum_nat:
  assumes "0 < n" and "n \<le> 2 ^ 53"
  shows "\<exists>m. (of_nat n :: rat) = of_int m * quantum (of_nat n)"
proof (cases "n = 2 ^ 53")
  case True
  have "flog2 (of_nat n) = 53" by (rule flog2_eqI) (simp_all add: True power_int_def)
  then show ?thesis by (intro exI [of _ "2 ^ 52"]) (simp add: quantum_def True)
next
  case False
  then have "n < 2 ^ 53" using assms(2) by simp
  let ?x = "of_nat n :: rat" and ?k = "max (flog2 (of_nat n) - 52) (- 1074)"
  have "2 powi flog2 ?x \<le> ?x" using flog2_bounds(1) [of ?x] assms(1) by simp
  also have "?x < 2 powi 53" using \<open>n < 2 ^ 53\<close>
    by (metis of_nat_less_iff of_nat_numeral of_nat_power power_int_numeral)
  finally have "flog2 ?x < 53" by (rule powi_less_imp_less)
  then have "?k \<le> 0" by simp
  then have "(2::rat) powi (- ?k) = 2 ^ nat (- ?k)" by (simp add: power_int_def)
  moreover have "?x = ?x * 2 powi (- ?k) * 2 powi ?k" by (simp add: power_int_minus)
  ultimately have "?x = of_int (int n * 2 ^ nat (- ?k)) * quantum ?x" by (simp add: quantum_def)
  then show ?thesis by blast
qed

lemma f64_round_nat: "n \<le> 2 ^ 53 \<Longrightarrow> f64_round (of_nat n) = Fin (of_nat n)"
proof (cases "n = 0")
  case False
  assume n: "n \<le> 2 ^ 53"
  then have "round_val (of_nat n) = of_nat n"
    using quantum_nat [of n] False by (auto intro: round_val_multiple)
  moreover have "(of_nat n :: rat) \<le> 2 ^ 53"
    using n by (metis of_nat_le_iff of_nat_numeral of_nat_power)
  then have "\<not> 2 ^ 1024 \<le> (of_nat n :: rat)"
    using power_strict_increasing [of 53 1024 "2::rat"] by linarith
  ultimately show ?thesis using False by (simp add: f64_round_pos)
qed (simp add: f64_round_def)

lemma round_val_ge:
  assumes "2 powi e \<le> y" and "0 < y" and "- 1022 \<le> e" and "e = flog2 y"
  shows "2 powi e \<le> round_val y"
proof -
  have "max (flog2 y - 52) (- 1074) = e - 52" using assms(3,4) by linarith
  then have q: "quantum y = 2 powi (e - 52)" by (simp only: quantum_def)
  have "(2::rat) powi e = 2 ^ 52 * 2 powi (e - 52)" by (simp add: power_int_diff)
  then have "2 ^ 52 \<le> y / quantum y" using assms(1) by (simp add: q field_simps)
  then have "rne_rat (of_int (2 ^ 52)) \<le> rne_rat (y / quantum y)" by (intro rne_rat_mono) simp
  then have "(2 ^ 52 :: rat) \<le> of_int (rne_rat (y / quantum y))"
    by (metis of_int_le_iff of_int_numeral of_int_power rne_rat_of_int)
  then have "2 ^ 52 * quantum y \<le> round_val y"
    unfolding round_val_def by (intro mult_right_mono) (simp_all add: less_imp_le)
  then show ?thesis using \<open>2 powi e = 2 ^ 52 * 2 powi (e - 52)\<close> q by simp
qed

lemma round_val_le:
  assumes "x \<le> 2 powi e" and "0 < x" and "max (flog2 x - 52) (- 1074) \<le> e"
  shows "round_val x \<le> 2 powi e"
proof -
  let ?k = "max (flog2 x - 52) (- 1074)"
  have k: "(2::rat) powi e = 2 ^ nat (e - ?k) * 2 powi ?k"
  proof -
    have "(2::rat) powi e = 2 powi ((e - ?k) + ?k)" by simp
    also have "\<dots> = 2 powi (e - ?k) * 2 powi ?k" by (rule power_int_add) simp
    finally show ?thesis using assms(3) by (simp add: power_int_def)
  qed
  have "x / quantum x \<le> 2 ^ nat (e - ?k)"
    using assms(1) k by (simp add: quantum_def divide_le_eq)
  then have "rne_rat (x / quantum x) \<le> rne_rat (of_int (2 ^ nat (e - ?k)))"
    by (intro rne_rat_mono) simp
  then have "of_int (rne_rat (x / quantum x)) \<le> (2 ^ nat (e - ?k) :: rat)"
    by (metis of_int_le_iff of_int_numeral of_int_power rne_rat_of_int)
  then have "round_val x \<le> 2 ^ nat (e - ?k) * quantum x"
    unfolding round_val_def by (intro mult_right_mono) (simp_all add: less_imp_le)
  then show ?thesis using k by (simp add: quantum_def)
qed

lemma round_val_mono:
  assumes "0 < x" and "x \<le> y"
  shows "round_val x \<le> round_val y"
proof (cases "quantum x = quantum y")
  case True
  have "x / quantum y \<le> y / quantum y" using assms(2) by (intro divide_right_mono) (simp_all add: less_imp_le)
  then show ?thesis
    unfolding round_val_def True by (intro mult_right_mono) (simp_all add: rne_rat_mono less_imp_le)
next
  case False
  have "flog2 x \<le> flog2 y" by (rule flog2_mono [OF assms])
  moreover have "flog2 x \<noteq> flog2 y" using False by (auto simp only: quantum_def)
  ultimately have less: "flog2 x < flog2 y" by simp
  have "max (flog2 x - 52) (- 1074) \<noteq> max (flog2 y - 52) (- 1074)" using False by (auto simp only: quantum_def)
  with less have big: "- 1074 < flog2 y - 52" by linarith
  have y: "0 < y" using assms by simp
  have "x < 2 powi (flog2 x + 1)" by (rule flog2_bounds(2) [OF assms(1)])
  also have "\<dots> \<le> 2 powi flog2 y" using less by (intro power_int_increasing) simp_all
  finally have "round_val x \<le> 2 powi flog2 y"
    using less big assms(1) by (intro round_val_le) simp_all
  also have "\<dots> \<le> round_val y"
    using flog2_bounds(1) [OF y] y big by (intro round_val_ge) simp_all
  finally show ?thesis .
qed

section \<open>Operations\<close>

fun f64_lt :: "f64 \<Rightarrow> f64 \<Rightarrow> bool" where
  "f64_lt NaN _ = False"
| "f64_lt _ NaN = False"
| "f64_lt (Fin x) (Fin y) \<longleftrightarrow> x < y"
| "f64_lt PosInf _ = False"
| "f64_lt _ NegInf = False"
| "f64_lt _ PosInf = True"
| "f64_lt NegInf _ = True"

fun f64_eq :: "f64 \<Rightarrow> f64 \<Rightarrow> bool" where
  "f64_eq NaN _ = False"
| "f64_eq _ NaN = False"
| "f64_eq x y \<longleftrightarrow> x = y"

definition f64_sign :: "rat \<Rightarrow> f64" where
  "f64_sign x = (if x = 0 then NaN else if 0 < x then PosInf else NegInf)"

fun f64_neg :: "f64 \<Rightarrow> f64" where
  "f64_neg (Fin x) = Fin (- x)"
| "f64_neg PosInf = NegInf"
| "f64_neg NegInf = PosInf"
| "f64_neg NaN = NaN"

fun f64_add :: "f64 \<Rightarrow> f64 \<Rightarrow> f64" where
  "f64_add (Fin x) (Fin y) = f64_round (x + y)"
| "f64_add NaN _ = NaN"
| "f64_add _ NaN = NaN"
| "f64_add PosInf NegInf = NaN"
| "f64_add NegInf PosInf = NaN"
| "f64_add PosInf _ = PosInf"
| "f64_add _ PosInf = PosInf"
| "f64_add NegInf _ = NegInf"
| "f64_add _ NegInf = NegInf"

definition f64_sub :: "f64 \<Rightarrow> f64 \<Rightarrow> f64" where
  "f64_sub x y = f64_add x (f64_neg y)"

fun f64_mul :: "f64 \<Rightarrow> f64 \<Rightarrow> f64" where
  "f64_mul (Fin x) (Fin y) = f64_round (x * y)"
| "f64_mul NaN _ = NaN"
| "f64_mul _ NaN = NaN"
| "f64_mul (Fin x) PosInf = f64_sign x"
| "f64_mul PosInf (Fin x) = f64_sign x"
| "f64_mul (Fin x) NegInf = f64_neg (f64_sign x)"
| "f64_mul NegInf (Fin x) = f64_neg (f64_sign x)"
| "f64_mul PosInf PosInf = PosInf"
| "f64_mul NegInf NegInf = PosInf"
| "f64_mul _ _ = NegInf"

text \<open>Division by zero: the sign of the zero is that of \<open>+0.0\<close>, the only zero the code divides by.\<close>

fun f64_div :: "f64 \<Rightarrow> f64 \<Rightarrow> f64" where
  "f64_div (Fin x) (Fin y) = (if y = 0 then f64_sign x else f64_round (x / y))"
| "f64_div NaN _ = NaN"
| "f64_div _ NaN = NaN"
| "f64_div (Fin x) _ = Fin 0"
| "f64_div PosInf (Fin y) = (if y < 0 then NegInf else PosInf)"
| "f64_div NegInf (Fin y) = (if y < 0 then PosInf else NegInf)"
| "f64_div _ _ = NaN"

fun f64_ceil :: "f64 \<Rightarrow> f64" where
  "f64_ceil (Fin x) = Fin (of_int \<lceil>x\<rceil>)"
| "f64_ceil x = x"

text \<open>The casts: \<open>u64 as f64\<close> rounds, \<open>f64 as u64\<close> truncates and saturates.\<close>

definition u64_as_f64 :: "u64 \<Rightarrow> f64" where
  "u64_as_f64 w = Fin (of_nat (nat_as_f64 (unat w)))"

fun f64_as_u64 :: "f64 \<Rightarrow> u64" where
  "f64_as_u64 (Fin x) =
     (if x < 1 then 0 else if of_nat u64_max \<le> x then - 1 else of_nat (nat \<lfloor>x\<rfloor>))"
| "f64_as_u64 PosInf = - 1"
| "f64_as_u64 NegInf = 0"
| "f64_as_u64 NaN = 0"

lemma u64_as_f64_exact: "unat w \<le> 2 ^ 53 \<Longrightarrow> u64_as_f64 w = Fin (of_nat (unat w))"
  by (simp add: u64_as_f64_def nat_as_f64_exact)

lemma unat_f64_as_u64_Fin:
  "0 \<le> x \<Longrightarrow> unat (f64_as_u64 (Fin x)) = (if of_nat u64_max \<le> x then u64_max else nat \<lfloor>x\<rfloor>)"
proof -
  assume x: "0 \<le> x"
  have "nat \<lfloor>x\<rfloor> < 2 ^ 64" if "x < of_nat u64_max"
    using that x by (simp add: u64_max_def nat_less_iff floor_less_iff)
  then have "x < of_nat u64_max \<Longrightarrow> unat (of_nat (nat \<lfloor>x\<rfloor>) :: u64) = nat \<lfloor>x\<rfloor>"
    by (intro unat_of_nat_less) simp
  moreover have "x < 1 \<Longrightarrow> nat \<lfloor>x\<rfloor> = 0" using x by simp
  moreover have "x < 1 \<Longrightarrow> x < of_nat u64_max" by (simp add: u64_max_def)
  ultimately show ?thesis by auto
qed

end
