(* ===== verification/Counter.thy ===== *)
theory Counter
  imports Double
begin

text \<open>
  The counter types of a histogram (\<open>core/counter.rs\<close>). A counter is a word; the trait is implemented
  for \<open>u8\<close>, \<open>u16\<close>, \<open>u32\<close> and \<open>u64\<close>, and what it asks of \<open>num_traits\<close> (checked and saturating
  arithmetic) is in \<open>Prelude\<close>. Its own two methods convert: into \<open>u64\<close>, and into a double, which
  rounds.
\<close>

definition as_u64 :: "'c::len word \<Rightarrow> u64" where
  "as_u64 self = ucast self"

definition as_f64 :: "'c::len word \<Rightarrow> f64" where
  "as_f64 self = Fin (of_nat (nat_as_f64 (unat self)))"

lemma as_u64_ucast [simp]: "as_u64 c = ucast c"
  by (simp add: as_u64_def)

text \<open>No implementation loses a count on the way to \<open>u64\<close>; all but that of \<open>u64\<close> are exact as doubles.\<close>

lemma unat_as_u64: "LENGTH('c) \<le> 64 \<Longrightarrow> unat (as_u64 (c :: 'c::len word)) = unat c"
proof -
  assume "LENGTH('c) \<le> 64"
  then have "(2::nat) ^ LENGTH('c) \<le> 2 ^ 64" by (intro power_increasing) auto
  moreover have "unat c < 2 ^ LENGTH('c)" by simp
  ultimately have "unat c < 2 ^ 64" by linarith
  then show ?thesis by (simp add: unat_ucast_nat)
qed

lemma as_f64_exact: "LENGTH('c) \<le> 53 \<Longrightarrow> as_f64 (c :: 'c::len word) = Fin (of_nat (unat c))"
proof -
  assume "LENGTH('c) \<le> 53"
  then have "(2::nat) ^ LENGTH('c) \<le> 2 ^ 53" by (intro power_increasing) auto
  moreover have "unat c < 2 ^ LENGTH('c)" by simp
  ultimately have "unat c \<le> 2 ^ 53" by linarith
  then show ?thesis by (simp add: as_f64_def nat_as_f64_exact)
qed

lemma as_f64_u64: "as_f64 (c :: u64) = u64_as_f64 c"
  by (simp add: as_f64_def u64_as_f64_def)

end
