(* ===== verification/Construction.thy ===== *)
theory Construction
  imports Layout Counter
begin

unbundle bit_operations_syntax

text \<open>
  Building a histogram (\<open>lib.rs\<close>, \<open>errors/mod.rs\<close>): \<open>resize\<close>, the constructors, \<open>new_from\<close>,
  \<open>new_from_snapshot\<close>, the tracking of the extreme values and \<open>restat\<close>. The invariant \<open>wf\<close> that
  every operation of the library keeps is defined here and proved for what is constructed.
\<close>

section \<open>Errors\<close>

datatype creation_error =
    LowIsZero
  | LowExceedsMax
  | HighLessThanTwiceLow
  | SigFigExceedsMax
  | CannotRepresentSigFigBeyondLow
  | CreationUsizeTypeTooSmall

datatype addition_error = OtherAddendValueExceedsRange | AddResizeFailedUsizeTypeTooSmall

datatype subtraction_error =
  SubtrahendValueExceedsMinuendRange | SubtrahendCountExceedsMinuendCount

datatype record_error = ValueOutOfRangeResizeDisabled | ResizeFailedUsizeTypeTooSmall

datatype usize_type_too_small = UsizeTypeTooSmall

section \<open>Tracking the extreme values\<close>

definition update_max :: "'c histogram \<Rightarrow> u64 \<Rightarrow> 'c histogram" where
  "update_max h value =
     (let internal_value = value OR unit_magnitude_mask h
      in if internal_value > max_value h then h\<lparr>max_value := internal_value\<rparr> else h)"

definition update_min :: "'c histogram \<Rightarrow> u64 \<Rightarrow> 'c histogram" where
  "update_min h value =
     (if value \<le> unit_magnitude_mask h then h
      else let internal_value = value AND NOT (unit_magnitude_mask h)
           in if internal_value < min_non_zero_value h
              then h\<lparr>min_non_zero_value := internal_value\<rparr> else h)"

definition update_min_max :: "'c histogram \<Rightarrow> u64 \<Rightarrow> 'c histogram" where
  "update_min_max h value =
     (let h1 = (if value > max_value h then update_max h value else h)
      in if value < min_non_zero_value h1 \<and> value \<noteq> 0 then update_min h1 value else h1)"

definition reset_max :: "'c histogram \<Rightarrow> u64 \<Rightarrow> 'c histogram" where
  "reset_max h mx = h\<lparr>max_value := mx OR unit_magnitude_mask h\<rparr>"

definition reset_min :: "'c histogram \<Rightarrow> u64 \<Rightarrow> 'c histogram" where
  "reset_min h mn =
     h\<lparr>min_non_zero_value :=
         (if mn = - 1 then mn else mn AND NOT (unit_magnitude_mask h))\<rparr>"

section \<open>Recalculating the statistics\<close>

record restat_state =
  max_index :: "nat option"
  min_index :: "nat option"
  rs_total_count :: u64

definition restat_new :: restat_state where
  "restat_new = \<lparr>max_index = None, min_index = None, rs_total_count = 0\<rparr>"

definition on_nonzero_count :: "nat \<Rightarrow> 'c::len word \<Rightarrow> restat_state \<Rightarrow> restat_state" where
  "on_nonzero_count index count s =
     (let s1 = s\<lparr>rs_total_count := saturating_add (rs_total_count s) (as_u64 count),
                 max_index := Some index\<rparr>
      in if min_index s1 = None \<and> index \<noteq> 0 then s1\<lparr>min_index := Some index\<rparr> else s1)"

definition update_histogram :: "restat_state \<Rightarrow> 'c histogram \<Rightarrow> ('e, 'c histogram) res" where
  "update_histogram s h =
     bind_res (case max_index s of
                 None \<Rightarrow> Ok h
               | Some max_i \<Rightarrow>
                   bind_res (value_for h max_i) (\<lambda>v. Ok (update_max h (highest_equivalent h v))))
       (\<lambda>h1. bind_res (case min_index s of
                 None \<Rightarrow> Ok h1
               | Some min_i \<Rightarrow> bind_res (value_for h1 min_i) (\<lambda>v. Ok (update_min h1 v)))
       (\<lambda>h2. Ok (h2\<lparr>total_count := rs_total_count s\<rparr>)))"

fun scan_counts :: "nat \<Rightarrow> 'c::len word list \<Rightarrow> restat_state \<Rightarrow> restat_state" where
  "scan_counts i [] s = s"
| "scan_counts i (c # cs) s =
     scan_counts (Suc i) cs (if c \<noteq> 0 then on_nonzero_count i c s else s)"

definition restat :: "'c::len word histogram \<Rightarrow> nat \<Rightarrow> ('e, 'c word histogram) res" where
  "restat h length_to_scan =
     (let h1 = reset_min (reset_max h ORIGINAL_MAX) ORIGINAL_MIN
      in bind_res (assert_that (length_to_scan \<le> length (counts h1))) (\<lambda>_.
           update_histogram (scan_counts 0 (take length_to_scan (counts h1)) restat_new) h1))"

section \<open>Construction\<close>

definition resize ::
  "'c::len word histogram \<Rightarrow> u64 \<Rightarrow> (usize_type_too_small \<times> 'c word histogram, 'c word histogram) res"
  where
  "resize h hi =
     bind_res (assert_that (hi \<ge> 2 * lowest_discernible_value h)) (\<lambda>_.
     bind_res (expect (buckets_to_cover h hi)) (\<lambda>buckets_needed.
       case to_usize (uint (num_bins h buckets_needed)) of
         None \<Rightarrow> Err (UsizeTypeTooSmall, h)
       | Some n \<Rightarrow>
           Ok (h\<lparr>bucket_count := buckets_needed,
                 highest_trackable_value := hi,
                 counts := vec_resize (counts h) n 0\<rparr>)))"

definition new_with_bounds :: "u64 \<Rightarrow> u64 \<Rightarrow> u8 \<Rightarrow> (creation_error, 'c::len word histogram) res" where
  "new_with_bounds lo hi sf =
     (if lo < 1 then Err LowIsZero
      else if lo > (- 1) div 2 then Err LowExceedsMax
      else if hi < 2 * lo then Err HighLessThanTwiceLow
      else if sf > 5 then Err SigFigExceedsMax
      else
        let largest = 2 * 10 ^ unat sf :: u32;
            unit_magnitude = of_nat (f64_log2_floor (nat_as_f64 (unat lo))) :: u8;
            unit_magnitude_mask = shl 1 unit_magnitude - 1 :: u64;
            sub_bucket_count_magnitude = of_nat (f64_log2_ceil_u32 largest) :: u8;
            sub_bucket_half_count_magnitude = sub_bucket_count_magnitude - 1;
            sub_bucket_count = shl 1 sub_bucket_count_magnitude :: u32
        in if unit_magnitude + sub_bucket_count_magnitude > 63
           then Err CannotRepresentSigFigBeyondLow
           else
             let sub_bucket_half_count = shr sub_bucket_count 1;
                 sub_bucket_mask = shl (ucast sub_bucket_count - 1) unit_magnitude :: u64;
                 h = \<lparr>auto_resize = False,
                      highest_trackable_value = hi,
                      lowest_discernible_value = lo,
                      significant_value_digits = sf,
                      bucket_count = 0,
                      sub_bucket_count = sub_bucket_count,
                      sub_bucket_half_count = sub_bucket_half_count,
                      sub_bucket_half_count_magnitude = sub_bucket_half_count_magnitude,
                      sub_bucket_mask = sub_bucket_mask,
                      leading_zero_count_base = 64 - unit_magnitude - sub_bucket_count_magnitude,
                      unit_magnitude = unit_magnitude,
                      unit_magnitude_mask = unit_magnitude_mask,
                      max_value = ORIGINAL_MAX,
                      min_non_zero_value = ORIGINAL_MIN,
                      total_count = 0,
                      counts = []\<rparr>
             in map_err (\<lambda>_. CreationUsizeTypeTooSmall) (resize h hi))"

definition new :: "u8 \<Rightarrow> (creation_error, 'c::len word histogram) res" where
  "new sf =
     bind_res (new_with_bounds 1 2 sf) (\<lambda>h. Ok (h\<lparr>auto_resize := True\<rparr>))"

definition new_with_max :: "u64 \<Rightarrow> u8 \<Rightarrow> (creation_error, 'c::len word histogram) res" where
  "new_with_max hi sf = new_with_bounds 1 hi sf"

definition new_from :: "'f histogram \<Rightarrow> ('e, 'c::len word histogram) res" where
  "new_from source =
     bind_res (unwrap_res (new_with_bounds (lowest_discernible_value source)
                 (highest_trackable_value source) (significant_value_digits source)))
       (\<lambda>h. Ok (h\<lparr>auto_resize := auto_resize source,
                  counts := vec_resize (counts h) (distinct_values source) 0\<rparr>))"

record 'c histogram_snapshot =
  lowest_trackable_value :: u64
  snapshot_highest_trackable_value :: u64
  significant_figures :: u8
  snapshot_counts :: "'c list"

definition new_from_snapshot ::
  "'c::len word histogram_snapshot \<Rightarrow> (creation_error, 'c word histogram) res" where
  "new_from_snapshot source =
     bind_res (new_with_bounds (lowest_trackable_value source)
                 (snapshot_highest_trackable_value source) (significant_figures source))
       (\<lambda>h. let h1 = h\<lparr>counts := take 0 (counts h) @ snapshot_counts source\<rparr>
            in restat h1 (length (counts h1)))"


section \<open>What the constructors compute\<close>

text \<open>The two exponents of a configuration, and the histogram built from it, field by field.\<close>

definition config_um :: "u64 \<Rightarrow> nat" where
  "config_um lo = f64_log2_floor (nat_as_f64 (unat lo))"

definition config_mag :: "u8 \<Rightarrow> nat" where
  "config_mag sf = bit_len (2 * 10 ^ unat sf - 1)"

definition fresh :: "u64 \<Rightarrow> u64 \<Rightarrow> u8 \<Rightarrow> 'c::len word histogram" where
  "fresh lo hi sf =
     (let u = config_um lo; m = config_mag sf; b = 1 + bin_bucket u (m - 1) (unat hi)
      in \<lparr>auto_resize = False,
          highest_trackable_value = hi,
          lowest_discernible_value = lo,
          significant_value_digits = sf,
          bucket_count = of_nat b,
          sub_bucket_count = of_nat (2 ^ m),
          sub_bucket_half_count = of_nat (2 ^ (m - 1)),
          sub_bucket_half_count_magnitude = of_nat (m - 1),
          sub_bucket_mask = of_nat ((2 ^ m - 1) * 2 ^ u),
          leading_zero_count_base = of_nat (64 - (u + m)),
          unit_magnitude = of_nat u,
          unit_magnitude_mask = of_nat (2 ^ u - 1),
          max_value = 0,
          min_non_zero_value = - 1,
          total_count = 0,
          counts = replicate ((b + 1) * 2 ^ (m - 1)) 0\<rparr>)"

lemma config_um_le: "1 \<le> lo \<Longrightarrow> lo \<le> (- 1) div 2 \<Longrightarrow> config_um lo \<le> 63"
  by (auto simp: config_um_def word_le_nat_alt unat_div u64_max_def intro!: f64_log2_floor_cast_le)

lemma config_mag_bounds:
  assumes "sf \<le> 5"
  shows "1 \<le> config_mag sf" and "config_mag sf \<le> 18" and "2 * 10 ^ unat sf \<le> (2::nat) ^ config_mag sf"
    and "f64_log2_ceil_u32 (2 * 10 ^ unat sf) = config_mag sf"
proof -
  have "unat sf \<le> 5" using assms by (simp add: word_le_nat_alt)
  then have d: "unat sf = 0 \<or> unat sf = 1 \<or> unat sf = 2 \<or> unat sf = 3 \<or> unat sf = 4 \<or> unat sf = 5"
    by linarith
  show "1 \<le> config_mag sf" and "config_mag sf \<le> 18" and "2 * 10 ^ unat sf \<le> (2::nat) ^ config_mag sf"
    and "f64_log2_ceil_u32 (2 * 10 ^ unat sf) = config_mag sf"
    using d by (elim disjE; simp add: config_mag_def f64_log2_ceil_u32_def bit_len.simps)+
qed

lemma resize_eq:
  assumes "layout_ok h" and "2 * unat (lowest_discernible_value h) \<le> unat hi"
  shows "resize h hi = Ok (h\<lparr>
      bucket_count := of_nat (1 + bin_bucket (um h) (hm h) (unat hi)),
      highest_trackable_value := hi,
      counts := vec_resize (counts h)
        ((2 + bin_bucket (um h) (hm h) (unat hi)) * 2 ^ hm h) 0\<rparr>)"
proof -
  let ?e = "bin_bucket (um h) (hm h) (unat hi)"
  have "2 * lowest_discernible_value h \<le> hi"
    using assms(2) unsigned_less [of hi, where ?'a = nat]
    by (simp add: word_le_nat_alt unat_word_ariths)
  moreover have "?e + um h + hm h + 1 \<le> 64"
    using bit_len_word_le [of hi] layout_okD(2) [OF assms(1)] by (simp add: bin_bucket_def)
  moreover from this have "unat (of_nat (1 + ?e) :: u8) = 1 + ?e" by (intro unat_of_nat_less) simp
  ultimately have "unat (num_bins h (of_nat (1 + ?e))) = (2 + ?e) * 2 ^ hm h"
    using unat_num_bins [OF assms(1), of "of_nat (1 + ?e)"] by simp
  with \<open>2 * lowest_discernible_value h \<le> hi\<close> show ?thesis
    by (simp add: resize_def buckets_to_cover_eq [OF assms(1)])
qed

lemma fresh_layout:
  assumes "config_um lo + config_mag sf \<le> 63" and "sf \<le> 5"
  shows "layout_ok (fresh lo hi sf :: 'c::len word histogram)"
    and "um (fresh lo hi sf :: 'c word histogram) = config_um lo"
    and "hm (fresh lo hi sf :: 'c word histogram) + 1 = config_mag sf"
proof -
  note m = config_mag_bounds [OF assms(2)]
  let ?u = "config_um lo" and ?m = "config_mag sf"
  have "(2::nat) ^ ?m < 2 ^ 32" and "(2::nat) ^ (?m - 1) < 2 ^ 32" and u: "(2::nat) ^ ?u < 2 ^ 64"
    and "(2::nat) ^ ?u * 2 ^ ?m < 2 ^ 64"
    using m assms(1) two_power_less [of ?m 32] two_power_less [of "?m - 1" 32]
      two_power_less [of ?u 64] two_power_less [of "?u + ?m" 64] by (simp_all add: power_add)
  moreover from this have "(2 ^ ?m - 1) * 2 ^ ?u < (2::nat) ^ 64"
    by (auto simp: algebra_simps intro: le_less_trans [rotated])
  moreover have "2 ^ ?u - 1 < (2::nat) ^ 64" using u by linarith
  ultimately show "layout_ok (fresh lo hi sf :: 'c word histogram)"
    and "um (fresh lo hi sf :: 'c word histogram) = config_um lo"
    and "hm (fresh lo hi sf :: 'c word histogram) + 1 = config_mag sf"
    using m assms(1)
    by (simp_all add: layout_ok_def fresh_def Let_def unat_of_nat_less del: of_nat_power of_nat_mult of_nat_diff of_nat_Suc)
qed
text \<open>The words \<open>new_with_bounds\<close> computes, as numbers; then the array is made by \<open>resize\<close>.\<close>

lemma config_words:
  assumes "sf \<le> 5" and "config_um lo + config_mag sf \<le> 63"
  defines "u \<equiv> config_um lo" and "m \<equiv> config_mag sf"
  shows "shl 1 (of_nat m) = (of_nat (2 ^ m) :: u32)"
    and "shr (of_nat (2 ^ m)) 1 = (of_nat (2 ^ (m - 1)) :: u32)"
    and "of_nat m - 1 = (of_nat (m - 1) :: u8)"
    and "shl 1 (of_nat u) - 1 = (of_nat (2 ^ u - 1) :: u64)"
    and "shl (ucast (of_nat (2 ^ m) :: u32) - 1) (of_nat u) = (of_nat ((2 ^ m - 1) * 2 ^ u) :: u64)"
    and "64 - of_nat u - of_nat m = (of_nat (64 - (u + m)) :: u8)"
proof -
  note m = config_mag_bounds [OF assms(1), folded m_def] and le = assms(2) [folded u_def m_def]
  have m32: "(2::nat) ^ m < 2 ^ 32" using m(2) by (intro two_power_less) simp
  show "shl 1 (of_nat m) = (of_nat (2 ^ m) :: u32)" using m by (subst shl_of_nat) auto
  show "shr (of_nat (2 ^ m)) 1 = (of_nat (2 ^ (m - 1)) :: u32)"
  proof (rule eq_of_nat_unat)
    have "(2::nat) ^ m = 2 * 2 ^ (m - 1)" using m(1) by (simp flip: power_Suc)
    then show "unat (shr (of_nat (2 ^ m) :: u32) 1) = 2 ^ (m - 1)"
      using m32 by (subst unat_shr_nat) (simp_all add: unat_of_nat_less del: of_nat_power of_nat_mult)
  qed
  show "of_nat m - 1 = (of_nat (m - 1) :: u8)" using m by simp
  show "shl 1 (of_nat u) - 1 = (of_nat (2 ^ u - 1) :: u64)" using le by (subst shl_of_nat) auto
  have "ucast (of_nat (2 ^ m) :: u32) = (of_nat (2 ^ m) :: u64)"
    using m32 by (subst of_nat_unat [symmetric], subst unat_of_nat_less) simp_all
  then show "shl (ucast (of_nat (2 ^ m) :: u32) - 1) (of_nat u) = (of_nat ((2 ^ m - 1) * 2 ^ u) :: u64)"
    using le by (subst shl_of_nat) auto
  show "64 - of_nat u - of_nat m = (of_nat (64 - (u + m)) :: u8)" using le by simp
qed

lemma resize_fresh:
  fixes lo hi :: u64
  assumes "sf \<le> 5" and "config_um lo + config_mag sf \<le> 63" and "lo \<le> (- 1) div 2" and "2 * lo \<le> hi"
  shows "resize (fresh lo hi sf \<lparr>bucket_count := 0, counts := []\<rparr>) hi = Ok (fresh lo hi sf :: 'c::len word histogram)"
proof -
  let ?h = "fresh lo hi sf \<lparr>bucket_count := 0, counts := []\<rparr> :: 'c word histogram"
  have l: "layout_ok ?h" "um ?h = config_um lo" "hm ?h = config_mag sf - 1"
    using fresh_layout [OF assms(2,1), of hi, where ?'c = 'c] config_mag_bounds(1) [OF assms(1)] by auto
  have "unat (2 * lo) = 2 * unat lo"
    using assms(3) by (simp add: word_le_nat_alt unat_div u64_max_def unat_word_ariths)
  then have "2 * unat (lowest_discernible_value ?h) \<le> unat hi"
    using assms(4) by (simp add: word_le_nat_alt fresh_def Let_def)
  from resize_eq [OF l(1) this] show ?thesis
    unfolding l(2,3) by (simp add: fresh_def Let_def vec_resize_def)
qed

lemma new_with_bounds_eq:
  "new_with_bounds lo hi sf =
     (if lo < 1 then Err LowIsZero
      else if lo > (- 1) div 2 then Err LowExceedsMax
      else if hi < 2 * lo then Err HighLessThanTwiceLow
      else if sf > 5 then Err SigFigExceedsMax
      else if config_um lo + config_mag sf > 63 then Err CannotRepresentSigFigBeyondLow
      else Ok (fresh lo hi sf))"
proof (cases "lo < 1 \<or> lo > (- 1) div 2 \<or> hi < 2 * lo \<or> sf > 5")
  case True
  then show ?thesis by (auto simp: new_with_bounds_def)
next
  case False
  let ?u = "config_um lo" and ?m = "config_mag sf"
  have sf: "sf \<le> 5" and lo: "1 \<le> lo" "lo \<le> (- 1) div 2" "2 * lo \<le> hi"
    using False by (auto simp: word_one_le_iff not_less)
  note m = config_mag_bounds [OF sf]
  have u: "?u \<le> 63" using lo by (intro config_um_le)
  have sum: "of_nat ?u + of_nat ?m > (63 :: u8) \<longleftrightarrow> ?u + ?m > 63"
    using u m by (simp add: word_less_nat_alt unat_word_ariths unat_of_nat)
  show ?thesis
  proof (cases "?u + ?m > 63")
    case True
    then show ?thesis
      using False sum m by (simp add: new_with_bounds_def Let_def config_um_def)
  next
    case le: False
    then have le': "?u + ?m \<le> 63" by simp
    have "new_with_bounds lo hi sf = map_err (\<lambda>_. CreationUsizeTypeTooSmall)
        (resize (fresh lo hi sf \<lparr>bucket_count := 0, counts := []\<rparr> :: 'a word histogram) hi)"
      using False sum m le unfolding new_with_bounds_def Let_def config_um_def [symmetric] m(4)
        config_words [OF sf le']
      by (simp add: fresh_def Let_def ORIGINAL_MAX_def ORIGINAL_MIN_def)
    then show ?thesis using False sum le by (simp add: resize_fresh [OF sf le' lo(2,3)])
  qed
qed

end
