(* ===== verification/Invariant.thy ===== *)
theory Invariant
  imports Construction
begin

unbundle bit_operations_syntax

text \<open>
  The invariant \<open>wf\<close> of a histogram: the layout follows from the configuration, the counts
  array covers the highest trackable value, and no recorded value lies outside the tracked
  extremes. It is proved here for the constructors, for \<open>resize\<close> and for the updates of the
  extreme values; the theories that record, combine and iterate keep it.
\<close>

section \<open>The invariant\<close>

text \<open>The configuration fields agree with the layout they gave rise to.\<close>

definition config_ok :: "'c histogram \<Rightarrow> bool" where
  "config_ok h \<longleftrightarrow>
     1 \<le> lowest_discernible_value h \<and> lowest_discernible_value h \<le> (- 1) div 2 \<and>
     2 * unat (lowest_discernible_value h) \<le> unat (highest_trackable_value h) \<and>
     significant_value_digits h \<le> 5 \<and>
     um h = config_um (lowest_discernible_value h) \<and>
     hm h + 1 = config_mag (significant_value_digits h)"

text \<open>No recorded value lies outside the tracked extremes.\<close>

definition extremes_ok :: "'c::zero histogram \<Rightarrow> bool" where
  "extremes_ok h \<longleftrightarrow>
     (\<forall>i < length (counts h). counts h ! i \<noteq> 0 \<longrightarrow>
        i \<le> h_index h (unat (max_value h)) \<and>
        (0 < i \<longrightarrow> h_index h (unat (min_non_zero_value h)) \<le> i))"

definition sized_ok :: "'c histogram \<Rightarrow> bool" where
  "sized_ok h \<longleftrightarrow>
     layout_ok h \<and> config_ok h \<and>
     bc h = 1 + bin_bucket (um h) (hm h) (unat (highest_trackable_value h)) \<and>
     length (counts h) = (bc h + 1) * 2 ^ hm h"

definition wf :: "'c::zero histogram \<Rightarrow> bool" where
  "wf h \<longleftrightarrow> sized_ok h \<and> unat (max_value h) < capacity h \<and>
     0 < h_index h (unat (min_non_zero_value h)) \<and> extremes_ok h"

lemma sized_ok_bins_ok: "sized_ok h \<Longrightarrow> bins_ok h"
  using bit_len_word_le [of "highest_trackable_value h"] layout_okD(2) [of h]
  by (auto simp: sized_ok_def bins_ok_def bin_bucket_def)

lemma sized_okD:
  assumes "sized_ok h"
  shows "layout_ok h" and "config_ok h" and "bins_ok h"
    and "bc h = 1 + bin_bucket (um h) (hm h) (unat (highest_trackable_value h))"
    and "length (counts h) = (bc h + 1) * 2 ^ hm h"
  using assms sized_ok_bins_ok by (auto simp: sized_ok_def)

lemma wfD:
  assumes "wf h"
  shows "sized_ok h" and "layout_ok h" and "bins_ok h" and "config_ok h"
    and "unat (max_value h) < capacity h" and "extremes_ok h"
    and "0 < h_index h (unat (min_non_zero_value h))"
  using assms sized_okD by (auto simp: wf_def)

lemma highest_less_capacity:
  "sized_ok h \<Longrightarrow> unat (highest_trackable_value h) < capacity h"
  using bin_bucket_less_iff [of "bc h" "um h" "hm h" "unat (highest_trackable_value h)"]
  by (simp add: sized_ok_def capacity_def)

lemma config_ok_update [simp]:
  "config_ok (h\<lparr>auto_resize := x0\<rparr>) = config_ok h"
  "config_ok (h\<lparr>bucket_count := x2\<rparr>) = config_ok h"
  "config_ok (h\<lparr>max_value := x3\<rparr>) = config_ok h"
  "config_ok (h\<lparr>min_non_zero_value := x4\<rparr>) = config_ok h"
  "config_ok (h\<lparr>total_count := x5\<rparr>) = config_ok h"
  "config_ok (h\<lparr>counts := x6\<rparr>) = config_ok h"
  by (simp_all add: config_ok_def)

lemma sized_ok_update [simp]:
  "sized_ok (h\<lparr>auto_resize := x0\<rparr>) = sized_ok h"
  "sized_ok (h\<lparr>max_value := x3\<rparr>) = sized_ok h"
  "sized_ok (h\<lparr>min_non_zero_value := x4\<rparr>) = sized_ok h"
  "sized_ok (h\<lparr>total_count := x5\<rparr>) = sized_ok h"
  "length cs = length (counts h) \<Longrightarrow> sized_ok (h\<lparr>counts := cs\<rparr>) = sized_ok h"
  by (simp_all add: sized_ok_def)

lemma capacity_update [simp]:
  "capacity (h\<lparr>auto_resize := x0\<rparr>) = capacity h"
  "capacity (h\<lparr>highest_trackable_value := x1\<rparr>) = capacity h"
  "capacity (h\<lparr>max_value := x3\<rparr>) = capacity h"
  "capacity (h\<lparr>min_non_zero_value := x4\<rparr>) = capacity h"
  "capacity (h\<lparr>total_count := x5\<rparr>) = capacity h"
  "capacity (h\<lparr>counts := x6\<rparr>) = capacity h"
  by (simp_all add: capacity_def)

lemma h_index_minus_1_pos: "layout_ok h \<Longrightarrow> 0 < h_index h (unat (- 1 :: u64))"
proof -
  assume ok: "layout_ok h"
  have "bin_bucket (um h) (hm h) u64_max = 63 - (um h + hm h)"
    by (simp add: bin_bucket_def u64_max_def bit_len.simps)
  moreover have "1 \<le> 63 - (um h + hm h)" using layout_okD(2) [OF ok] by simp
  ultimately have "0 < bin_bucket (um h) (hm h) u64_max" by linarith
  then have "0 < bin_index (um h) (hm h) u64_max" by (simp add: bin_index_def)
  moreover have "u64_max < 2 ^ 64" by (simp add: u64_max_def)
  ultimately show ?thesis using ok by (simp add: h_index_eq)
qed

lemma wf_fresh:
  assumes "1 \<le> lo" and "lo \<le> (- 1) div 2" and "2 * lo \<le> hi" and "sf \<le> 5"
    and "config_um lo + config_mag sf \<le> 63"
  shows "wf (fresh lo hi sf :: 'c::len word histogram)"
proof -
  let ?h = "fresh lo hi sf :: 'c word histogram"
  note l = fresh_layout [OF assms(5,4), of hi, where ?'c = 'c]
  have lo2: "unat (2 * lo) = 2 * unat lo"
    using assms(2) by (simp add: word_le_nat_alt unat_div u64_max_def unat_word_ariths)
  let ?b = "1 + bin_bucket (config_um lo) (config_mag sf - 1) (unat hi)"
  have b: "?b \<le> 64" using bit_len_word_le [of hi] by (simp add: bin_bucket_def)
  then have bc: "bc ?h = ?b"
    by (simp add: fresh_def Let_def unat_of_nat_less del: of_nat_Suc)
  have hm: "hm ?h = config_mag sf - 1" using l(3) by simp
  have f: "lowest_discernible_value ?h = lo" "highest_trackable_value ?h = hi"
    "significant_value_digits ?h = sf" "max_value ?h = 0"
    "counts ?h = replicate ((?b + 1) * 2 ^ (config_mag sf - 1)) 0"
    by (simp_all add: fresh_def Let_def)
  have "config_ok ?h"
    using assms l lo2 by (simp add: config_ok_def f word_le_nat_alt)
  then have "sized_ok ?h" using l(1,2) bc hm by (simp add: sized_ok_def f)
  moreover have "min_non_zero_value ?h = - 1" by (simp add: fresh_def Let_def)
  ultimately show ?thesis using h_index_minus_1_pos [OF l(1)] by (simp add: wf_def f capacity_def extremes_ok_def)
qed

theorem new_with_bounds_wf: "new_with_bounds lo hi sf = Ok h \<Longrightarrow> wf h"
  by (auto simp: new_with_bounds_eq word_one_le_iff not_less intro!: wf_fresh split: if_splits)

section \<open>Resizing\<close>

lemma resize_grow:
  assumes "sized_ok h" and "unat (highest_trackable_value h) \<le> unat hi"
  defines "h' \<equiv> h\<lparr>
      bucket_count := of_nat (1 + bin_bucket (um h) (hm h) (unat hi)),
      highest_trackable_value := hi,
      counts := vec_resize (counts h)
        ((2 + bin_bucket (um h) (hm h) (unat hi)) * 2 ^ hm h) 0\<rparr>"
  shows "resize h hi = Ok h'" and "sized_ok h'" and "unat hi < capacity h'"
    and "length (counts h) \<le> length (counts h')"
    and "capacity h \<le> capacity h'"
proof -
  note s = sized_okD [OF assms(1)]
  let ?e = "bin_bucket (um h) (hm h) (unat hi)"
  show "resize h hi = Ok h'"
    unfolding h'_def using s(1,2) assms(2) by (intro resize_eq) (auto simp: config_ok_def)
  have "?e + 1 < 256" using bit_len_word_le [of hi] by (simp add: bin_bucket_def)
  then have b: "unat (of_nat (1 + ?e) :: u8) = 1 + ?e" by (intro unat_of_nat_less) simp
  have "config_ok h'" using s(2) assms(2) by (simp add: h'_def config_ok_def)
  then show ok: "sized_ok h'"
    using s(1) b by (simp add: h'_def sized_ok_def)
  then show "unat hi < capacity h'"
    using highest_less_capacity [OF ok] by (simp add: h'_def)
  have e: "bc h \<le> 1 + ?e"
    using s(4) bin_bucket_mono [OF assms(2), of "um h" "hm h"] by simp
  then show "length (counts h) \<le> length (counts h')"
    using s(5) mult_le_mono1 [of "bc h + 1" "2 + ?e" "2 ^ hm h"] by (simp add: h'_def)
  show "capacity h \<le> capacity h'"
  proof -
    have "capacity h' = 2 ^ (um h + hm h + (1 + ?e))" using b by (simp add: h'_def capacity_def)
    then show ?thesis
      using power_increasing [of "um h + hm h + bc h" "um h + hm h + (1 + ?e)" "2::nat"] e
      by (simp only: capacity_def)
  qed
qed

section \<open>Extreme values\<close>

text \<open>Setting or clearing the low unit bits stays in the bin of a value.\<close>

lemma or_mask_eq: "n OR (2 ^ k - 1) = n div 2 ^ k * 2 ^ k + (2 ^ k - 1 :: nat)"
proof -
  have "n OR mask k = push_bit k (drop_bit k n) OR mask k"
    by (rule bit_eqI) (auto simp: bit_simps)
  also have "\<dots> = push_bit k (drop_bit k n) + mask k"
    by (rule disjunctive_add_eq_or [symmetric]) (auto simp: bit_eq_iff bit_simps)
  finally show ?thesis by (simp add: push_bit_eq_mult drop_bit_eq_div mask_eq_exp_minus_1)
qed

lemma and_not_mask_eq: "x AND NOT (mask k) = push_bit k (drop_bit k (x :: 'a::len word))"
  by (rule bit_word_eqI) (auto simp: bit_simps)

lemma unit_multiple_bounds:
  assumes "l = a * 2 ^ (e + u)" and "w = (2::nat) ^ (e + u)" and "l \<le> v" and "v < l + w"
  shows "l \<le> v div 2 ^ u * 2 ^ u" and "v div 2 ^ u * 2 ^ u + (2 ^ u - 1) < l + w"
proof -
  have l: "l = a * 2 ^ e * 2 ^ u" and w: "w = 2 ^ e * 2 ^ u" using assms by (simp_all add: power_add)
  have "a * 2 ^ e \<le> v div 2 ^ u"
    using assms(3) unfolding l by (simp add: less_eq_div_iff_mult_less_eq)
  then show "l \<le> v div 2 ^ u * 2 ^ u" unfolding l by simp
  have "l + w = (a * 2 ^ e + 2 ^ e) * 2 ^ u" by (simp add: l w algebra_simps)
  then have "v div 2 ^ u < a * 2 ^ e + 2 ^ e"
    using assms(4) by (simp add: less_mult_imp_div_less)
  then have "(v div 2 ^ u + 1) * 2 ^ u \<le> l + w"
    unfolding \<open>l + w = _\<close> by (intro mult_le_mono1) simp
  then show "v div 2 ^ u * 2 ^ u + (2 ^ u - 1) < l + w"
    using zero_less_power [of "2::nat" u] unfolding add_mult_distrib by linarith
qed

lemma bin_index_unit:
  shows "bin_index u k (v div 2 ^ u * 2 ^ u) = bin_index u k v"
    and "bin_index u k (v div 2 ^ u * 2 ^ u + (2 ^ u - 1)) = bin_index u k v"
proof -
  have l: "bin_low u k v = bin_sub u k v * 2 ^ (bin_bucket u k v + u)"
    by (simp add: bin_low_def bin_width_def)
  note b = unit_multiple_bounds [OF l bin_width_def bin_low_le less_bin_low_width]
  show "bin_index u k (v div 2 ^ u * 2 ^ u) = bin_index u k v"
    using b by (intro bin_low_high_same) linarith+
  show "bin_index u k (v div 2 ^ u * 2 ^ u + (2 ^ u - 1)) = bin_index u k v"
    using b by (intro bin_low_high_same) linarith+
qed

lemma unat_or_unit_mask:
  "layout_ok h \<Longrightarrow> unat (v OR unit_magnitude_mask h)
    = unat v div 2 ^ um h * 2 ^ um h + (2 ^ um h - 1)"
  using or_mask_eq [of "unat v" "um h"] by (simp add: unsigned_or_eq layout_okD(7))

lemma unit_mask_eq: "layout_ok h \<Longrightarrow> unit_magnitude_mask h = mask (um h)"
  using eq_of_nat_unat [OF layout_okD(7), of h] by (simp add: mask_eq_exp_minus_1)

lemma unat_and_not_unit_mask:
  assumes "layout_ok h"
  shows "unat (v AND NOT (unit_magnitude_mask h)) = unat v div 2 ^ um h * 2 ^ um h"
proof -
  have "unat v div 2 ^ um h * 2 ^ um h < 2 ^ 64"
    using div_times_less_eq_dividend [of "unat v" "2 ^ um h"] unat_u64_less [of v] by linarith
  then show ?thesis
    by (simp only: unit_mask_eq [OF assms] and_not_mask_eq unat_push_bit unat_drop_bit)
       simp
qed

lemma h_index_word:
  "layout_ok h \<Longrightarrow> h_index h (unat (v::u64)) = bin_index (um h) (hm h) (unat v)"
  by (simp only: h_index_eq unat_u64_less)

lemma h_index_or_unit_mask:
  "layout_ok h \<Longrightarrow> h_index h (unat (v OR unit_magnitude_mask h)) = h_index h (unat v)"
proof -
  assume ok: "layout_ok h"
  have "bin_index (um h) (hm h) (unat (v OR unit_magnitude_mask h)) = bin_index (um h) (hm h) (unat v)"
    by (simp only: unat_or_unit_mask [OF ok] bin_index_unit)
  then show ?thesis by (simp only: h_index_word [OF ok])
qed

lemma h_index_and_not_unit_mask:
  "layout_ok h \<Longrightarrow> h_index h (unat (v AND NOT (unit_magnitude_mask h))) = h_index h (unat v)"
proof -
  assume ok: "layout_ok h"
  have "bin_index (um h) (hm h) (unat (v AND NOT (unit_magnitude_mask h))) = bin_index (um h) (hm h) (unat v)"
    by (simp only: unat_and_not_unit_mask [OF ok] bin_index_unit)
  then show ?thesis by (simp only: h_index_word [OF ok])
qed

lemma h_index_u64_mono:
  "layout_ok h \<Longrightarrow> v \<le> w \<Longrightarrow> h_index h (unat v) \<le> h_index h (unat (w::u64))"
  using unsigned_less [of w, where ?'a = nat]
  by (simp add: h_index_eq bin_index_mono word_le_nat_alt)

lemma h_index_unit_0: "layout_ok h \<Longrightarrow> v \<le> unit_magnitude_mask h \<Longrightarrow> h_index h (unat v) = 0"
proof -
  assume ok: "layout_ok h" and "v \<le> unit_magnitude_mask h"
  then have "unat v \<le> 2 ^ um h - 1" by (simp only: word_le_nat_alt layout_okD(7))
  then have "unat v < 2 ^ um h" using zero_less_power [of "2::nat" "um h"] by linarith
  then have "unat v div 2 ^ um h * 2 ^ um h = 0" by simp
  then show ?thesis
    using bin_index_unit(1) [of "um h" "hm h" "unat v"] ok unsigned_less [of v, where ?'a = nat]
    by (simp add: h_index_eq bin_index_def bin_sub_def bin_bucket_def)
qed

lemma less_capacity_iff: "bins_ok h \<Longrightarrow> unat (v::u64) < capacity h \<longleftrightarrow> h_index h (unat v) < length (counts h)"
  using unsigned_less [of v, where ?'a = nat] by (simp add: h_index_eq bins_okD(1) bin_index_less_length)

section \<open>Updating the extremes keeps the invariant\<close>

lemma max_value_update_max:
  "max_value (update_max h v) = max (max_value h) (v OR unit_magnitude_mask h)"
  by (auto simp: update_max_def Let_def max_def not_less)

lemma update_min_max_eq:
  "update_min_max h v = h\<lparr>max_value := max_value (update_min_max h v),
     min_non_zero_value := min_non_zero_value (update_min_max h v)\<rparr>"
  by (simp add: update_min_max_def update_max_def update_min_def Let_def)

lemma update_max_fields [simp]:
  "auto_resize (update_max h v) = auto_resize h"
  "highest_trackable_value (update_max h v) = highest_trackable_value h"
  "lowest_discernible_value (update_max h v) = lowest_discernible_value h"
  "significant_value_digits (update_max h v) = significant_value_digits h"
  "bucket_count (update_max h v) = bucket_count h"
  "total_count (update_max h v) = total_count h"
  "counts (update_max h v) = counts h"
  "min_non_zero_value (update_max h v) = min_non_zero_value h"
  by (simp_all add: update_min_max_def update_max_def update_min_def Let_def)

lemma update_min_fields [simp]:
  "auto_resize (update_min h v) = auto_resize h"
  "highest_trackable_value (update_min h v) = highest_trackable_value h"
  "lowest_discernible_value (update_min h v) = lowest_discernible_value h"
  "significant_value_digits (update_min h v) = significant_value_digits h"
  "bucket_count (update_min h v) = bucket_count h"
  "total_count (update_min h v) = total_count h"
  "counts (update_min h v) = counts h"
  "max_value (update_min h v) = max_value h"
  by (simp_all add: update_min_max_def update_max_def update_min_def Let_def)

lemma update_min_max_fields [simp]:
  "auto_resize (update_min_max h v) = auto_resize h"
  "highest_trackable_value (update_min_max h v) = highest_trackable_value h"
  "lowest_discernible_value (update_min_max h v) = lowest_discernible_value h"
  "significant_value_digits (update_min_max h v) = significant_value_digits h"
  "bucket_count (update_min_max h v) = bucket_count h"
  "total_count (update_min_max h v) = total_count h"
  "counts (update_min_max h v) = counts h"
  by (simp_all add: update_min_max_def update_max_def update_min_def Let_def)

lemma update_max_invariants [simp]:
  "layout_ok (update_max h v) = layout_ok h" "sized_ok (update_max h v) = sized_ok h"
  "capacity (update_max h v) = capacity h" "h_index (update_max h v) = h_index h"
  by (simp_all add: update_min_max_def update_max_def update_min_def Let_def)

lemma update_min_invariants [simp]:
  "layout_ok (update_min h v) = layout_ok h" "sized_ok (update_min h v) = sized_ok h"
  "capacity (update_min h v) = capacity h" "h_index (update_min h v) = h_index h"
  by (simp_all add: update_min_max_def update_max_def update_min_def Let_def)

lemma update_min_max_invariants [simp]:
  "layout_ok (update_min_max h v) = layout_ok h" "sized_ok (update_min_max h v) = sized_ok h"
  "capacity (update_min_max h v) = capacity h" "h_index (update_min_max h v) = h_index h"
  by (simp_all add: update_min_max_def update_max_def update_min_def Let_def)

lemma le_or_unit_mask: "layout_ok h \<Longrightarrow> v \<le> (v OR unit_magnitude_mask h)"
proof -
  assume ok: "layout_ok h"
  let ?p = "2 ^ um h :: nat"
  have "unat v = unat v div ?p * ?p + unat v mod ?p" by (simp only: div_mult_mod_eq)
  moreover have "unat v mod ?p < ?p" by simp
  ultimately show ?thesis unfolding word_le_nat_alt unat_or_unit_mask [OF ok] by linarith
qed

lemma h_index_max: "layout_ok h \<Longrightarrow>
  h_index h (unat (max v w :: u64)) = max (h_index h (unat v)) (h_index h (unat w))"
  using h_index_u64_mono [of h v w] h_index_u64_mono [of h w v] by (auto simp: max_def)

lemma h_index_update_max:
  "layout_ok h \<Longrightarrow> h_index h (unat (max_value (update_max h v)))
    = max (h_index h (unat (max_value h))) (h_index h (unat v))"
  by (simp add: max_value_update_max h_index_max h_index_or_unit_mask)

lemma h_index_update_min:
  assumes "layout_ok h"
  shows "h_index h (unat (min_non_zero_value (update_min h v))) \<le> h_index h (unat (min_non_zero_value h))"
    and "0 < h_index h (unat v) \<Longrightarrow>
      h_index h (unat (min_non_zero_value (update_min h v))) \<le> h_index h (unat v)"
proof -
  let ?w = "v AND NOT (unit_magnitude_mask h)"
  have "min_non_zero_value (update_min h v) = (if v \<le> unit_magnitude_mask h then min_non_zero_value h
      else min (min_non_zero_value h) ?w)"
    by (auto simp: update_min_def Let_def min_def not_less)
  then show "h_index h (unat (min_non_zero_value (update_min h v))) \<le> h_index h (unat (min_non_zero_value h))"
    and "0 < h_index h (unat v) \<Longrightarrow>
      h_index h (unat (min_non_zero_value (update_min h v))) \<le> h_index h (unat v)"
    using h_index_unit_0 [OF assms, of v] h_index_and_not_unit_mask [OF assms, of v]
      h_index_u64_mono [OF assms, of "min (min_non_zero_value h) ?w" "min_non_zero_value h"]
      h_index_u64_mono [OF assms, of "min (min_non_zero_value h) ?w" ?w] by auto
qed

lemma h_index_update_min_max:
  assumes "layout_ok h"
  shows "h_index h (unat (max_value (update_min_max h v)))
      = max (h_index h (unat (max_value h))) (h_index h (unat v))"
    and "h_index h (unat (min_non_zero_value (update_min_max h v)))
      \<le> h_index h (unat (min_non_zero_value h))"
    and "0 < h_index h (unat v) \<Longrightarrow>
      h_index h (unat (min_non_zero_value (update_min_max h v))) \<le> h_index h (unat v)"
proof -
  let ?h1 = "if v > max_value h then update_max h v else h"
  have ix: "h_index ?h1 = h_index h" and l1: "layout_ok ?h1"
    and m: "min_non_zero_value ?h1 = min_non_zero_value h"
    using assms by simp_all
  have mx: "max_value (update_min_max h v) = max_value ?h1"
    by (simp add: update_min_max_def update_min_def Let_def)
  have "h_index h (unat (max_value ?h1)) = max (h_index h (unat (max_value h))) (h_index h (unat v))"
    using h_index_update_max [OF assms, of v] h_index_u64_mono [OF assms, of v "max_value h"]
    by (auto simp: not_less)
  with mx show "h_index h (unat (max_value (update_min_max h v)))
      = max (h_index h (unat (max_value h))) (h_index h (unat v))" by simp
  have mn: "min_non_zero_value (update_min_max h v) =
      (if v < min_non_zero_value h \<and> v \<noteq> 0 then min_non_zero_value (update_min ?h1 v)
       else min_non_zero_value h)"
    using m by (simp add: update_min_max_def Let_def)
  note u = h_index_update_min [OF l1, of v, unfolded ix m]
  show "h_index h (unat (min_non_zero_value (update_min_max h v)))
      \<le> h_index h (unat (min_non_zero_value h))"
    using mn u(1) by auto
  have "v = 0 \<Longrightarrow> h_index h (unat v) = 0"
    using h_index_unit_0 [OF assms, of 0] by simp
  then show "0 < h_index h (unat v) \<Longrightarrow>
      h_index h (unat (min_non_zero_value (update_min_max h v))) \<le> h_index h (unat v)"
    using mn u(2) h_index_u64_mono [OF assms, of "min_non_zero_value h" v] by (auto simp: not_less)
qed

lemma h_index_pos_iff: "layout_ok h \<Longrightarrow> 0 < h_index h (unat v) \<longleftrightarrow> v > unit_magnitude_mask h"
proof -
  assume ok: "layout_ok h"
  note l = layout_okD [OF ok]
  have "v > unit_magnitude_mask h \<longleftrightarrow> 2 ^ um h \<le> unat v"
    by (simp add: word_less_nat_alt l(7) less_eq_Suc_le)
  moreover have "2 ^ um h \<le> unat v \<Longrightarrow> 0 < bin_index (um h) (hm h) (unat v)"
  proof (cases "bin_bucket (um h) (hm h) (unat v)")
    case 0
    then show "2 ^ um h \<le> unat v \<Longrightarrow> ?thesis"
      by (simp add: bin_index_def bin_sub_def div_greater_zero_iff)
  qed (simp add: bin_index_def)
  ultimately show ?thesis
    using h_index_unit_0 [OF ok, of v] h_index_word [OF ok, of v] by (metis not_gr0 not_less)
qed

lemma min_index_pos:
  assumes "layout_ok h" and "0 < h_index h (unat (min_non_zero_value h))"
  shows "0 < h_index h (unat (min_non_zero_value (update_min h v)))"
    and "0 < h_index h (unat (min_non_zero_value (update_min_max h v)))"
proof -
  have m: "0 < h_index h (unat (min_non_zero_value (update_min g v)))"
    if "unit_magnitude_mask g = unit_magnitude_mask h" "min_non_zero_value g = min_non_zero_value h" for g :: "'a histogram"
    using assms that h_index_and_not_unit_mask [OF assms(1), of v] h_index_pos_iff [OF assms(1), of v]
    by (auto simp: update_min_def Let_def not_le)
  show "0 < h_index h (unat (min_non_zero_value (update_min h v)))" by (rule m) simp_all
  show "0 < h_index h (unat (min_non_zero_value (update_min_max h v)))"
    using assms(2) m [of "update_max h v"] m [of h]
    by (simp add: update_min_max_def Let_def update_max_def)
qed

lemma extremes_ok_update_min_max:
  assumes "layout_ok h" and "extremes_ok h"
    and "\<And>j. j < length cs \<Longrightarrow> cs ! j \<noteq> 0 \<Longrightarrow>
      j = h_index h (unat v) \<or> (j < length (counts h) \<and> counts h ! j \<noteq> 0)"
  shows "extremes_ok (update_min_max (h\<lparr>counts := cs\<rparr>) v)"
  unfolding extremes_ok_def
proof (intro allI impI)
  let ?h = "h\<lparr>counts := cs\<rparr>"
  let ?g = "update_min_max ?h v"
  fix j assume "j < length (counts ?g)" and "counts ?g ! j \<noteq> 0"
  then have j: "j < length cs" "cs ! j \<noteq> 0"
    by simp_all
  have ix: "h_index ?g = h_index h" by simp
  note u = h_index_update_min_max [of ?h v, simplified, OF assms(1)]
  show "j \<le> h_index ?g (unat (max_value ?g))
      \<and> (0 < j \<longrightarrow> h_index ?g (unat (min_non_zero_value ?g)) \<le> j)"
    unfolding ix using assms(3) [OF j] u assms(2) by (fastforce simp: extremes_ok_def)
qed

section \<open>A small histogram\<close>

text \<open>A small histogram the examples start from: values up to 100, no decimal digit kept.\<close>

definition sample :: "u64 histogram" where
  "sample = fresh 1 100 0"

lemmas eval_layout = fresh_def config_um_def config_mag_def bin_bucket_def f64_log2_floor_def
  nat_as_f64_def rne_def bit_len.simps log2_slack_def Let_def

lemma sample_eq: "sample = \<lparr>auto_resize = False, highest_trackable_value = 100,
    lowest_discernible_value = 1, significant_value_digits = 0, bucket_count = 7,
    sub_bucket_count = 2, sub_bucket_half_count = 1, sub_bucket_half_count_magnitude = 0,
    sub_bucket_mask = 1, leading_zero_count_base = 63, unit_magnitude = 0,
    unit_magnitude_mask = 0, max_value = 0, min_non_zero_value = - 1, total_count = 0,
    counts = [0, 0, 0, 0, 0, 0, 0, 0]\<rparr>"
proof -
  have "replicate 8 (0 :: u64) = [0, 0, 0, 0, 0, 0, 0, 0]" by (simp add: eval_nat_numeral)
  then show ?thesis by (simp add: sample_def eval_layout)
qed

lemma wf_sample: "wf sample"
  unfolding sample_def by (rule wf_fresh) (simp_all add: eval_layout)

lemma capacity_sample: "capacity sample = 128"
  by (simp add: sample_eq capacity_def)

text \<open>The configuration fixes the layout.\<close>

lemma sized_ok_same_layout:
  assumes "sized_ok h" and "sized_ok s"
    and "lowest_discernible_value h = lowest_discernible_value s"
    and "highest_trackable_value h = highest_trackable_value s"
    and "significant_value_digits h = significant_value_digits s"
  shows "bucket_count h = bucket_count s" and "sub_bucket_count h = sub_bucket_count s"
    and "unit_magnitude h = unit_magnitude s" and "length (counts h) = length (counts s)"
    and "capacity h = capacity s"
proof -
  note a = sized_okD [OF assms(1)] and b = sized_okD [OF assms(2)]
  have m: "um h = um s" "hm h = hm s"
    using a(2) b(2) assms(3-5) by (auto simp: config_ok_def)
  then show "unit_magnitude h = unit_magnitude s" by (simp add: word_unat_eq_iff)
  show "sub_bucket_count h = sub_bucket_count s"
    using layout_okD(3) [OF a(1)] layout_okD(3) [OF b(1)] m by (simp add: word_unat_eq_iff)
  have bb: "bc h = bc s" using a(4) b(4) m assms(4) by simp
  then show "bucket_count h = bucket_count s" by (simp add: word_unat_eq_iff)
  show "length (counts h) = length (counts s)" using a(5) b(5) m bb by simp
  show "capacity h = capacity s" using m bb by (simp add: capacity_def)
qed

end
