(* ===== verification/Resolution.thy ===== *)
theory Resolution imports Invariant begin
unbundle bit_operations_syntax

text \<open>
  What the layout promises to a user of the library: every index stands for one range of
  equivalent values, the ranges tile the values, and a range is narrow enough for the
  significant digits asked for.
\<close>

section \<open>Precision\<close>

lemma config_mag_precision: "sf \<le> 5 \<Longrightarrow> 10 ^ unat sf \<le> (2::nat) ^ (config_mag sf - 1)"
  using config_mag_bounds(1,3) [of sf] by (cases "config_mag sf") simp_all

section \<open>Properties\<close>


text \<open>
  C7. Index calculation, round trip: every index of the counts array has a value, the value is
  the lowest of its range and is mapped back to the index; and a value that fits is mapped to an
  index inside the array, whose value is the value's \<open>lowest_equivalent\<close>.
\<close>

theorem index_value_roundtrip:
  assumes "bins_ok h"
  shows "(\<forall>i < length (counts h). \<exists>v. value_for h i = (Ok v :: (unit, u64) res) \<and>
      index_for h v = Some i \<and> lowest_equivalent h v = v) \<and>
    (\<forall>v. unat v < capacity h \<longrightarrow> (\<exists>i < length (counts h). index_for h v = Some i \<and>
      value_for h i = (Ok (lowest_equivalent h v) :: (unit, u64) res)))"
proof (intro conjI allI impI)
  note b = bins_okD [OF assms]
  fix i assume i: "i < length (counts h)"
  note v = value_for_bins [OF assms i]
  let ?v = "of_nat (h_value h i) :: u64"
  have uv: "unat ?v = bin_value (um h) (hm h) i" using v(2,3) by (simp add: unat_of_nat_less)
  have "lowest_equivalent h ?v = ?v"
    by (rule word_unat_eq_iff [THEN iffD2])
      (metis unat_lowest_equivalent [OF b(1)] uv bin_value_index bin_index_value)
  then show "\<exists>v. value_for h i = (Ok v :: (unit, u64) res) \<and> index_for h v = Some i \<and> lowest_equivalent h v = v"
    using v(4) uv by (intro exI [of _ ?v]) (simp add: index_for_eq [OF b(1)] bin_index_value)
next
  note b = bins_okD [OF assms]
  fix v :: u64 assume v: "unat v < capacity h"
  let ?i = "bin_index (um h) (hm h) (unat v)"
  have i: "?i < length (counts h)" using v assms by (simp add: bin_index_less_length)
  have "of_nat (bin_value (um h) (hm h) ?i) = lowest_equivalent h v"
    by (metis unat_lowest_equivalent [OF b(1)] bin_value_index eq_of_nat_unat)
  then show "\<exists>i < length (counts h). index_for h v = Some i \<and>
      value_for h i = (Ok (lowest_equivalent h v) :: (unit, u64) res)"
    using i value_for_bins(1) [OF assms i] by (simp add: index_for_eq [OF b(1)])
qed

theorem index_value_roundtrip_witness:
  "(\<exists>v. value_for sample 3 = (Ok v :: (unit, u64) res) \<and>
      index_for sample v = Some 3 \<and> lowest_equivalent sample v = v) \<and>
    (\<exists>i. i < length (counts sample) \<and> index_for sample 77 = Some i \<and>
      value_for sample i = (Ok (lowest_equivalent sample 77) :: (unit, u64) res))"
proof -
  have "3 < length (counts sample)" by (simp add: sample_eq)
  moreover have "unat (77 :: u64) < capacity sample" by (simp add: capacity_sample)
  ultimately show ?thesis
    using index_value_roundtrip [OF wfD(3) [OF wf_sample]] by blast
qed

text \<open>
  Equivalence: two values are equivalent exactly when they share an index, a value lies
  between the ends of its range, both ends are equivalent to it, and the index grows with the
  value.
\<close>

theorem equivalent_values:
  assumes "layout_ok h"
  shows "(equivalent h v w \<longleftrightarrow> index_for h v = index_for h w) \<and>
    lowest_equivalent h v \<le> v \<and> v \<le> highest_equivalent h v \<and>
    equivalent h v (lowest_equivalent h v) \<and>
    equivalent h v (highest_equivalent h v) \<and>
    (v \<le> w \<longrightarrow> the (index_for h v) \<le> the (index_for h w))"
proof (intro conjI)
  let ?u = "um h" and ?k = "hm h"
  have eq: "equivalent h x y \<longleftrightarrow> bin_index ?u ?k (unat x) = bin_index ?u ?k (unat y)" for x y
    by (metis equivalent_def unat_lowest_equivalent [OF assms] bin_index_low bin_value_index word_unat_eq_iff)
  show "equivalent h v w \<longleftrightarrow> index_for h v = index_for h w"
    by (simp add: eq index_for_eq [OF assms])
  show "lowest_equivalent h v \<le> v" "v \<le> highest_equivalent h v"
    using assms by (simp_all add: lowest_equivalent_le le_highest_equivalent)
  show "equivalent h v (lowest_equivalent h v)"
    by (simp add: eq unat_lowest_equivalent [OF assms] bin_index_low)
  show "equivalent h v (highest_equivalent h v)"
  proof (cases "v = - 1")
    case False
    then have "unat (highest_equivalent h v) < bin_low ?u ?k (unat v) + bin_width ?u ?k (unat v)"
      using bin_width_pos [of ?u ?k "unat v"] by (simp add: unat_highest_equivalent [OF assms] u64_max_def min_def)
    moreover have "bin_low ?u ?k (unat v) \<le> unat (highest_equivalent h v)"
      using bin_low_le [of ?u ?k "unat v"] le_highest_equivalent [OF assms, of v] by (simp add: word_le_nat_alt)
    ultimately show ?thesis by (simp add: eq bin_low_high_same)
  qed (simp add: highest_equivalent_def equivalent_def)
  show "v \<le> w \<longrightarrow> the (index_for h v) \<le> the (index_for h w)"
    by (simp add: index_for_eq [OF assms] bin_index_mono word_le_nat_alt)
qed

theorem equivalent_values_witness:
  "(equivalent sample 64 100 \<longleftrightarrow> index_for sample 64 = index_for sample 100) \<and>
    lowest_equivalent sample 64 \<le> 64 \<and> 64 \<le> highest_equivalent sample 64 \<and>
    equivalent sample 64 (lowest_equivalent sample 64) \<and>
    equivalent sample 64 (highest_equivalent sample 64) \<and>
    the (index_for sample 64) \<le> the (index_for sample 100)"
  using equivalent_values [OF wfD(2) [OF wf_sample], of 64 100] by simp

text \<open>
  C5. Precision: the range of values counted together with a value is as narrow as the unit
  (the lowest discernible value rounded to a power of two), or at most the fraction
  \<open>10 ^ -sigfig\<close> of the value: the significant digits asked for are kept.
\<close>

theorem resolution:
  assumes "layout_ok h" and "config_ok h"
  shows "equivalent_range h v = 2 ^ um h \<or>
    unat (equivalent_range h v) * 10 ^ unat (sigfig h) \<le> unat v"
proof -
  have "bin_width (um h) (hm h) (unat v) = 2 ^ um h \<or> bin_width (um h) (hm h) (unat v) * 2 ^ hm h \<le> unat v"
    by (rule bin_width_precision)
  moreover have "10 ^ unat (sigfig h) \<le> (2::nat) ^ hm h"
    using assms(2) config_mag_precision [of "significant_value_digits h"]
    unfolding config_ok_def sigfig_def by (metis diff_add_inverse2)
  then have "bin_width (um h) (hm h) (unat v) * 10 ^ unat (sigfig h) \<le> bin_width (um h) (hm h) (unat v) * 2 ^ hm h"
    by (rule mult_le_mono2)
  moreover have "unat (equivalent_range h v) = 2 ^ um h \<Longrightarrow> equivalent_range h v = 2 ^ um h"
    using eq_of_nat_unat [of "equivalent_range h v" "2 ^ um h"] by simp
  ultimately show ?thesis
    unfolding unat_equivalent_range [OF assms(1)] by (meson le_trans)
qed

theorem resolution_witness:
  "equivalent_range sample 77 = 2 ^ um sample \<or>
    unat (equivalent_range sample 77) * 10 ^ unat (sigfig sample) \<le> unat (77 :: u64)"
  by (rule resolution [OF wfD(2,4) [OF wf_sample]])

end
