(* ===== verification/Recording.thy ===== *)
theory Recording
  imports Invariant
begin

unbundle bit_operations_syntax

text \<open>
  Recording samples (\<open>lib.rs\<close>): \<open>record\<close>, \<open>record_n\<close>, the saturating and the corrected
  variants, and clearing. A counter type is a word of any width up to 64 bits; \<open>u64\<close> is what
  the tools use.
\<close>

section \<open>Operations\<close>

definition record_n_inner ::
  "'c::len word histogram \<Rightarrow> u64 \<Rightarrow> 'c word \<Rightarrow> bool
    \<Rightarrow> (record_error \<times> 'c word histogram, 'c word histogram) res" where
  "record_n_inner h value count clamp =
     bind_res
       (case mut_at h value of
          Some i \<Rightarrow>
            Ok (h\<lparr>counts := (counts h)[i := saturating_add (counts h ! i) count]\<rparr>, value)
        | None \<Rightarrow>
            (if clamp then
               let clamped = (if value > highest_trackable_value h
                              then highest_trackable_value h else lowest_discernible_value h)
               in bind_res (expect (mut_at h clamped)) (\<lambda>i.
                    Ok (h\<lparr>counts := (counts h)[i := saturating_add (counts h ! i) count]\<rparr>,
                        clamped))
             else if \<not> auto_resize h then Err (ValueOutOfRangeResizeDisabled, h)
             else
               bind_res (map_err (\<lambda>(_, h'). (ResizeFailedUsizeTypeTooSmall, h')) (resize h value))
                 (\<lambda>h1. bind_res (last_index h1) (\<lambda>last. bind_res (value_for h1 last) (\<lambda>top.
                 let h2 = h1\<lparr>highest_trackable_value := highest_equivalent h1 top\<rparr>
                 in bind_res (expect (mut_at h2 value)) (\<lambda>i.
                    bind_res (expect (checked_add (counts h2 ! i) count)) (\<lambda>c.
                    Ok (h2\<lparr>counts := (counts h2)[i := c]\<rparr>, value))))))))
       (\<lambda>(h3, v).
          let h4 = update_min_max h3 v
          in Ok (h4\<lparr>total_count := saturating_add (total_count h4) (as_u64 count)\<rparr>))"

definition record_n ::
  "'c::len word histogram \<Rightarrow> u64 \<Rightarrow> 'c word
    \<Rightarrow> (record_error \<times> 'c word histogram, 'c word histogram) res" where
  "record_n h value count = record_n_inner h value count False"

definition record_value ::
  "'c::len word histogram \<Rightarrow> u64
    \<Rightarrow> (record_error \<times> 'c word histogram, 'c word histogram) res" where
  "record_value h value = record_n h value 1"

definition saturating_record_n ::
  "'c::len word histogram \<Rightarrow> u64 \<Rightarrow> 'c word \<Rightarrow> ('e, 'c word histogram) res" where
  "saturating_record_n h value count = unwrap_res (record_n_inner h value count True)"

definition saturating_record ::
  "'c::len word histogram \<Rightarrow> u64 \<Rightarrow> ('e, 'c word histogram) res" where
  "saturating_record h value = saturating_record_n h value 1"

text \<open>
  The loop of \<open>record_n_correct\<close>: the missing value steps down by the interval, which is
  positive, until it is below it. (The caller has returned already when the interval is 0,
  with which the loop would not end; the first conjunct says so.)
\<close>

function correct_loop ::
  "'c::len word histogram \<Rightarrow> u64 \<Rightarrow> 'c word \<Rightarrow> u64
    \<Rightarrow> (record_error \<times> 'c word histogram, 'c word histogram) res" where
  "correct_loop h missing_value count interval =
     (if interval \<noteq> 0 \<and> missing_value \<ge> interval then
        bind_res (record_n_inner h missing_value count False)
          (\<lambda>h'. correct_loop h' (missing_value - interval) count interval)
      else Ok h)"
  by pat_completeness auto
termination
  by (relation "measure (\<lambda>(h, missing_value, count, interval). unat missing_value)")
     (auto intro: unat_sub_less)

declare correct_loop.simps [simp del]

definition record_n_correct ::
  "'c::len word histogram \<Rightarrow> u64 \<Rightarrow> 'c word \<Rightarrow> u64
    \<Rightarrow> (record_error \<times> 'c word histogram, 'c word histogram) res" where
  "record_n_correct h value count interval =
     bind_res (record_n h value count) (\<lambda>h1.
       if interval = 0 then Ok h1
       else if value > interval then correct_loop h1 (value - interval) count interval
       else Ok h1)"

definition record_correct ::
  "'c::len word histogram \<Rightarrow> u64 \<Rightarrow> u64
    \<Rightarrow> (record_error \<times> 'c word histogram, 'c word histogram) res" where
  "record_correct h value interval = record_n_correct h value 1 interval"

definition clear :: "'c::zero histogram \<Rightarrow> 'c histogram" where
  "clear h = h\<lparr>counts := map (\<lambda>_. 0) (counts h), total_count := 0\<rparr>"

definition reset :: "'c::zero histogram \<Rightarrow> 'c histogram" where
  "reset h = reset_min (reset_max (clear h) ORIGINAL_MAX) ORIGINAL_MIN"

definition auto :: "'c histogram \<Rightarrow> bool \<Rightarrow> 'c histogram" where
  "auto h enabled = h\<lparr>auto_resize := enabled\<rparr>"

text \<open>\<open>h += v\<close>, the panicking form of \<open>record\<close>.\<close>

definition add_assign_u64 :: "'c::len word histogram \<Rightarrow> u64 \<Rightarrow> ('e, 'c word histogram) res" where
  "add_assign_u64 h value = unwrap_res (record_value h value)"

section \<open>The last bin\<close>

text \<open>The last bin: where it begins, how wide it is, and that it ends at the capacity.\<close>

lemma last_bin_range:
  assumes "bins_ok h"
  defines "v \<equiv> h_value h (length (counts h) - 1)"
  shows "bin_low (um h) (hm h) v = v" and "v + bin_width (um h) (hm h) v = capacity h"
    and "bin_width (um h) (hm h) v = 2 ^ (bc h - 1 + um h)"
proof -
  note b = bins_okD [OF assms(1)]
  let ?u = "um h" and ?k = "hm h" and ?e = "bc h - 1" and ?s = "2 ^ (hm h + 1) - 1 :: nat"
  let ?v = "?s * 2 ^ (?e + ?u)"
  have s: "?s < 2 ^ (?k + 1)" "2 ^ ?k \<le> ?s" by simp_all
  note loc = bin_bucket_loc [OF s, of 0 ?e ?u] bin_sub_loc [OF s, of 0 ?e ?u]
  have low: "bin_low ?u ?k ?v = ?v" and width: "bin_width ?u ?k ?v = 2 ^ (?e + ?u)"
    using loc by (simp_all add: bin_low_def bin_width_def)
  have "(bc h + 1) * 2 ^ ?k = ?e * 2 ^ ?k + 2 ^ (?k + 1)"
    using b(2) by (cases "bc h") (simp_all add: algebra_simps)
  then have i: "length (counts h) - 1 = ?e * 2 ^ ?k + ?s" using b(4) by simp
  have "bin_index ?u ?k ?v = length (counts h) - 1" using loc unfolding i by (simp add: bin_index_def)
  then have "bin_value ?u ?k (length (counts h) - 1) = ?v"
    using bin_value_index [of ?u ?k ?v] low by simp
  then have v: "v = ?v"
    using value_for_bins(3) [OF assms(1), of "length (counts h) - 1"] length_counts_pos [OF assms(1)]
    by (simp add: v_def)
  have "?v + 2 ^ (?e + ?u) = (?s + 1) * 2 ^ (?e + ?u)"
    by (simp only: add_mult_distrib mult_1)
  also have "?s + 1 = 2 ^ (?k + 1)" by (simp del: power_Suc)
  also have "2 ^ (?k + 1) * 2 ^ (?e + ?u) = (2::nat) ^ (?k + 1 + (?e + ?u))"
    by (rule power_add [symmetric])
  also have "\<dots> = capacity h" using b(2) by (simp add: capacity_def add.commute add.left_commute)
  finally show "v + bin_width ?u ?k v = capacity h" unfolding v width .
  show "bin_low ?u ?k v = v" "bin_width ?u ?k v = 2 ^ (?e + ?u)" unfolding v by (fact low width)+
qed

text \<open>A last bin of one value would begin at \<open>u64::MAX\<close>: no array is that long.\<close>

lemma last_bin_not_max:
  assumes "bins_ok h"
  shows "h_value h (length (counts h) - 1) \<noteq> u64_max"
proof
  note b = bins_okD [OF assms] and r = last_bin_range [OF assms]
  let ?e = "bc h - 1 + um h"
  assume "h_value h (length (counts h) - 1) = u64_max"
  then have "u64_max + 2 ^ ?e = capacity h" using r(2,3) by simp
  moreover have "0 < (2::nat) ^ ?e" by simp
  ultimately have "(2::nat) ^ ?e \<le> 1" "capacity h = 2 ^ 64"
    using capacity_le [OF assms] unfolding u64_max_eq by linarith+
  then have "?e = 0" and "capacity h = 2 ^ 64"
    using power_increasing [of 1 ?e "2::nat"] by (cases ?e; simp)+
  moreover from this have "um h + hm h + bc h \<le> 18" using b(2) layout_okD(1) [OF b(1)] by simp
  then have "capacity h \<le> 2 ^ 18" unfolding capacity_def by (intro power_increasing) auto
  ultimately show False by simp
qed

lemma last_bin:
  assumes "bins_ok h"
  defines "i \<equiv> length (counts h) - 1" and "t \<equiv> of_nat (h_value h (length (counts h) - 1)) :: u64"
  shows "last_index h = Ok i" and "value_for h i = Ok t"
    and "unat (highest_equivalent h t) = min u64_max (capacity h) - 1"
proof -
  have il: "i < length (counts h)" using length_counts_pos [OF assms(1)] by (simp add: i_def)
  show "last_index h = Ok i"
    using length_counts_pos [OF assms(1)] by (simp add: last_index_def distinct_values_def i_def)
  note v = value_for_bins [OF assms(1) il, unfolded i_def]
  show "value_for h i = Ok t" using v(4) by (simp add: t_def i_def)
  have t: "unat t = h_value h (length (counts h) - 1)"
    unfolding t_def by (rule unat_of_nat_less) (use v(2,3) in simp)
  then have "t \<noteq> - 1" using last_bin_not_max [OF assms(1)] by auto
  then show "unat (highest_equivalent h t) = min u64_max (capacity h) - 1"
    using unat_highest_equivalent [OF bins_okD(1) [OF assms(1)], of t] last_bin_range(1,2) [OF assms(1)]
    by (simp add: t)
qed

section \<open>Growing\<close>

definition grown :: "'c::len word histogram \<Rightarrow> u64 \<Rightarrow> 'c word histogram" where
  "grown h hi =
     (let h1 = h\<lparr>
            bucket_count := of_nat (1 + bin_bucket (um h) (hm h) (unat hi)),
            highest_trackable_value := hi,
            counts := vec_resize (counts h)
              ((2 + bin_bucket (um h) (hm h) (unat hi)) * 2 ^ hm h) 0\<rparr>
      in h1\<lparr>highest_trackable_value :=
              highest_equivalent h1 (of_nat (h_value h1 (length (counts h1) - 1)))\<rparr>)"

lemma sized_ok_set_top:
  assumes "sized_ok h"
  defines "t \<equiv> highest_equivalent h (of_nat (h_value h (length (counts h) - 1)))"
  shows "sized_ok (h\<lparr>highest_trackable_value := t\<rparr>)"
    and "unat (highest_trackable_value h) \<le> unat t \<or> unat (highest_trackable_value h) = u64_max"
proof -
  note s = sized_okD [OF assms(1)]
  note b = bins_okD [OF s(3)]
  have t: "unat t = min u64_max (capacity h) - 1" using last_bin(3) [OF s(3)] by (simp add: t_def)
  have high: "unat (highest_trackable_value h) < capacity h"
    by (rule highest_less_capacity) (rule assms(1))
  then show le: "unat (highest_trackable_value h) \<le> unat t \<or> unat (highest_trackable_value h) = u64_max"
    using t unat_le_u64_max [of "highest_trackable_value h"] by auto
  have cap: "capacity h \<le> 2 ^ 64" by (rule capacity_le [OF s(3)])
  note c = s(2)[unfolded config_ok_def]
  have low: "unat (lowest_discernible_value h) \<le> 2 ^ 63 - 1"
    using c by (simp add: word_le_nat_alt unat_div u64_max_def)
  have conf: "2 * unat (lowest_discernible_value h) \<le> unat t"
    using t high c low cap by (simp add: u64_max_def min_def split: if_splits)
  have lt: "unat t < capacity h" using t zero_less_power [of "2::nat" "um h + hm h + bc h"]
    by (auto simp: capacity_def u64_max_def min_def split: if_splits)
  then have "bin_bucket (um h) (hm h) (unat t) < bc h"
    using bin_bucket_less_iff [of "bc h" "um h" "hm h" "unat t"] b(2) by (simp add: capacity_def)
  moreover have "\<not> bin_bucket (um h) (hm h) (unat t) < bc h - 1"
  proof
    assume less: "bin_bucket (um h) (hm h) (unat t) < bc h - 1"
    let ?p = "2 ^ (um h + hm h + (bc h - 1)) :: nat"
    have "2 ^ 1 \<le> ?p" using less by (intro power_increasing) auto
    moreover have "capacity h = 2 * ?p"
      using less by (simp add: capacity_def flip: power_Suc)
    moreover have "unat t < ?p"
      using less bin_bucket_less_iff [of "bc h - 1" "um h" "hm h" "unat t"] by simp
    ultimately show False using t cap by (auto simp: u64_max_def min_def split: if_splits)
  qed
  ultimately have "bc h = 1 + bin_bucket (um h) (hm h) (unat t)" by linarith
  then show "sized_ok (h\<lparr>highest_trackable_value := t\<rparr>)"
    using s conf c by (simp add: sized_ok_def config_ok_def)
qed

section \<open>What recording does\<close>

definition bump :: "'c::len word histogram \<Rightarrow> u64 \<Rightarrow> 'c word \<Rightarrow> 'c word histogram" where
  "bump h v c =
     (let i = h_index h (unat v);
          h1 = update_min_max (h\<lparr>counts := (counts h)[i := saturating_add (counts h ! i) c]\<rparr>) v
      in h1\<lparr>total_count := saturating_add (total_count h1) (ucast c)\<rparr>)"

lemma mut_at_eq:
  "bins_ok h \<Longrightarrow> mut_at h v = (if unat v < capacity h then Some (h_index h (unat v)) else None)"
  by (simp add: mut_at_def index_for_h_index bins_okD(1) less_capacity_iff)

lemma grown_facts:
  assumes "sized_ok h" and "capacity h \<le> unat hi"
  shows "sized_ok (grown h hi)" and "unat hi < capacity (grown h hi)"
    and "capacity h \<le> capacity (grown h hi)"
    and "length (counts h) \<le> length (counts (grown h hi))"
    and "counts (grown h hi) = vec_resize (counts h) (length (counts (grown h hi))) 0"
    and "h_index (grown h hi) = h_index h"
    and "auto_resize (grown h hi) = auto_resize h"
    and "lowest_discernible_value (grown h hi) = lowest_discernible_value h"
    and "max_value (grown h hi) = max_value h"
    and "min_non_zero_value (grown h hi) = min_non_zero_value h"
    and "total_count (grown h hi) = total_count h"
    and "unit_magnitude_mask (grown h hi) = unit_magnitude_mask h"
proof -
  have "unat (highest_trackable_value h) \<le> unat hi"
    using highest_less_capacity [OF assms(1)] assms(2) by linarith
  note g = resize_grow [OF assms(1) this]
  note t = sized_ok_set_top(1) [OF g(2)]
  show "sized_ok (grown h hi)" unfolding grown_def Let_def by (rule t)
qed (use resize_grow [OF assms(1), of hi] highest_less_capacity [OF assms(1)] assms(2) in
      \<open>simp_all add: grown_def Let_def\<close>)


lemma grown_capacity_less:
  assumes "sized_ok h" and "capacity h \<le> unat hi" and "unat v < capacity h"
  shows "unat v < capacity (grown h hi)"
  using grown_facts(3) [OF assms(1,2)] assms(3) by linarith

lemma wf_grown:
  assumes "wf h" and "capacity h \<le> unat hi"
  shows "wf (grown h hi)"
proof -
  note w = wfD [OF assms(1)]
  note g = grown_facts [OF w(1) assms(2)]
  have "extremes_ok (grown h hi)"
    unfolding extremes_ok_def g(6,9,10)
    using w(6) by (subst g(5), subst g(5)) (auto simp: extremes_ok_def nth_vec_resize split: if_splits)
  then show ?thesis using g(1,3,6,9,10) w(5,7) by (simp add: wf_def)
qed

lemma resize_grown:
  assumes "sized_ok h" and "capacity h \<le> unat v"
  obtains h1 where "resize h v = Ok h1" and "bins_ok h1"
    and "h1\<lparr>highest_trackable_value :=
            highest_equivalent h1 (of_nat (h_value h1 (length (counts h1) - 1)))\<rparr> = grown h v"
proof -
  have "unat (highest_trackable_value h) \<le> unat v"
    using highest_less_capacity [OF assms(1)] assms(2) by linarith
  note g = resize_grow [OF assms(1) this]
  show thesis
    by (rule that [OF g(1) sized_okD(3) [OF g(2)]]) (simp add: grown_def Let_def)
qed

lemma bump_in_bin:
  "bins_ok h \<Longrightarrow> unat (v :: u64) < capacity h \<Longrightarrow> h_index h (unat v) < length (counts h)"
  using less_capacity_iff [of h v] by simp

theorem record_n_inner_eq:
  assumes "sized_ok h"
  shows "record_n_inner h v c False =
    (if unat v < capacity h then Ok (bump h v c)
     else if \<not> auto_resize h then Err (ValueOutOfRangeResizeDisabled, h)
     else Ok (bump (grown h v) v c))"
proof -
  note s = sized_okD [OF assms]
  show ?thesis
  proof (cases "unat v < capacity h")
    case True
    then show ?thesis by (simp add: record_n_inner_def mut_at_eq [OF s(3)] bump_def Let_def)
  next
    case False
    then have le: "capacity h \<le> unat v" by simp
    obtain h1 where r: "resize h v = Ok h1" and b1: "bins_ok h1"
      and h2: "h1\<lparr>highest_trackable_value :=
        highest_equivalent h1 (of_nat (h_value h1 (length (counts h1) - 1)))\<rparr> = grown h v"
      by (rule resize_grown [OF assms le])
    note g = grown_facts [OF assms le]
    note b = sized_okD(3) [OF g(1)]
    let ?i = "h_index (grown h v) (unat v)"
    have i: "mut_at (grown h v) v = Some ?i" using g(2) by (simp add: mut_at_eq [OF b])
    have "length (counts h) \<le> h_index h (unat v)"
      using less_capacity_iff [OF s(3), of v] False by simp
    then have "counts (grown h v) ! ?i = 0"
      using bump_in_bin [OF b g(2)] unfolding g(6) by (subst g(5)) (simp add: nth_vec_resize)
    then have c: "checked_add (counts (grown h v) ! ?i) c = Some c"
      "saturating_add (counts (grown h v) ! ?i) c = c"
      using unsigned_less [of c, where ?'a = nat] by (simp_all add: checked_add_def saturating_add_def)
    have "record_n_inner h v c False = (if \<not> auto_resize h then Err (ValueOutOfRangeResizeDisabled, h)
      else Ok (bump (grown h v) v c))"
      using False
      by (simp only: record_n_inner_def mut_at_eq [OF s(3)] r last_bin(1,2) [OF b1] Let_def h2 i
          bind_res.simps map_err.simps if_False if_True option.case expect.simps c bump_def simp_thms)
        (simp add: bump_def Let_def c)
    then show ?thesis using False by simp
  qed
qed

section \<open>The histogram as a function from bins to counts\<close>

text \<open>
  What a histogram stores, whatever the length of its array: the count of bin \<open>i\<close>, 0 when the
  array has not grown to it. And whether its total is the sum of its counts, up to saturation.
\<close>

definition bin_count :: "'c::len word histogram \<Rightarrow> nat \<Rightarrow> nat" where
  "bin_count h i = (if i < length (counts h) then unat (counts h ! i) else 0)"

definition exact :: "'c::len word histogram \<Rightarrow> bool" where
  "exact h \<longleftrightarrow> unat (total_count h) = min u64_max (sum_counts (counts h))"

lemma wf_bump:
  assumes "wf h" and "unat v < capacity h"
  shows "wf (bump h v c)"
proof -
  note w = wfD [OF assms(1)]
  let ?cs = "(counts h)[h_index h (unat v) := saturating_add (counts h ! h_index h (unat v)) c]"
  let ?h = "h\<lparr>counts := ?cs\<rparr>" and ?g = "update_min_max (h\<lparr>counts := ?cs\<rparr>) v"
  have ex: "extremes_ok ?g"
    using w(6) by (intro extremes_ok_update_min_max w(2)) (auto simp: nth_list_update split: if_splits)
  have sz: "sized_ok ?g" using w(1) by simp
  have "max_value ?g = max_value h \<or> max_value ?g = v OR unit_magnitude_mask h"
    by (auto simp: update_min_max_def update_max_def update_min_def Let_def)
  moreover have "unat (v OR unit_magnitude_mask h) < capacity h"
    using assms(2) less_capacity_iff [OF w(3)] h_index_or_unit_mask [OF w(2)] by simp
  ultimately have "unat (max_value ?g) < capacity ?g" using w(5) by auto
  moreover have "0 < h_index ?g (unat (min_non_zero_value ?g))"
    using min_index_pos(2) [of ?h v] w(2,7) by simp
  ultimately show ?thesis
    using ex sz by (simp add: bump_def Let_def wf_def extremes_ok_def)
qed

lemma bump_fields [simp]:
  "auto_resize (bump h v c) = auto_resize h"
  "highest_trackable_value (bump h v c) = highest_trackable_value h"
  "lowest_discernible_value (bump h v c) = lowest_discernible_value h"
  "bucket_count (bump h v c) = bucket_count h"
  "length (counts (bump h v c)) = length (counts h)"
  "capacity (bump h v c) = capacity h" "h_index (bump h v c) = h_index h"
  by (simp_all add: bump_def Let_def)

lemma total_count_bump: "total_count (bump h v c) = saturating_add (total_count h) (ucast c)"
  by (simp add: bump_def Let_def)

lemma counts_bump: "counts (bump h v c) =
  (counts h)[h_index h (unat v) := saturating_add (counts h ! h_index h (unat v)) c]"
  by (simp add: bump_def Let_def)

lemma bin_count_less: "bin_count (h :: 'c::len word histogram) i < 2 ^ LENGTH('c)"
  by (simp add: bin_count_def)

lemma bin_count_bump:
  assumes "bins_ok h" and "unat (v::u64) < capacity h"
  shows "bin_count (bump h v c) =
    (bin_count h)(h_index h (unat v) :=
       min (2 ^ LENGTH('c) - 1) (bin_count h (h_index h (unat v)) + unat (c :: 'c::len word)))"
  using bump_in_bin [OF assms]
  by (auto simp: fun_eq_iff bin_count_def counts_bump nth_list_update unat_saturating_add)

lemma bin_count_grown:
  assumes "sized_ok h" and "capacity h \<le> unat hi"
  shows "bin_count (grown h hi) = bin_count h"
proof
  fix i
  note g = grown_facts [OF assms]
  show "bin_count (grown h hi) i = bin_count h i"
    using g(4) arg_cong [OF g(5), of "\<lambda>cs. cs ! i"]
    by (cases "i < length (counts (grown h hi))") (auto simp: bin_count_def nth_vec_resize)
qed

lemma exact_grown:
  assumes "sized_ok h" and "capacity h \<le> unat hi"
  shows "exact (grown h hi) \<longleftrightarrow> exact h"
  using grown_facts(4,11) [OF assms] sum_counts_vec_resize [of "counts h" "length (counts (grown h hi))"]
  by (simp add: exact_def grown_facts(5) [OF assms, symmetric])

text \<open>
  The total stays exact when the counts are 64 bits wide, or when the bin does not saturate.
\<close>

lemma exact_bump:
  assumes "exact h" and "LENGTH('c) \<le> 64" and "bins_ok h" and "unat v < capacity h"
    and "LENGTH('c) = 64 \<or> bin_count h (h_index h (unat v)) + unat c < 2 ^ LENGTH('c)"
  shows "exact (bump h v (c :: 'c::len word))"
proof -
  let ?i = "h_index h (unat v)"
  note i = bump_in_bin [OF assms(3,4)]
  have b: "bin_count h ?i = unat (counts h ! ?i)" using i by (simp add: bin_count_def)
  have c64: "unat c < 2 ^ 64"
  proof -
    have "unat c < 2 ^ LENGTH('c)" by simp
    also have "\<dots> \<le> 2 ^ 64" using assms(2) by (intro power_increasing) auto
    finally show ?thesis .
  qed
  have tot: "unat (total_count (bump h v c)) = min u64_max (unat (total_count h) + unat c)"
    using c64 by (simp add: total_count_bump unat_saturating_add_u64 unat_ucast_nat)
  have sum: "sum_counts (counts (bump h v c)) + unat (counts h ! ?i) =
    sum_counts (counts h) + min (2 ^ LENGTH('c) - 1) (unat (counts h ! ?i) + unat c)"
    using sum_counts_update [OF i] by (simp add: counts_bump unat_saturating_add)
  have le: "unat (counts h ! ?i) \<le> sum_counts (counts h)" by (rule nth_le_sum_counts [OF i])
  have "min u64_max (min u64_max (sum_counts (counts h)) + unat c) = min u64_max (sum_counts (counts (bump h v c)))"
  proof (cases "unat (counts h ! ?i) + unat c < 2 ^ LENGTH('c)")
    case True
    then have "sum_counts (counts (bump h v c)) = sum_counts (counts h) + unat c" using sum by simp
    then show ?thesis by (simp add: min_def)
  next
    case False
    then have "LENGTH('c) = 64" using assms(5) b by simp
    then have "u64_max \<le> sum_counts (counts (bump h v c))" 
      and "u64_max \<le> sum_counts (counts h) + unat c"
      using False sum le by (simp_all add: u64_max_def min_def split: if_splits)
    then show ?thesis by (simp add: min_def)
  qed
  then show ?thesis using assms(1) by (simp add: exact_def tot)
qed


section \<open>Recording one value\<close>

lemma record_n_OkE:
  assumes "record_n h v c = Ok h'" and "wf h"
  obtains g where "wf g" and "unat v < capacity g" and "h' = bump g v c" and "h_index g = h_index h"
    and "bin_count g = bin_count h" and "exact g \<longleftrightarrow> exact h" and "capacity h \<le> capacity g"
    and "g = h \<or> auto_resize h \<and> capacity h \<le> unat v \<and> g = grown h v"
proof (cases "unat v < capacity h")
  case True
  then show ?thesis
    using assms by (intro that [of h]) (simp_all add: record_n_def record_n_inner_eq wfD(1))
next
  case False
  then have le: "capacity h \<le> unat v" by simp
  note g = grown_facts [OF wfD(1) [OF assms(2)] le]
  from False have "auto_resize h" "h' = bump (grown h v) v c"
    using assms by (auto simp: record_n_def record_n_inner_eq wfD(1) split: if_splits)
  then show ?thesis
    using wf_grown [OF assms(2) le] g(2,3,6) le
      bin_count_grown [OF wfD(1) [OF assms(2)] le] exact_grown [OF wfD(1) [OF assms(2)] le]
    by (intro that [of "grown h v"]) simp_all
qed

lemma wf_record_n: "wf h \<Longrightarrow> record_n h v c = Ok h' \<Longrightarrow> wf h'"
  by (metis record_n_OkE wf_bump)

lemma record_n_bin_count:
  assumes "wf h" and "record_n h v (c :: 'c::len word) = Ok h'"
  shows "bin_count h' = (bin_count h)(h_index h (unat v) :=
    min (2 ^ LENGTH('c) - 1) (bin_count h (h_index h (unat v)) + unat c))"
  by (rule record_n_OkE [OF assms(2,1)]) (metis bin_count_bump wfD(3))

lemma record_n_total:
  assumes "wf h" and "record_n h v (c :: 'c::len word) = Ok h'"
  shows "total_count h' = saturating_add (total_count h) (ucast c)"
  by (rule record_n_OkE [OF assms(2,1)]) (metis total_count_bump grown_facts(11) wfD(1) assms(1))

lemma record_n_exact:
  assumes "wf h" and "record_n h v (c :: 'c::len word) = Ok h'" and "exact h"
    and "LENGTH('c) \<le> 64"
    and "LENGTH('c) = 64 \<or> bin_count h (h_index h (unat v)) + unat c < 2 ^ LENGTH('c)"
  shows "exact h'"
proof -
  obtain g where g: "wf g" "unat v < capacity g" "h' = bump g v c" "h_index g = h_index h"
    "bin_count g = bin_count h" "exact g \<longleftrightarrow> exact h"
    by (rule record_n_OkE [OF assms(2,1)])
  show ?thesis
    unfolding g(3) using g assms(3-5) by (intro exact_bump wfD(3)) auto
qed

lemma record_n_inner_clamp:
  assumes "sized_ok h"
  shows "record_n_inner h v c True =
    Ok (bump h (if unat v < capacity h then v else highest_trackable_value h) c)"
proof -
  note s = sized_okD [OF assms]
  have hi: "unat (highest_trackable_value h) < capacity h" by (rule highest_less_capacity [OF assms])
  then have "\<not> unat v < capacity h \<Longrightarrow> v > highest_trackable_value h"
    by (simp add: word_less_nat_alt)
  with hi show ?thesis
    by (cases "unat v < capacity h") (simp_all add: record_n_inner_def mut_at_eq [OF s(3)] bump_def Let_def)
qed

lemma wf_saturating_record_n: "wf h \<Longrightarrow> saturating_record_n h v c = Ok h' \<Longrightarrow> wf h'"
  using highest_less_capacity [OF wfD(1), of h]
  by (auto simp: saturating_record_n_def record_n_inner_clamp wfD(1) intro!: wf_bump)

section \<open>Recording with correction for coordinated omission\<close>

text \<open>The samples a corrected record stands for: the value, then a step less each, down to the interval.\<close>

definition correct_values :: "u64 \<Rightarrow> u64 \<Rightarrow> u64 list" where
  "correct_values v i =
     (if i = 0 then [v]
      else map (\<lambda>k. of_nat (unat v - k * unat i)) [0..<max 1 (unat v div unat i)])"

lemma capacity_foldl_bump: "capacity (foldl (\<lambda>h w. bump h w c) h ws) = capacity h"
  by (induction ws arbitrary: h) simp_all

lemma wf_foldl_bump:
  "wf h \<Longrightarrow> \<forall>w \<in> set ws. unat w < capacity h \<Longrightarrow> wf (foldl (\<lambda>h w. bump h w c) h ws)"
  by (induction ws arbitrary: h) (simp_all add: wf_bump)

lemma correct_loop_eq:
  assumes "wf h" and "i \<noteq> 0" and "unat m < capacity h"
  shows "correct_loop h m c i =
    Ok (foldl (\<lambda>h w. bump h w c) h (map (\<lambda>k. of_nat (unat m - k * unat i)) [0..<unat m div unat i]))"
  using assms
proof (induction h m c i rule: correct_loop.induct)
  case (1 h m c i)
  have i: "0 < unat i" using 1(3) by (simp add: unat_gt_0)
  show ?case
  proof (cases "m \<ge> i")
    case False
    then have "unat m div unat i = 0" by (simp add: word_le_nat_alt)
    with False show ?thesis by (simp add: correct_loop.simps)
  next
    case True
    let ?d = "unat (m - i) div unat i"
    have sub: "unat (m - i) = unat m - unat i" and le: "unat i \<le> unat m"
      using True by (simp_all add: unat_sub_nat word_le_nat_alt)
    then have d: "unat m div unat i = Suc ?d" using i by (simp add: le_div_geq)
    have "record_n_inner h m c False = Ok (bump h m c)"
      using 1(2,4) by (simp add: record_n_inner_eq wfD(1))
    moreover have "unat (m - i) < capacity (bump h m c)" using 1(4) sub by simp
    ultimately have "correct_loop h m c i = Ok (foldl (\<lambda>h w. bump h w c) (bump h m c)
        (map (\<lambda>k. of_nat (unat (m - i) - k * unat i)) [0..<?d]))"
      using 1(1) [of "bump h m c"] True wf_bump [OF 1(2,4)] 1(3)
      by (simp add: correct_loop.simps [of h m c i])
    also have "map (\<lambda>k. of_nat (unat (m - i) - k * unat i) :: u64) [0..<?d]
        = map (\<lambda>k. of_nat (unat m - k * unat i)) [Suc 0..<Suc ?d]"
      unfolding map_Suc_upt [symmetric] by (simp add: sub)
    finally show ?thesis
      unfolding d by (simp add: upt_conv_Cons del: upt_Suc)
  qed
qed

lemma record_n_correct_eq:
  assumes "wf h" and "record_n h v c = Ok h'"
  obtains g where "wf g" and "unat v < capacity g" and "h' = bump g v c"
    and "g = h \<or> auto_resize h \<and> capacity h \<le> unat v \<and> g = grown h v"
    and "record_n_correct h v c i = Ok (foldl (\<lambda>h w. bump h w c) g (correct_values v i))"
proof -
  obtain g where g: "wf g" "unat v < capacity g" "h' = bump g v c"
    "g = h \<or> auto_resize h \<and> capacity h \<le> unat v \<and> g = grown h v"
    by (rule record_n_OkE [OF assms(2,1)])
  let ?f = "foldl (\<lambda>h w. bump h w c)"
  have "record_n_correct h v c i = Ok (?f g (correct_values v i))"
  proof (cases "i = 0 \<or> v \<le> i")
    case True
    then have "unat v div unat i \<le> 1"
      using div_le_mono [of "unat v" "unat i" "unat i"] div_self [of "unat i"]
      by (cases "unat i = 0") (auto simp: word_le_nat_alt)
    then show ?thesis
      using True assms(2) g(3) by (auto simp: record_n_correct_def correct_values_def max_def not_less)
  next
    case False
    then have i: "i \<noteq> 0" "0 < unat i" "v > i" by (simp_all add: unat_gt_0 not_le)
    let ?d = "unat (v - i) div unat i"
    have sub: "unat (v - i) = unat v - unat i" and le: "unat i \<le> unat v"
      using i(3) by (simp_all add: unat_sub_nat word_le_nat_alt word_less_nat_alt)
    then have d: "max 1 (unat v div unat i) = Suc ?d" using i(2) by (simp add: le_div_geq)
    have "correct_loop (bump g v c) (v - i) c i = Ok (?f (bump g v c)
        (map (\<lambda>k. of_nat (unat (v - i) - k * unat i)) [0..<?d]))"
      using wf_bump [OF g(1,2)] i(1) g(2) sub by (intro correct_loop_eq) simp_all
    also have "map (\<lambda>k. of_nat (unat (v - i) - k * unat i) :: u64) [0..<?d]
        = map (\<lambda>k. of_nat (unat v - k * unat i)) [Suc 0..<Suc ?d]"
      unfolding map_Suc_upt [symmetric] by (simp add: sub)
    finally show ?thesis
      using i unfolding correct_values_def d
      by (simp add: record_n_correct_def assms(2) g(3) upt_conv_Cons del: upt_Suc)
  qed
  then show ?thesis using g by (intro that)
qed

section \<open>Clearing\<close>

lemma unit_mask_less_capacity: "layout_ok h \<Longrightarrow> unat (unit_magnitude_mask h) < capacity h"
proof -
  assume "layout_ok h"
  then have "unat (unit_magnitude_mask h) < 2 ^ um h" by (simp add: layout_okD(7))
  also have "\<dots> \<le> capacity h" unfolding capacity_def by (intro power_increasing) auto
  finally show ?thesis .
qed

lemma wf_clear: "wf h \<Longrightarrow> wf (clear h)"
  by (simp add: wf_def clear_def extremes_ok_def)

lemma wf_reset: "wf h \<Longrightarrow> wf (reset h)"
  using unit_mask_less_capacity [OF wfD(2)] h_index_minus_1_pos [OF wfD(2), of h]
  by (simp add: wf_def reset_def clear_def reset_max_def reset_min_def extremes_ok_def
      ORIGINAL_MAX_def ORIGINAL_MIN_def)

lemma wf_auto: "wf (auto h e) \<longleftrightarrow> wf h"
  by (simp add: wf_def auto_def extremes_ok_def)

lemma sum_counts_map_0 [simp]: "sum_counts (map (\<lambda>_. 0) xs) = 0"
  by (induction xs) auto

lemma bin_count_reset: "bin_count (reset h) = (\<lambda>_. 0)" "exact (reset h)"
  by (auto simp: bin_count_def exact_def reset_def clear_def reset_max_def reset_min_def fun_eq_iff)

section \<open>Recording a sequence of values\<close>

fun record_all ::
  "'c::len word histogram \<Rightarrow> u64 list \<Rightarrow> 'c word
    \<Rightarrow> (record_error \<times> 'c word histogram, 'c word histogram) res" where
  "record_all h [] c = Ok h"
| "record_all h (v # vs) c = bind_res (record_n h v c) (\<lambda>h. record_all h vs c)"

lemma record_all_bump:
  "wf h \<Longrightarrow> \<forall>w \<in> set ws. unat w < capacity h
    \<Longrightarrow> record_all h ws c = Ok (foldl (\<lambda>h w. bump h w c) h ws)"
  by (induction ws arbitrary: h) (simp_all add: record_n_def record_n_inner_eq wfD(1) wf_bump)

lemma correct_values_le: "w \<in> set (correct_values v i) \<Longrightarrow> unat w \<le> unat v"
proof -
  have "unat (of_nat (unat v - n) :: u64) \<le> unat v" for n
    using unat_u64_less [of v] by (simp add: unat_of_nat_less)
  then show "w \<in> set (correct_values v i) \<Longrightarrow> unat w \<le> unat v"
    by (auto simp: correct_values_def split: if_splits)
qed

lemma correct_values_Cons: "correct_values v i = v # tl (correct_values v i)"
  by (auto simp: correct_values_def upt_conv_Cons simp del: upt_Suc)

text \<open>Every way to record that succeeds is a sequence of bumps.\<close>

lemma recorded_bumps:
  assumes "wf h" and "exact h"
    and "record_n h v c = Ok h' \<or> saturating_record_n h v c = (Ok h' :: (unit, _) res) \<or>
      record_n_correct h v c i = Ok h'"
  obtains g ws where "wf g" and "exact g" and "\<forall>w \<in> set ws. unat w < capacity g"
    and "h' = foldl (\<lambda>h w. bump h w c) g ws"
  using assms(3)
proof (elim disjE)
  assume "record_n h v c = Ok h'"
  then obtain g where "wf g" "unat v < capacity g" "h' = bump g v c" "exact g \<longleftrightarrow> exact h"
    by (rule record_n_OkE [OF _ assms(1)])
  then show thesis using assms(2) by (intro that [of g "[v]"]) simp_all
next
  assume "saturating_record_n h v c = (Ok h' :: (unit, _) res)"
  moreover have "unat (highest_trackable_value h) < capacity h" by (rule highest_less_capacity [OF wfD(1) [OF assms(1)]])
  ultimately show thesis
    using assms(1,2) that [of h "[if unat v < capacity h then v else highest_trackable_value h]"]
    by (simp add: saturating_record_n_def record_n_inner_clamp wfD(1))
next
  assume r: "record_n_correct h v c i = Ok h'"
  then obtain h1 where "record_n h v c = Ok h1" by (auto simp: record_n_correct_def bind_res_eq_Ok)
  then obtain g where g: "wf g" "unat v < capacity g"
    "g = h \<or> auto_resize h \<and> capacity h \<le> unat v \<and> g = grown h v"
    "record_n_correct h v c i = Ok (foldl (\<lambda>h w. bump h w c) g (correct_values v i))"
    by (rule record_n_correct_eq [OF assms(1)])
  moreover have "exact g" using g(3) exact_grown [OF wfD(1) [OF assms(1)]] assms(2) by auto
  moreover have "\<forall>w \<in> set (correct_values v i). unat w < capacity g"
    using g(2) by (auto intro: le_less_trans [OF correct_values_le])
  ultimately show thesis using r by (intro that [of g "correct_values v i"]) simp_all
qed

lemma bin_count_le_foldl_bump:
  fixes h :: "'c::len word histogram"
  assumes "wf h" and "\<forall>w \<in> set ws. unat w < capacity h"
  shows "bin_count h j \<le> bin_count (foldl (\<lambda>h w. bump h w c) h ws) j"
  using assms
proof (induction ws arbitrary: h)
  case (Cons u ws)
  then have u: "unat u < capacity h" by simp
  have "bin_count h j \<le> bin_count (bump h u c) j"
    using bin_count_less [of h j] by (auto simp: bin_count_bump [OF wfD(3) [OF Cons.prems(1)] u])
  also have "\<dots> \<le> bin_count (foldl (\<lambda>h w. bump h w c) (bump h u c) ws) j"
    using Cons.prems(2) by (intro Cons.IH [OF wf_bump [OF Cons.prems(1) u]]) simp
  finally show ?case by simp
qed simp

lemma unat_all_ones: "unat (- 1 :: 'c::len word) = 2 ^ LENGTH('c) - 1"
  by transfer (simp add: mask_eq_exp_minus_1 nat_diff_distrib nat_power_eq)

lemma bin_count_not_max:
  fixes h :: "'c::len word histogram"
  assumes "\<forall>n \<in> set (counts h). n \<noteq> - 1" and "j < length (counts h)"
  shows "bin_count h j < 2 ^ LENGTH('c) - 1"
proof -
  have "counts h ! j \<noteq> - 1" using assms by simp
  then have "unat (counts h ! j) \<noteq> 2 ^ LENGTH('c) - 1" by (metis unat_all_ones word_unat_eq_iff)
  then have "bin_count h j \<noteq> 2 ^ LENGTH('c) - 1" using assms(2) by (simp add: bin_count_def)
  then show ?thesis using bin_count_less [of h j] by linarith
qed

lemma length_foldl_bump: "length (counts (foldl (\<lambda>h w. bump h w c) h ws)) = length (counts h)"
  by (induction ws arbitrary: h) (simp_all add: counts_bump)

lemma exact_foldl_bump:
  fixes h :: "'c::len word histogram"
  assumes "wf h" and "exact h" and "LENGTH('c) \<le> 64" and "\<forall>w \<in> set ws. unat w < capacity h"
    and "LENGTH('c) = 64 \<or> list_all (\<lambda>n. n \<noteq> - 1) (counts (foldl (\<lambda>h w. bump h w c) h ws))"
  shows "exact (foldl (\<lambda>h w. bump h w c) h ws)"
  using assms(1,2,4,5)
proof (induction ws arbitrary: h)
  case (Cons u ws)
  let ?f = "foldl (\<lambda>h w. bump h w c)" and ?j = "h_index h (unat u)"
  have u: "unat u < capacity h" using Cons.prems(3) by simp
  have w: "wf (bump h u c)" by (rule wf_bump [OF Cons.prems(1) u])
  have ws: "\<forall>w \<in> set ws. unat w < capacity (bump h u c)" using Cons.prems(3) by simp
  have "bin_count h ?j + unat c < 2 ^ LENGTH('c)" if n: "LENGTH('c) \<noteq> 64"
  proof -
    have "\<forall>n \<in> set (counts (?f (bump h u c) ws)). n \<noteq> - 1"
      using n Cons.prems(4) by (simp add: list_all_iff)
    then have "bin_count (?f (bump h u c) ws) ?j < 2 ^ LENGTH('c) - 1"
      using bump_in_bin [OF wfD(3) [OF Cons.prems(1)] u]
      by (intro bin_count_not_max) (simp_all add: length_foldl_bump counts_bump)
    then show ?thesis
      using bin_count_le_foldl_bump [OF w ws, of ?j c] by (simp add: bin_count_bump [OF wfD(3) [OF Cons.prems(1)] u])
  qed
  then have "exact (bump h u c)"
    using Cons.prems(2) assms(3) u by (intro exact_bump wfD(3) Cons.prems(1)) auto
  then show ?case using Cons.IH [OF w _ ws] Cons.prems(4) by simp
qed simp

section \<open>Properties\<close>

lemma exact_sample: "exact sample"
  by (simp add: sample_eq exact_def)

text \<open>
  C1. Recording, whole: on a well-formed histogram \<open>record_n\<close> never panics. It succeeds exactly
  when the value fits or the histogram may grow, keeps the invariant, adds the count to the bin
  of the value (saturating at the counter's width) and to no other bin, and adds it to the
  total. It fails only for a value out of range of a histogram that may not grow, and then
  leaves it untouched.
\<close>

theorem record_n_adds_to_one_bin:
  assumes "wf h"
  shows "case record_n h v (c :: 'c::len word) of
      Ok h' \<Rightarrow> (unat v < capacity h \<or> auto_resize h) \<and> wf h' \<and> unat v < capacity h' \<and>
        bin_count h' = (bin_count h)(h_index h (unat v) :=
          min (2 ^ LENGTH('c) - 1) (bin_count h (h_index h (unat v)) + unat c)) \<and>
        total_count h' = saturating_add (total_count h) (ucast c)
    | Err (e, h') \<Rightarrow> e = ValueOutOfRangeResizeDisabled \<and> h' = h \<and>
        \<not> auto_resize h \<and> capacity h \<le> unat v
    | Panic \<Rightarrow> False"
proof (cases "record_n h v c")
  case (Ok h')
  obtain g where g: "wf g" "unat v < capacity g" "h' = bump g v c"
    "g = h \<or> auto_resize h \<and> capacity h \<le> unat v \<and> g = grown h v"
    by (rule record_n_OkE [OF Ok assms])
  then have "unat v < capacity h \<or> auto_resize h" and "unat v < capacity h'" by auto
  then show ?thesis
    using wf_record_n [OF assms Ok] record_n_bin_count [OF assms Ok] record_n_total [OF assms Ok]
    by (simp add: Ok)
next
  case (Err p)
  then show ?thesis
    using assms by (cases p) (auto simp: record_n_def record_n_inner_eq wfD(1) split: if_splits)
next
  case Panic
  then show ?thesis
    using assms by (auto simp: record_n_def record_n_inner_eq wfD(1) split: if_splits)
qed

theorem record_n_adds_to_one_bin_witness:
  "case record_n sample 5 3 of
      Ok h' \<Rightarrow> (unat (5 :: u64) < capacity sample \<or> auto_resize sample) \<and> wf h' \<and>
        unat (5 :: u64) < capacity h' \<and>
        bin_count h' = (bin_count sample)(h_index sample (unat (5 :: u64)) :=
          min (2 ^ LENGTH(64) - 1) (bin_count sample (h_index sample (unat (5 :: u64))) + unat (3 :: u64))) \<and>
        total_count h' = saturating_add (total_count sample) (ucast (3 :: u64))
    | Err (e, h') \<Rightarrow> e = ValueOutOfRangeResizeDisabled \<and> h' = sample \<and>
        \<not> auto_resize sample \<and> capacity sample \<le> unat (5 :: u64)
    | Panic \<Rightarrow> False"
  by (rule record_n_adds_to_one_bin [OF wf_sample])

text \<open>
  C10. The total stays the sum of the counts (saturated at \<open>u64::MAX\<close>) through every recording that
  succeeds, by \<open>record_n\<close>, by the saturating form and by \<open>record_n_correct\<close>: for 64-bit counters always,
  for narrower ones if no bin has come to the largest value of the counter. (A bin that saturates there
  loses samples which the total counts.)
\<close>

theorem recording_keeps_total_exact:
  fixes h :: "'c::len word histogram"
  assumes "wf h" and "exact h" and "LENGTH('c) \<le> 64"
    and "record_n h v c = Ok h' \<or> saturating_record_n h v c = (Ok h' :: (unit, _) res) \<or>
      record_n_correct h v c interval = Ok h'"
    and "LENGTH('c) = 64 \<or> list_all (\<lambda>n. n \<noteq> - 1) (counts h')"
  shows "exact h'"
proof -
  obtain g ws where g: "wf g" "exact g" "\<forall>w \<in> set ws. unat w < capacity g" "h' = foldl (\<lambda>h w. bump h w c) g ws"
    using assms(4) by (elim disjE recorded_bumps [OF assms(1,2)]) 
  then show ?thesis using assms(3,5) by (auto intro: exact_foldl_bump)
qed

theorem recording_keeps_total_exact_witness:
  "exact (sample\<lparr>counts := [0, 0, 0, 3, 0, 0, 0, 0], total_count := 3, max_value := 5,
     min_non_zero_value := 5\<rparr>)"
proof (rule recording_keeps_total_exact [OF wf_sample exact_sample _ disjI1])
  show "record_n sample 5 3 = Ok (sample\<lparr>counts := [0, 0, 0, 3, 0, 0, 0, 0], total_count := 3,
      max_value := 5, min_non_zero_value := 5\<rparr>)"
    by (simp add: sample_eq record_n_def record_n_inner_def mut_at_def index_for_def bucket_for_def
        sub_bucket_for_def shl_def shr_def leading_zeros_def bit_len.simps to_usize_def usize_max_def
        saturating_add_def update_min_max_def update_max_def update_min_def Let_def)
qed simp_all

text \<open>
  C17. The saturating forms never fail and never panic: a value beyond the array is counted in the
  bin of the highest trackable value, and the invariant is kept.
\<close>

theorem saturating_record_n_clamps:
  assumes "wf h"
  shows "\<exists>h'. saturating_record_n h v (c :: 'c::len word) = (Ok h' :: (unit, _) res) \<and> wf h' \<and>
    (let w = if unat v < capacity h then v else highest_trackable_value h
     in bin_count h' = (bin_count h)(h_index h (unat w) :=
          min (2 ^ LENGTH('c) - 1) (bin_count h (h_index h (unat w)) + unat c)))"
proof -
  let ?w = "if unat v < capacity h then v else highest_trackable_value h"
  have "unat ?w < capacity h" using highest_less_capacity [OF wfD(1) [OF assms]] by simp
  from bin_count_bump [OF wfD(3) [OF assms] this, of c] wf_bump [OF assms this, of c]
  show ?thesis
    using assms by (simp add: saturating_record_n_def record_n_inner_clamp wfD(1) Let_def)
qed

theorem saturating_record_n_clamps_witness:
  "\<exists>h'. saturating_record_n sample 1000 3 = (Ok h' :: (unit, _) res) \<and> wf h' \<and>
    (let w = if unat (1000 :: u64) < capacity sample then 1000 else highest_trackable_value sample
     in bin_count h' = (bin_count sample)(h_index sample (unat w) :=
          min (2 ^ LENGTH(64) - 1) (bin_count sample (h_index sample (unat w)) + unat (3 :: u64))))"
  by (rule saturating_record_n_clamps [OF wf_sample])

text \<open>
  C18. Correction for coordinated omission: the loop ends, and is the recording, one after the
  other, of the value and of the value less 1, 2, ... intervals, down to the last one that is at
  least the interval. It never panics, fails only where recording the value itself fails (and
  then with the histogram untouched), and otherwise succeeds and keeps the invariant.
\<close>

theorem record_n_correct_fills_in:
  assumes "wf h"
  shows "record_n_correct h v c i = record_all h (correct_values v i) c \<and>
    (case record_n_correct h v c i of
      Ok h' \<Rightarrow> (unat v < capacity h \<or> auto_resize h) \<and> wf h'
    | Err (e, h') \<Rightarrow> record_n h v c = Err (e, h') \<and> h' = h
    | Panic \<Rightarrow> False)"
proof (cases "unat v < capacity h \<or> auto_resize h")
  case True
  then obtain h' where r: "record_n h v c = Ok h'"
    using assms by (cases "unat v < capacity h") (auto simp: record_n_def record_n_inner_eq wfD(1))
  then obtain g where g: "wf g" "unat v < capacity g" "h' = bump g v c"
      and eq: "record_n_correct h v c i = Ok (foldl (\<lambda>g w. bump g w c) g (correct_values v i))"
    by (rule record_n_correct_eq [OF assms])
  obtain ws where cv: "correct_values v i = v # ws"
    using correct_values_Cons [of v i] by blast
  have le: "\<forall>w \<in> set (correct_values v i). unat w < capacity g"
    using g(2) by (auto intro: le_less_trans [OF correct_values_le])
  have "record_all h (correct_values v i) c = record_all (bump g v c) ws c"
    by (simp add: cv r g(3))
  also have "\<dots> = Ok (foldl (\<lambda>g w. bump g w c) (bump g v c) ws)"
    using le wf_bump [OF g(1,2)] by (intro record_all_bump) (auto simp: cv)
  also have "\<dots> = record_n_correct h v c i"
    by (simp add: cv eq)
  finally show ?thesis
    using True eq wf_foldl_bump [OF g(1) le] by simp
next
  case False
  then have "record_n h v c = Err (ValueOutOfRangeResizeDisabled, h)"
    using assms by (simp add: record_n_def record_n_inner_eq wfD(1))
  moreover from this have "record_n_correct h v c i = Err (ValueOutOfRangeResizeDisabled, h)"
    by (simp add: record_n_correct_def)
  moreover have "record_all h (v # tl (correct_values v i)) c = Err (ValueOutOfRangeResizeDisabled, h)"
    by (simp add: calculation(1))
  ultimately show ?thesis by (simp flip: correct_values_Cons)
qed

theorem record_n_correct_fills_in_witness:
  "record_n_correct sample 50 1 20 = record_all sample (correct_values 50 20) 1
   \<and> correct_values 50 20 = [50, 30]"
  using record_n_correct_fills_in [OF wf_sample, of 50 1 20]
  by (simp add: correct_values_def upt_rec)

text \<open>\<open>reset\<close> empties every bin and the total and keeps the invariant.\<close>

theorem reset_empties:
  assumes "wf h"
  shows "wf (reset h) \<and> bin_count (reset h) = (\<lambda>_. 0) \<and> is_empty (reset h) \<and>
    min_non_zero_value (reset h) = ORIGINAL_MIN"
  using wf_reset [OF assms] bin_count_reset(1) [of h]
  by (simp add: is_empty_def reset_def clear_def reset_max_def reset_min_def ORIGINAL_MIN_def)

end
