(* ===== verification/Statistics.thy ===== *)
theory Statistics imports Recording begin
unbundle bit_operations_syntax

text \<open>
  The tracked statistics (\<open>lib.rs\<close>): \<open>min\<close>, \<open>max\<close>, \<open>min_nz\<close>, equality of histograms, and the
  proof that \<open>restat\<close> recomputes total and extremes from the counts, whatever they were.
\<close>

section \<open>Operations\<close>

definition hist_max :: "'c histogram \<Rightarrow> u64" where
  "hist_max h =
     (if max_value h = ORIGINAL_MAX then ORIGINAL_MAX else highest_equivalent h (max_value h))"

definition min_nz :: "'c histogram \<Rightarrow> u64" where
  "min_nz h =
     (if min_non_zero_value h = ORIGINAL_MIN then ORIGINAL_MIN
      else lowest_equivalent h (min_non_zero_value h))"

definition hist_min :: "'c::zero histogram \<Rightarrow> ('e, u64) res" where
  "hist_min h =
     (if total_count h = 0 then Ok 0
      else bind_res (expect (count_at_index h 0)) (\<lambda>c. if c \<noteq> 0 then Ok 0 else Ok (min_nz h)))"

text \<open>
  \<open>PartialEq\<close>: configuration, total, extremes, and every count of the first histogram, which the
  second must have too.
\<close>

definition hist_eq :: "'c histogram \<Rightarrow> 'c histogram \<Rightarrow> bool" where
  "hist_eq a b =
     (if lowest_discernible_value a \<noteq> lowest_discernible_value b
         \<or> significant_value_digits a \<noteq> significant_value_digits b then False
      else if total_count a \<noteq> total_count b then False
      else if hist_max a \<noteq> hist_max b then False
      else if min_nz a \<noteq> min_nz b then False
      else list_all (\<lambda>i. case count_at_index b i of Some c \<Rightarrow> counts a ! i = c | None \<Rightarrow> False)
             [0..<length (counts a)])"

section \<open>Ends of the ranges and indices\<close>

lemma h_index_highest_equivalent:
  assumes "layout_ok h"
  shows "h_index h (unat (highest_equivalent h v)) = h_index h (unat v)"
proof (cases "v = - 1")
  case False
  let ?u = "um h" and ?k = "hm h"
  have "unat (highest_equivalent h v) < bin_low ?u ?k (unat v) + bin_width ?u ?k (unat v)"
    using False bin_width_pos [of ?u ?k "unat v"]
    by (simp add: unat_highest_equivalent [OF assms] u64_max_def min_def)
  moreover have "bin_low ?u ?k (unat v) \<le> unat (highest_equivalent h v)"
    using bin_low_le [of ?u ?k "unat v"] le_highest_equivalent [OF assms, of v]
    by (simp add: word_le_nat_alt)
  ultimately show ?thesis by (simp add: h_index_word [OF assms] bin_low_high_same)
qed (simp add: highest_equivalent_def)

lemma h_index_lowest_equivalent:
  "layout_ok h \<Longrightarrow> h_index h (unat (lowest_equivalent h v)) = h_index h (unat v)"
  by (metis h_index_word unat_lowest_equivalent bin_index_low)

lemma h_index_0 [simp]: "layout_ok h \<Longrightarrow> h_index h 0 = 0"
  using h_index_unit_0 [of h 0] by simp

lemma h_index_hist_max: "layout_ok h \<Longrightarrow> h_index h (unat (hist_max h)) = h_index h (unat (max_value h))"
  by (simp add: hist_max_def h_index_highest_equivalent ORIGINAL_MAX_def)

lemma h_index_min_nz: "layout_ok h \<Longrightarrow> h_index h (unat (min_nz h)) = h_index h (unat (min_non_zero_value h))"
  by (simp add: min_nz_def h_index_lowest_equivalent)

lemma hist_max_less_capacity:
  assumes "wf h"
  shows "unat (hist_max h) < capacity h"
  using wfD(5) [OF assms] by (simp add: less_capacity_iff wfD(3) [OF assms] h_index_hist_max wfD(2) [OF assms])

lemma h_index_h_value:
  assumes "bins_ok h" and "i < length (counts h)"
  shows "h_index h (unat (of_nat (h_value h i) :: u64)) = i"
    and "unat (of_nat (h_value h i) :: u64) = h_value h i"
proof -
  show u: "unat (of_nat (h_value h i) :: u64) = h_value h i"
    using value_for_bins(2,3) [OF assms] by (simp add: unat_of_nat_less)
  then show "h_index h (unat (of_nat (h_value h i) :: u64)) = i"
    using assms by (simp add: bins.index_val)
qed

section \<open>Scanning the counts\<close>

lemma unat_ucast_count:
  "LENGTH('c) \<le> 64 \<Longrightarrow> unat (ucast (c :: 'c::len word) :: u64) = unat c"
  using unat_as_u64 [of c] by simp

lemma scan_counts_total:
  "LENGTH('c) \<le> 64 \<Longrightarrow> unat (rs_total_count (scan_counts i (cs :: 'c::len word list) s))
    = min u64_max (unat (rs_total_count s) + sum_counts cs)"
proof (induction cs arbitrary: i s)
  case Nil
  then show ?case using unat_le_u64_max [of "rs_total_count s"] by simp
next
  case (Cons c cs)
  have "unat (rs_total_count (if c \<noteq> 0 then on_nonzero_count i c s else s))
      = min u64_max (unat (rs_total_count s) + unat c)"
    using Cons.prems unat_le_u64_max [of "rs_total_count s"]
    by (simp add: on_nonzero_count_def Let_def unat_saturating_add_u64 unat_ucast_count)
  then show ?case using Cons by (simp add: min_def)
qed

lemma scan_counts_zero: "\<forall>c \<in> set cs. c = 0 \<Longrightarrow> scan_counts i cs s = s"
  by (induction cs arbitrary: i) simp_all

lemma scan_counts_max:
  shows "max_index (scan_counts i cs s) = Some m \<Longrightarrow>
      max_index s = Some m \<or> i \<le> m \<and> m < i + length cs \<and> cs ! (m - i) \<noteq> 0"
    and "j < length cs \<Longrightarrow> cs ! j \<noteq> 0 \<Longrightarrow> \<exists>m. max_index (scan_counts i cs s) = Some m \<and> i + j \<le> m"
proof (induction cs arbitrary: i j s m)
  case (Cons c cs)
  have mx: "max_index (if c \<noteq> 0 then on_nonzero_count i c s else s) = (if c \<noteq> 0 then Some i else max_index s)" for i s
    by (simp add: on_nonzero_count_def Let_def)
  {
    case 1
    let ?s = "if c \<noteq> 0 then on_nonzero_count i c s else s"
    from 1 have "max_index (scan_counts (Suc i) cs ?s) = Some m" by (simp only: scan_counts.simps)
    then have "max_index ?s = Some m \<or> Suc i \<le> m \<and> m < Suc i + length cs \<and> cs ! (m - Suc i) \<noteq> 0"
      by (rule Cons.IH(1))
    then show ?case using mx by (auto simp: nth_Cons' split: if_splits)
  next
    case 2
    let ?s = "if c \<noteq> 0 then on_nonzero_count i c s else s"
    show ?case
    proof (cases j)
      case 0
      then have "c \<noteq> 0" using 2 by simp
      show ?thesis
      proof (cases "max_index (scan_counts (Suc i) cs ?s)")
        case None
        have nz: "\<forall>k < length cs. cs ! k = 0" using Cons.IH(2) [of _ "Suc i" ?s] None by force
        then have "\<forall>c \<in> set cs. c = 0" by (auto simp: in_set_conv_nth)
        from scan_counts_zero [OF this] show ?thesis using None mx \<open>c \<noteq> 0\<close> by simp
      next
        case (Some m)
        with Cons.IH(1) [OF Some] show ?thesis using mx \<open>c \<noteq> 0\<close> 0 by auto
      qed
    next
      case (Suc k)
      then show ?thesis using 2 Cons.IH(2) [of k "Suc i" ?s] by auto
    qed
  }
qed auto

lemma scan_counts_min_keep: "min_index s = Some m \<Longrightarrow> min_index (scan_counts i cs s) = Some m"
  by (induction cs arbitrary: i s) (simp_all add: on_nonzero_count_def Let_def)

lemma scan_counts_min:
  shows "min_index (scan_counts i cs s) = Some m \<Longrightarrow>
      min_index s = Some m \<or> 0 < m \<and> i \<le> m \<and> m < i + length cs \<and> cs ! (m - i) \<noteq> 0"
    and "j < length cs \<Longrightarrow> cs ! j \<noteq> 0 \<Longrightarrow> 0 < i + j \<Longrightarrow> min_index s = None \<Longrightarrow>
      \<exists>m. min_index (scan_counts i cs s) = Some m \<and> m \<le> i + j"
proof (induction cs arbitrary: i j s m)
  case (Cons c cs)
  have mn: "min_index (if c \<noteq> 0 then on_nonzero_count i c s else s) = (if c \<noteq> 0 \<and> i \<noteq> 0 \<and> min_index s = None then Some i else min_index s)" for i s
    by (auto simp: on_nonzero_count_def Let_def)
  {
    case 1
    let ?s = "if c \<noteq> 0 then on_nonzero_count i c s else s"
    from 1 have "min_index (scan_counts (Suc i) cs ?s) = Some m" by (simp only: scan_counts.simps)
    then have "min_index ?s = Some m \<or> 0 < m \<and> Suc i \<le> m \<and> m < Suc i + length cs \<and> cs ! (m - Suc i) \<noteq> 0"
      by (rule Cons.IH(1))
    then show ?case using mn by (auto simp: nth_Cons' split: if_splits)
  next
    case 2
    let ?s = "if c \<noteq> 0 then on_nonzero_count i c s else s"
    show ?case
    proof (cases "min_index ?s")
      case None
      show ?thesis
      proof (cases j)
        case 0
        then show ?thesis using None mn 2 by (auto split: if_splits)
      next
        case (Suc k)
        then show ?thesis using 2 Cons.IH(2) [of k "Suc i" ?s] None by auto
      qed
    next
      case (Some m)
      then have "m = i" using mn 2 by (auto split: if_splits)
      then have "\<exists>m. min_index (scan_counts (Suc i) cs ?s) = Some m \<and> m \<le> i + j"
        by (intro exI [of _ m] conjI scan_counts_min_keep [OF Some]) simp
      then show ?thesis by (simp only: scan_counts.simps)
    qed
  }
qed auto

section \<open>The statistics after restat\<close>

text \<open>What \<open>restat\<close> promises: the counts as they were, the total their sum, the extremes tight.\<close>

definition restated :: "'c::len word histogram \<Rightarrow> 'c word histogram \<Rightarrow> bool" where
  "restated h h' \<longleftrightarrow>
     counts h' = counts h \<and> wf h' \<and> exact h' \<and>
     highest_trackable_value h' = highest_trackable_value h \<and>
     auto_resize h' = auto_resize h \<and>
     lowest_discernible_value h' = lowest_discernible_value h \<and>
     significant_value_digits h' = significant_value_digits h \<and>
     (\<forall>i < length (counts h). counts h ! i \<noteq> 0 \<longrightarrow>
        i \<le> h_index h' (unat (hist_max h')) \<and> (0 < i \<longrightarrow> h_index h' (unat (min_nz h')) \<le> i)) \<and>
     (h_index h' (unat (hist_max h')) = 0 \<or> counts h ! h_index h' (unat (hist_max h')) \<noteq> 0) \<and>
     (min_nz h' = ORIGINAL_MIN \<or> counts h ! h_index h' (unat (min_nz h')) \<noteq> 0)"

lemma update_min_Some:
  assumes "layout_ok h" and "min_non_zero_value h = - 1" and "0 < h_index h (unat v)"
  shows "h_index h (unat (min_non_zero_value (update_min h v))) = h_index h (unat v)"
proof -
  have gt: "v > unit_magnitude_mask h" using assms(1,3) h_index_pos_iff by blast
  let ?w = "v AND NOT (unit_magnitude_mask h)"
  have "min_non_zero_value (update_min h v) = (if ?w < - 1 then ?w else - 1)"
    using gt assms(2) by (auto simp: update_min_def Let_def not_le)
  moreover have "?w < - 1 \<or> ?w = - 1" using word_order.extremum [of ?w] by (simp add: less_le)
  ultimately have "min_non_zero_value (update_min h v) = ?w" by auto
  then show ?thesis using h_index_and_not_unit_mask [OF assms(1)] by simp
qed

lemma reset_extremes [simp]:
  "layout_ok (reset_min (reset_max h a) b) = layout_ok h"
  "sized_ok (reset_min (reset_max h a) b) = sized_ok h"
  "bins_ok (reset_min (reset_max h a) b) = bins_ok h"
  "capacity (reset_min (reset_max h a) b) = capacity h"
  "h_index (reset_min (reset_max h a) b) = h_index h"
  "h_value (reset_min (reset_max h a) b) = h_value h"
  "highest_equivalent (reset_min (reset_max h a) b) = highest_equivalent h"
  "counts (reset_min (reset_max h a) b) = counts h"
  "highest_trackable_value (reset_min (reset_max h a) b) = highest_trackable_value h"
  "auto_resize (reset_min (reset_max h a) b) = auto_resize h"
  "lowest_discernible_value (reset_min (reset_max h a) b) = lowest_discernible_value h"
  "significant_value_digits (reset_min (reset_max h a) b) = significant_value_digits h"
  by (simp_all add: reset_min_def reset_max_def bins_ok_def)

lemma bins_ok_update [simp]:
  "bins_ok (h\<lparr>max_value := x3\<rparr>) = bins_ok h"
  "bins_ok (h\<lparr>min_non_zero_value := x4\<rparr>) = bins_ok h"
  "bins_ok (h\<lparr>total_count := x5\<rparr>) = bins_ok h"
  "bins_ok (update_max h v) = bins_ok h"
  "bins_ok (update_min h v) = bins_ok h"
  by (simp_all add: bins_ok_def update_max_def update_min_def Let_def)

lemma h_value_update_max [simp]: "h_value (update_max h v) = h_value h"
  by (simp add: update_max_def Let_def)

text \<open>What the scan of all counts finds, and the extremes \<open>update_histogram\<close> derives from it.\<close>

lemma scan_counts_new:
  defines "r cs \<equiv> scan_counts 0 cs restat_new"
  shows "max_index (r cs) = Some m \<Longrightarrow> m < length cs \<and> cs ! m \<noteq> 0"
    and "min_index (r cs) = Some m \<Longrightarrow> 0 < m \<and> m < length cs \<and> cs ! m \<noteq> 0"
    and "j < length cs \<Longrightarrow> cs ! j \<noteq> 0 \<Longrightarrow> \<exists>m. max_index (r cs) = Some m \<and> j \<le> m"
    and "j < length cs \<Longrightarrow> cs ! j \<noteq> 0 \<Longrightarrow> 0 < j \<Longrightarrow> \<exists>m. min_index (r cs) = Some m \<and> m \<le> j"
  using scan_counts_max(1) [of 0 cs restat_new m] scan_counts_min(1) [of 0 cs restat_new m]
    scan_counts_max(2) [of j cs 0 restat_new] scan_counts_min(2) [of j cs 0 restat_new]
  by (simp_all add: r_def restat_new_def)

lemma update_histogram_extremes:
  fixes h :: "'c::len word histogram"
  assumes "sized_ok h" and "min_non_zero_value h = - 1" and "h_index h (unat (max_value h)) = 0"
  defines "r \<equiv> scan_counts 0 (counts h) restat_new"
  obtains mx mn where
    "update_histogram r h = (Ok (h\<lparr>max_value := mx, min_non_zero_value := mn, total_count := rs_total_count r\<rparr>) :: ('e, _) res)"
    and "h_index h (unat mx) = (case max_index r of None \<Rightarrow> 0 | Some m \<Rightarrow> m)"
    and "case min_index r of None \<Rightarrow> mn = - 1 | Some m \<Rightarrow> h_index h (unat mn) = m"
proof -
  note s = sized_okD [OF assms(1)] and r = scan_counts_new [where cs = "counts h", folded r_def]
  define h2 where "h2 = (case max_index r of None \<Rightarrow> h
    | Some m \<Rightarrow> update_max h (highest_equivalent h (of_nat (h_value h m))))"
  have h2: "layout_ok h2" "bins_ok h2" "h_index h2 = h_index h" "h_value h2 = h_value h"
    "counts h2 = counts h" "min_non_zero_value h2 = - 1" "h2 = h\<lparr>max_value := max_value h2\<rparr>"
    using assms(2) s(1,3) by (simp_all add: h2_def update_max_def Let_def split: option.split)
  define h3 where "h3 = (case min_index r of None \<Rightarrow> h2 | Some m \<Rightarrow> update_min h2 (of_nat (h_value h m)))"
  have h3: "h3 = h\<lparr>max_value := max_value h2, min_non_zero_value := min_non_zero_value h3\<rparr>"
    by (subst h2(7)) (simp add: h3_def update_min_def Let_def split: option.split, simp flip: h2(7))
  have v1: "max_index r = Some m \<Longrightarrow> value_for h m = (Ok (of_nat (h_value h m)) :: ('e, u64) res)" for m
    using value_for_bins(4) [OF s(3), of m] r(1) by simp
  have v2: "min_index r = Some m \<Longrightarrow> value_for h2 m = (Ok (of_nat (h_value h m)) :: ('e, u64) res)" for m
    using value_for_bins(4) [OF h2(2), of m] r(2) h2(4,5) by simp
  show thesis
  proof (rule that)
    show "update_histogram r h = (Ok (h\<lparr>max_value := max_value h2, min_non_zero_value := min_non_zero_value h3,
        total_count := rs_total_count r\<rparr>) :: ('e, _) res)"
      using v1 v2 unfolding h3 [symmetric] update_histogram_def
      by (auto simp: h2_def h3_def split: option.split)
    show "h_index h (unat (max_value h2)) = (case max_index r of None \<Rightarrow> 0 | Some m \<Rightarrow> m)"
      using h_index_update_max [OF s(1)] assms(3) r(1) h_index_h_value(1) [OF s(3)]
        h_index_highest_equivalent [OF s(1)]
      by (simp add: h2_def split: option.split)
    show "case min_index r of None \<Rightarrow> min_non_zero_value h3 = - 1 | Some m \<Rightarrow> h_index h (unat (min_non_zero_value h3)) = m"
      using update_min_Some [OF h2(1,6), unfolded h2(3)] h2(6) r(2) h_index_h_value(1) [OF s(3)]
      by (simp add: h3_def split: option.split)
  qed
qed

lemma update_histogram_restated:
  fixes h :: "'c::len word histogram"
  assumes "sized_ok h" and "LENGTH('c) \<le> 64" and "min_non_zero_value h = - 1"
    and "h_index h (unat (max_value h)) = 0"
  obtains h' where "update_histogram (scan_counts 0 (counts h) restat_new) h = (Ok h' :: ('e, 'c word histogram) res)"
    and "restated h h'"
proof -
  note s = sized_okD [OF assms(1)] and r = scan_counts_new [where cs = "counts h"]
  let ?n = "length (counts h)" and ?r = "scan_counts 0 (counts h) restat_new"
  obtain mx mn where res: "update_histogram ?r h =
      (Ok (h\<lparr>max_value := mx, min_non_zero_value := mn, total_count := rs_total_count ?r\<rparr>) :: ('e, _) res)"
    and mxi: "h_index h (unat mx) = (case max_index ?r of None \<Rightarrow> 0 | Some m \<Rightarrow> m)"
    and mni: "case min_index ?r of None \<Rightarrow> mn = - 1 | Some m \<Rightarrow> h_index h (unat mn) = m"
    by (rule update_histogram_extremes [OF assms(1,3,4)])
  let ?h' = "h\<lparr>max_value := mx, min_non_zero_value := mn, total_count := rs_total_count ?r\<rparr>"
  have h': "sized_ok ?h'" "layout_ok ?h'" "bins_ok ?h'" using assms(1) s by simp_all
  have tot: "exact ?h'"
    using scan_counts_total [OF assms(2), of 0 "counts h" restat_new] by (simp add: exact_def restat_new_def)
  have up: "j < ?n \<Longrightarrow> counts h ! j \<noteq> 0 \<Longrightarrow> j \<le> h_index h (unat mx)" for j
    using r(3) [of j] mxi by auto
  have lo: "j < ?n \<Longrightarrow> counts h ! j \<noteq> 0 \<Longrightarrow> 0 < j \<Longrightarrow> h_index h (unat mn) \<le> j" for j
    using r(4) [of j] mni by auto
  have mn0: "0 < h_index h (unat mn)"
    using mni r(2) h_index_minus_1_pos [OF s(1)] by (auto split: option.splits)
  have "h_index h (unat mx) < ?n"
    using mxi r(1) length_counts_pos [OF s(3)] by (auto split: option.split)
  then have "unat mx < capacity h" using less_capacity_iff [OF s(3)] by simp
  then have w: "wf ?h'" using h' up lo mn0 by (simp add: wf_def extremes_ok_def)
  have mn: "min_nz ?h' = ORIGINAL_MIN \<or> counts h ! h_index h (unat mn) \<noteq> 0"
    using mni r(2) by (auto simp: min_nz_def ORIGINAL_MIN_def split: option.splits)
  have mx: "h_index h (unat mx) = 0 \<or> counts h ! h_index h (unat mx) \<noteq> 0"
    using mxi r(1) by (auto split: option.split)
  have "restated h ?h'"
    unfolding restated_def h_index_hist_max [OF h'(2)] h_index_min_nz [OF h'(2)]
    using w tot up lo mx mn by simp
  then show thesis using res that by blast
qed

lemma restat_restated:
  assumes "sized_ok h" and "LENGTH('c) \<le> 64"
  obtains h' where "restat h (length (counts h)) = (Ok h' :: ('e, 'c::len word histogram) res)"
    and "restated h h'"
proof -
  define h1 where "h1 = reset_min (reset_max h ORIGINAL_MAX) ORIGINAL_MIN"
  have h1: "sized_ok h1" "counts h1 = counts h" "min_non_zero_value h1 = - 1" "max_value h1 = unit_magnitude_mask h"
    using assms(1) by (simp_all add: h1_def) (simp_all add: reset_min_def reset_max_def ORIGINAL_MIN_def ORIGINAL_MAX_def)
  have "h_index h1 (unat (max_value h1)) = 0"
    using h_index_unit_0 [OF sized_okD(1) [OF assms(1)], of "unit_magnitude_mask h"] h1(4) by (simp add: h1_def)
  from update_histogram_restated [OF h1(1) assms(2) h1(3) this] obtain h' where
    "update_histogram (scan_counts 0 (counts h1) restat_new) h1 = (Ok h' :: ('e, 'c word histogram) res)" "restated h1 h'" .
  moreover have "restated h1 h' \<longleftrightarrow> restated h h'" by (simp add: restated_def h1_def)
  ultimately show thesis using h1(2) by (intro that [of h']) (simp_all add: restat_def Let_def h1_def)
qed

section \<open>Properties\<close>

text \<open>
  C19. \<open>restat\<close> on a histogram whose layout and array length are right, whatever its counts and
  its stale statistics: it never panics, leaves the counts alone, and makes the total the
  (saturated) sum of the counts, the maximum the top of the last non-empty bin, and the least
  non-zero value the bottom of the first non-empty bin above bin 0; the result is well-formed.
\<close>

theorem restat_recomputes:
  assumes "sized_ok h" and "LENGTH('c) \<le> 64"
  shows "\<exists>h'. restat h (length (counts h)) = (Ok h' :: (unit, 'c::len word histogram) res) \<and> restated h h'"
  using restat_restated [OF assms] by blast

theorem restat_recomputes_witness:
  "\<exists>h'. restat (sample\<lparr>counts := [0, 2, 0, 3, 0, 0, 0, 0]\<rparr>) 8 = (Ok h' :: (unit, u64 histogram) res)
    \<and> restated (sample\<lparr>counts := [0, 2, 0, 3, 0, 0, 0, 0]\<rparr>) h'"
proof -
  let ?h = "sample\<lparr>counts := [0, 2, 0, 3, 0, 0, 0, 0]\<rparr>"
  have "length [0, 2, 0, 3, 0, 0, 0, 0 :: u64] = length (counts sample)" by (simp add: sample_eq)
  then have "sized_ok ?h" using wfD(1) [OF wf_sample] by (simp only: sized_ok_update)
  from restat_recomputes [OF this] show ?thesis by (simp add: numeral_eq_Suc)
qed

text \<open>
  A snapshot of a valid configuration whose counts have the configuration's length becomes a
  well-formed histogram with exactly these counts and recomputed statistics.
\<close>

theorem new_from_snapshot_restores:
  assumes "new_with_bounds (lowest_trackable_value s) (snapshot_highest_trackable_value s)
      (significant_figures s) = (Ok h :: (creation_error, 'c::len word histogram) res)"
    and "length (snapshot_counts s) = length (counts h)" and "LENGTH('c) \<le> 64"
  shows "\<exists>h'. new_from_snapshot s = Ok h' \<and> restated (h\<lparr>counts := snapshot_counts s\<rparr>) h' \<and>
    high h' = snapshot_highest_trackable_value s"
proof -
  have "sized_ok (h\<lparr>counts := snapshot_counts s\<rparr>)"
    using wfD(1) [OF new_with_bounds_wf [OF assms(1)]] assms(2) by simp
  from restat_restated [OF this assms(3)] obtain h' where
    h': "restat (h\<lparr>counts := snapshot_counts s\<rparr>) (length (snapshot_counts s)) = (Ok h' :: (creation_error, 'c word histogram) res)"
      "restated (h\<lparr>counts := snapshot_counts s\<rparr>) h'" by auto
  moreover have "highest_trackable_value h = snapshot_highest_trackable_value s"
    using assms(1) by (auto simp: new_with_bounds_eq fresh_def Let_def split: if_splits)
  ultimately show ?thesis
    using h'(2) by (auto simp: new_from_snapshot_def assms(1) restated_def high_def)
qed

lemma new_with_bounds_sample: "new_with_bounds 1 100 0 = Ok sample"
  by (simp add: new_with_bounds_eq sample_def eval_layout)

theorem new_from_snapshot_restores_witness:
  "\<exists>h'. new_from_snapshot \<lparr>lowest_trackable_value = 1, snapshot_highest_trackable_value = 100,
      significant_figures = 0, snapshot_counts = [0, 2, 0, 3, 0, 0, 0, 0]\<rparr> = Ok h' \<and>
    restated (sample\<lparr>counts := [0, 2, 0, 3, 0, 0, 0, 0]\<rparr>) h' \<and> high h' = 100"
  using new_from_snapshot_restores [of "\<lparr>lowest_trackable_value = 1, snapshot_highest_trackable_value = 100,
      significant_figures = 0, snapshot_counts = [0, 2, 0, 3, 0, 0, 0, 0]\<rparr>" sample] new_with_bounds_sample
  by (simp add: sample_eq)

text \<open>
  The snapshot's counts are not checked against its configuration: a snapshot without counts
  yields a histogram, and the first operation that looks for its last bin (as \<open>add\<close>,
  \<open>subtract\<close> and every query by value do) panics.
\<close>

theorem snapshot_without_counts_panics:
  "\<exists>h. new_from_snapshot \<lparr>lowest_trackable_value = 1, snapshot_highest_trackable_value = 100,
      significant_figures = 0, snapshot_counts = [] :: u64 list\<rparr> = Ok h \<and>
    last_index h = (Panic :: (unit, nat) res) \<and> index_for_or_last h v = (Panic :: (unit, nat) res)"
  by (simp add: new_from_snapshot_def new_with_bounds_sample sample_eq restat_def reset_min_def
      reset_max_def update_histogram_def restat_new_def last_index_def distinct_values_def
      index_for_or_last_def Let_def)

end
