(* ===== verification/Combining.thy ===== *)
theory Combining imports Statistics begin
unbundle bit_operations_syntax

text \<open>
  Adding and subtracting histograms (\<open>lib.rs\<close>): \<open>add\<close>, \<open>subtract\<close>, \<open>set_to\<close>, \<open>clone\<close>, the
  operators and \<open>Sum\<close>. Two histograms of one layout are added bin by bin; otherwise every
  non-empty bin is recorded anew under its lowest value.
\<close>

section \<open>Addition\<close>

text \<open>The loop over equal layouts; \<open>counts[i]\<close> out of range panics.\<close>

fun add_counts :: "nat \<Rightarrow> 'c::len word list \<Rightarrow> 'c word list \<Rightarrow> u64 \<Rightarrow> ('e, 'c word list \<times> u64) res" where
  "add_counts i [] cs observed = Ok (cs, observed)"
| "add_counts i (other_count # rest) cs observed =
     (if other_count \<noteq> 0 then
        (if i < length cs
         then add_counts (Suc i) rest (cs[i := saturating_add (cs ! i) other_count])
                (saturating_add observed (as_u64 other_count))
         else Panic)
      else add_counts (Suc i) rest cs observed)"

definition add_same ::
  "'c::len word histogram \<Rightarrow> 'c word histogram \<Rightarrow> ('e, 'c word histogram) res" where
  "add_same h source =
     bind_res (add_counts 0 (counts source) (counts h) 0) (\<lambda>(cs, observed).
       let h1 = h\<lparr>counts := cs, total_count := saturating_add (total_count h) observed\<rparr>;
           mx = hist_max source;
           h2 = (if mx > hist_max h1 then update_max h1 mx else h1);
           mn = min_nz source;
           h3 = (if mn < min_nz h2 then update_min h2 mn else h2)
       in Ok h3)"

text \<open>The loop over different layouts, for the indices below \<open>other_max_index\<close>.\<close>

fun add_bins ::
  "'c::len word histogram \<Rightarrow> 'c word histogram \<Rightarrow> nat list \<Rightarrow> ('e, 'c word histogram) res" where
  "add_bins h source [] = Ok h"
| "add_bins h source (i # rest) =
     bind_res (expect (count_at_index source i)) (\<lambda>other_count.
       if other_count \<noteq> 0
       then bind_res (value_for source i) (\<lambda>v.
            bind_res (unwrap_res (record_n h v other_count)) (\<lambda>h'. add_bins h' source rest))
       else add_bins h source rest)"

definition add_other ::
  "'c::len word histogram \<Rightarrow> 'c word histogram \<Rightarrow> ('e, 'c word histogram) res" where
  "add_other h source =
     bind_res (expect (index_for source (hist_max source))) (\<lambda>other_max_index.
     bind_res (expect (count_at_index source other_max_index)) (\<lambda>other_count.
     bind_res (value_for source other_max_index) (\<lambda>v.
     bind_res (unwrap_res (record_n h v other_count)) (\<lambda>h'.
       add_bins h' source [0..<other_max_index]))))"

definition add ::
  "'c::len word histogram \<Rightarrow> 'c word histogram
    \<Rightarrow> (addition_error \<times> 'c word histogram, 'c word histogram) res" where
  "add h source =
     bind_res (last_index h) (\<lambda>last. bind_res (value_for h last) (\<lambda>v.
       let top = highest_equivalent h v
       in bind_res
            (if top < hist_max source then
               (if \<not> auto_resize h then Err (OtherAddendValueExceedsRange, h)
                else map_err (\<lambda>(_, h'). (AddResizeFailedUsizeTypeTooSmall, h'))
                       (resize h (hist_max source)))
             else Ok h)
            (\<lambda>h1. if bucket_count h1 = bucket_count source
                     \<and> sub_bucket_count h1 = sub_bucket_count source
                     \<and> unit_magnitude h1 = unit_magnitude source
                  then add_same h1 source else add_other h1 source)))"

section \<open>Subtraction\<close>

fun subtract_bins ::
  "u64 \<Rightarrow> u64 \<Rightarrow> 'c::len word histogram \<Rightarrow> bool \<Rightarrow> 'c word histogram \<Rightarrow> nat list
    \<Rightarrow> (subtraction_error \<times> 'c word histogram, 'c word histogram \<times> bool) res" where
  "subtract_bins old_min_high old_max_low h needs_restat subtrahend [] = Ok (h, needs_restat)"
| "subtract_bins old_min_high old_max_low h needs_restat subtrahend (i # rest) =
     bind_res (expect (count_at_index subtrahend i)) (\<lambda>other_count.
       if other_count \<noteq> 0 then
         bind_res (value_for subtrahend i) (\<lambda>other_value.
         bind_res (expect (mut_at h other_value)) (\<lambda>j.
         bind_res (ok_or (SubtrahendCountExceedsMinuendCount, h)
                     (checked_sub (counts h ! j) other_count)) (\<lambda>c.
         let h1 = h\<lparr>counts := (counts h)[j := c]\<rparr>;
             needs = needs_restat \<or> other_value \<le> old_min_high \<or> other_value \<ge> old_max_low
         in bind_res
              (if needs then Ok h1
               else bind_res (expect (checked_sub (total_count h1) (as_u64 other_count)))
                      (\<lambda>t. Ok (h1\<lparr>total_count := t\<rparr>)))
              (\<lambda>h2. subtract_bins old_min_high old_max_low h2 needs subtrahend rest))))
       else subtract_bins old_min_high old_max_low h needs_restat subtrahend rest)"

definition subtract ::
  "'c::len word histogram \<Rightarrow> 'c word histogram
    \<Rightarrow> (subtraction_error \<times> 'c word histogram, 'c word histogram) res" where
  "subtract h subtrahend =
     bind_res (last_index h) (\<lambda>last. bind_res (value_for h last) (\<lambda>v.
       let top = highest_equivalent h v
       in if top < highest_equivalent h (hist_max subtrahend)
          then Err (SubtrahendValueExceedsMinuendRange, h)
          else
            bind_res (hist_min h) (\<lambda>mn.
            bind_res (subtract_bins (highest_equivalent h mn) (lowest_equivalent h (hist_max h)) h
                        (total_count h = - 1) subtrahend [0..<distinct_values subtrahend])
              (\<lambda>(h', needs_restat).
                 if needs_restat then restat h' (distinct_values h') else Ok h'))))"

section \<open>Operators\<close>

definition add_assign ::
  "'c::len word histogram \<Rightarrow> 'c word histogram \<Rightarrow> ('e, 'c word histogram) res" where
  "add_assign h source = unwrap_res (add h source)"

definition sub_assign ::
  "'c::len word histogram \<Rightarrow> 'c word histogram \<Rightarrow> ('e, 'c word histogram) res" where
  "sub_assign h other = unwrap_res (subtract h other)"

definition clone :: "'c::len word histogram \<Rightarrow> ('e, 'c word histogram) res" where
  "clone h = bind_res (new_from h) (\<lambda>c. add_assign c h)"

definition set_to ::
  "'c::len word histogram \<Rightarrow> 'c word histogram
    \<Rightarrow> (addition_error \<times> 'c word histogram, 'c word histogram) res" where
  "set_to h source = add (reset h) source"

fun sum_onto :: "'c::len word histogram \<Rightarrow> 'c word histogram list \<Rightarrow> ('e, 'c word histogram) res" where
  "sum_onto first [] = Ok first"
| "sum_onto first (h # hs) = bind_res (add_assign first h) (\<lambda>f. sum_onto f hs)"

fun hist_sum :: "'c::len word histogram list \<Rightarrow> ('e, 'c word histogram) res" where
  "hist_sum [] = unwrap_res (new 3)"
| "hist_sum (first # hs) = sum_onto first hs"

section \<open>A blank copy\<close>

definition blank :: "'c::len word histogram \<Rightarrow> 'c word histogram" where
  "blank h = h\<lparr>max_value := 0, min_non_zero_value := - 1, total_count := 0,
     counts := replicate (length (counts h)) 0\<rparr>"

lemma new_from_eq:
  fixes h :: "'c::len word histogram"
  assumes "sized_ok h"
  shows "new_from h = Ok (blank h)"
proof -
  note s = sized_okD [OF assms] 
  note l = layout_okD [OF s(1)]
  let ?lo = "lowest_discernible_value h" and ?hi = "highest_trackable_value h"
    and ?sf = "significant_value_digits h"
  have c: "1 \<le> ?lo" "?lo \<le> (- 1) div 2" "2 * unat ?lo \<le> unat ?hi" "?sf \<le> 5"
    "um h = config_um ?lo" "hm h + 1 = config_mag ?sf"
    using s(2) by (auto simp: config_ok_def)
  have lo2: "unat (2 * ?lo) = 2 * unat ?lo"
    using c(2) by (simp add: word_le_nat_alt unat_div u64_max_def unat_word_ariths)
  have hi: "2 * ?lo \<le> ?hi" using c(3) lo2 by (simp add: word_le_nat_alt)
  have cfg: "config_um ?lo + config_mag ?sf \<le> 63" using l(2) c(5,6) by simp
  let ?f = "fresh ?lo ?hi ?sf :: 'c word histogram"
  have new: "new_with_bounds ?lo ?hi ?sf = Ok ?f"
    using c hi cfg by (auto simp: new_with_bounds_eq word_one_le_iff)
  have w: "sized_ok ?f" using wfD(1) [OF new_with_bounds_wf [OF new]] .
  note lf = layout_okD [OF sized_okD(1) [OF w]]
  have hmf: "hm ?f = hm h" "um ?f = um h"
    using fresh_layout(2,3) [OF cfg c(4), of ?hi, where ?'c = 'c] c(5,6) by simp_all
  have b: "bc ?f = bc h" using sized_okD(4) [OF w] s(4) hmf by (simp add: fresh_def Let_def)
  have "?f\<lparr>auto_resize := auto_resize h, counts := replicate (length (counts h)) 0\<rparr> = blank h"
    using lf l hmf b
    by (intro histogram.equality)
      (simp_all add: blank_def word_unat_eq_iff, simp_all add: fresh_def Let_def)
  moreover have "length (counts ?f) = length (counts h)"
    using sized_okD(5) [OF w] s(5) hmf b by simp
  moreover have "counts ?f = replicate (length (counts ?f)) 0" by (simp add: fresh_def Let_def)
  ultimately show ?thesis
    by (simp add: new_from_def new distinct_values_def vec_resize_def)
qed

lemma wf_blank: "wf h \<Longrightarrow> wf (blank h)"
  using h_index_minus_1_pos [OF wfD(2), of h]
  by (simp add: wf_def blank_def extremes_ok_def capacity_def)

section \<open>Growing for the other histogram\<close>

text \<open>\<open>h'\<close> is \<open>h\<close> with more room: the same counts in the same bins.\<close>

definition extends :: "'c::len word histogram \<Rightarrow> 'c word histogram \<Rightarrow> bool" where
  "extends h h' \<longleftrightarrow> wf h' \<and> capacity h \<le> capacity h' \<and> h_index h' = h_index h \<and>
     bin_count h' = bin_count h \<and> (exact h' \<longleftrightarrow> exact h) \<and> total_count h' = total_count h \<and>
     max_value h' = max_value h \<and> min_non_zero_value h' = min_non_zero_value h \<and>
     auto_resize h' = auto_resize h"

lemma extends_refl: "wf h \<Longrightarrow> extends h h"
  by (simp add: extends_def)

lemma extends_resize:
  assumes "wf h" and "unat (highest_trackable_value h) \<le> unat hi"
  obtains h' where "resize h hi = (Ok h')" and "extends h h'" and "unat hi < capacity h'"
proof -
  note w = wfD [OF assms(1)]
  note r = resize_grow [OF w(1) assms(2)]
  let ?n = "(2 + bin_bucket (um h) (hm h) (unat hi)) * 2 ^ hm h"
  let ?h' = "h\<lparr>
      bucket_count := of_nat (1 + bin_bucket (um h) (hm h) (unat hi)),
      highest_trackable_value := hi,
      counts := vec_resize (counts h) ?n 0\<rparr>"
  have len: "length (counts h) \<le> ?n" using r(4) by simp
  have "extremes_ok ?h'"
    using w(6) by (auto simp: extremes_ok_def nth_vec_resize split: if_splits)
  then have "wf ?h'" using r(2,5) w(5,7) by (simp add: wf_def)
  moreover have "bin_count ?h' = bin_count h"
    using len by (auto simp: fun_eq_iff bin_count_def nth_vec_resize)
  moreover have "exact ?h' \<longleftrightarrow> exact h"
    using len by (simp add: exact_def sum_counts_vec_resize)
  ultimately have "extends h ?h'" using r(5) by (simp add: extends_def)
  with r(1,3) show thesis by (intro that)
qed

text \<open>Whether \<open>add\<close> and \<open>subtract\<close> find room, and what \<open>add\<close> has after making it.\<close>

definition top_value :: "'c::len word histogram \<Rightarrow> u64" where
  "top_value h = highest_equivalent h (of_nat (h_value h (length (counts h) - 1)))"

lemma unat_top_value: "bins_ok h \<Longrightarrow> unat (top_value h) = min u64_max (capacity h) - 1"
  unfolding top_value_def by (rule last_bin(3))

lemma le_top_value:
  assumes "bins_ok h" and "\<not> top_value h < v"
  shows "unat v < capacity h"
proof -
  have "0 < min u64_max (capacity h)" by (simp add: capacity_def u64_max_def)
  moreover have "unat v \<le> min u64_max (capacity h) - 1"
    using assms(2) by (simp add: word_less_nat_alt unat_top_value [OF assms(1)])
  ultimately show ?thesis by linarith
qed

lemma add_room:
  assumes "wf h" and "top_value h < v"
  obtains h' where "resize h v = Ok h'" and "extends h h'" and "unat v < capacity h'"
proof -
  note w = wfD [OF assms(1)]
  have "unat (highest_trackable_value h) < capacity h" by (rule highest_less_capacity [OF w(1)])
  then have "unat (highest_trackable_value h) \<le> unat v"
    using assms(2) unat_le_u64_max [of "highest_trackable_value h"]
    by (auto simp: word_less_nat_alt unat_top_value [OF w(3)] min_def split: if_splits)
  from extends_resize [OF assms(1) this] show thesis using that by blast
qed

lemma add_eq:
  assumes "wf h"
  shows "add h s =
    (if top_value h < hist_max s \<and> \<not> auto_resize h then Err (OtherAddendValueExceedsRange, h)
     else bind_res (if top_value h < hist_max s
                    then map_err (\<lambda>(_, h'). (AddResizeFailedUsizeTypeTooSmall, h')) (resize h (hist_max s))
                    else Ok h)
       (\<lambda>h1. if bucket_count h1 = bucket_count s \<and> sub_bucket_count h1 = sub_bucket_count s
                     \<and> unit_magnitude h1 = unit_magnitude s
             then add_same h1 s else add_other h1 s))"
  by (simp only: add_def last_bin(1,2) [OF wfD(3) [OF assms]] bind_res.simps Let_def top_value_def)
    simp

section \<open>Adding bin by bin\<close>

lemma add_counts_eq:
  fixes src :: "'c::len word list"
  assumes "i + length src \<le> length cs" and "LENGTH('c) \<le> 64"
  shows "\<exists>cs' obs'. add_counts i src cs obs = (Ok (cs', obs') :: ('e, _) res) \<and> length cs' = length cs \<and>
    (\<forall>j < length cs. cs' ! j = (if i \<le> j \<and> j < i + length src
        then saturating_add (cs ! j) (src ! (j - i)) else cs ! j)) \<and>
    unat obs' = min u64_max (unat obs + sum_counts src)"
  using assms(1)
proof (induction src arbitrary: i cs obs)
  case Nil
  then show ?case using unat_le_u64_max [of obs]
    by (intro exI [of _ cs] exI [of _ obs]) auto
next
  case (Cons c src)
  let ?cs = "if c \<noteq> 0 then cs[i := saturating_add (cs ! i) c] else cs"
    and ?obs = "if c \<noteq> 0 then saturating_add obs (ucast c) else obs"
  have cs: "?cs = cs[i := saturating_add (cs ! i) c]"
    by (simp add: saturating_add_def list_update_same_conv)
  have obs: "unat ?obs = min u64_max (unat obs + unat c)"
    using unat_le_u64_max [of obs] by (simp add: unat_saturating_add_u64 unat_ucast_count [OF assms(2)])
  have "add_counts i (c # src) cs obs = (add_counts (Suc i) src ?cs ?obs :: ('e, _) res)"
    using Cons.prems by simp
  moreover have len: "length ?cs = length cs" by simp
  moreover have "Suc i + length src \<le> length ?cs" using Cons.prems len by simp
  from Cons.IH [OF this, of ?obs] obtain cs' obs' where
    ih: "add_counts (Suc i) src ?cs ?obs = (Ok (cs', obs') :: ('e, _) res)" "length cs' = length ?cs"
      "\<forall>j < length ?cs. cs' ! j = (if Suc i \<le> j \<and> j < Suc i + length src
        then saturating_add (?cs ! j) (src ! (j - Suc i)) else ?cs ! j)"
      "unat obs' = min u64_max (unat ?obs + sum_counts src)" by blast
  have "\<forall>j < length cs. cs' ! j = (if i \<le> j \<and> j < i + length (c # src)
        then saturating_add (cs ! j) ((c # src) ! (j - i)) else cs ! j)"
  proof (intro allI impI)
    fix j assume "j < length cs"
    then show "cs' ! j = (if i \<le> j \<and> j < i + length (c # src)
        then saturating_add (cs ! j) ((c # src) ! (j - i)) else cs ! j)"
      using ih(3) unfolding len unfolding cs by (cases "j = i") (auto simp: nth_list_update nth_Cons')
  qed
  moreover have "unat obs' = min u64_max (unat obs + sum_counts (c # src))"
    using ih(4) obs by (simp add: min_def)
  ultimately show ?case using ih(1,2) by metis
qed

lemma sum_counts_saturated:
  fixes xs ys zs :: "'c::len word list"
  assumes "length xs = length ys" and "length zs = length xs"
    and "\<forall>j < length xs. zs ! j = saturating_add (xs ! j) (ys ! j)"
  shows "min (2 ^ LENGTH('c) - 1) (sum_counts zs) = min (2 ^ LENGTH('c) - 1) (sum_counts xs + sum_counts ys)"
  using assms
proof (induction xs ys arbitrary: zs rule: list_induct2)
  case (Cons x xs y ys)
  then obtain z zs' where zs: "zs = z # zs'" by (cases zs) auto
  then have "unat z = min (2 ^ LENGTH('c) - 1) (unat x + unat y)"
    using Cons.prems(2) by (auto simp: unat_saturating_add)
  moreover have "min (2 ^ LENGTH('c) - 1) (sum_counts zs') = min (2 ^ LENGTH('c) - 1) (sum_counts xs + sum_counts ys)"
    using Cons.prems zs by (intro Cons.IH) auto
  ultimately show ?case unfolding zs by (auto simp: min_def split: if_splits)
qed simp

text \<open>What \<open>source\<close> contributes to bin \<open>i\<close> of \<open>h\<close>: its bins whose lowest value falls there.\<close>

definition moved :: "'c::len word histogram \<Rightarrow> 'c word histogram \<Rightarrow> nat list \<Rightarrow> nat \<Rightarrow> nat" where
  "moved h source js i = sum_list (map (bin_count source) (filter (\<lambda>j. h_index h (h_value source j) = i) js))"

lemma moved_Nil [simp]: "moved h s [] i = 0"
  by (simp add: moved_def)

lemma moved_Cons:
  "moved h s (j # js) i = (if h_index h (h_value s j) = i then bin_count s j else 0) + moved h s js i"
  by (simp add: moved_def)

lemma moved_append: "moved h s (js @ ks) i = moved h s js i + moved h s ks i"
  by (simp add: moved_def)

lemma moved_cong: "h_index h = h_index h' \<Longrightarrow> moved h = moved h'"
  by (simp add: moved_def fun_eq_iff)

lemma moved_zero: "\<forall>j \<in> set js. bin_count s j = 0 \<Longrightarrow> moved h s js i = 0"
  by (induction js) (simp_all add: moved_Cons)

lemma moved_same:
  assumes "bins_ok s" and "h_index h = h_index s"
  shows "moved h s [0..<length (counts s)] i = bin_count s i"
proof -
  have "filter (\<lambda>j. h_index h (h_value s j) = i) [0..<n] = (if i < n then [i] else [])"
    if "n \<le> length (counts s)" for n
    using that by (induction n) (auto simp: assms(2) bins.index_val [OF assms(1)])
  then show ?thesis by (simp add: moved_def bin_count_def)
qed

text \<open>Counts of one bin added up at the width of the counter.\<close>

definition sat :: "'c::len word histogram \<Rightarrow> nat \<Rightarrow> nat" where
  "sat h n = min (2 ^ LENGTH('c) - 1) n"

lemma min_min_add: "min (M::nat) (min M m + n) = min M (m + n)"
  by (simp add: min_def)

lemma sat_sat [simp]: "sat h (sat (g :: 'c::len word histogram) m + n) = sat (h :: 'c word histogram) (m + n)"
  unfolding sat_def by (rule min_min_add)

lemma bin_count_sat [simp]:
  "sat (h :: 'c::len word histogram) (bin_count (g :: 'c word histogram) i) = bin_count g i"
  using bin_count_less [of g i] by (simp add: sat_def)

text \<open>What \<open>add\<close> promises about its result.\<close>

definition added :: "'c::len word histogram \<Rightarrow> 'c word histogram \<Rightarrow> nat list \<Rightarrow> 'c word histogram \<Rightarrow> bool" where
  "added h source js h' \<longleftrightarrow> wf h' \<and> capacity h \<le> capacity h' \<and> h_index h' = h_index h \<and>
     (\<forall>i. bin_count h' i = sat h (bin_count h i + moved h source js i)) \<and>
     (LENGTH('c) = 64 \<longrightarrow> exact h \<longrightarrow> exact source \<longrightarrow> exact h')"

lemma same_layout:
  assumes "bins_ok h" and "bins_ok s" and "bucket_count h = bucket_count s"
    and "sub_bucket_count h = sub_bucket_count s" and "unit_magnitude h = unit_magnitude s"
  shows "hm h = hm s" and "length (counts h) = length (counts s)" and "capacity h = capacity s"
    and "\<And>v. v < 2 ^ 64 \<Longrightarrow> h_index h v = h_index s v"
    and "\<And>i. i < length (counts s) \<Longrightarrow> h_index h (h_value s i) = i"
proof -
  note a = bins_okD [OF assms(1)] and b = bins_okD [OF assms(2)]
  have "(2::nat) ^ (hm h + 1) = 2 ^ (hm s + 1)"
    using layout_okD(3) [OF a(1)] layout_okD(3) [OF b(1)] assms(4) by simp
  then show hm: "hm h = hm s" by simp
  then show "length (counts h) = length (counts s)" and "capacity h = capacity s"
    using a(4) b(4) assms(3,5) by (simp_all add: capacity_def)
  show ix: "\<And>v. v < 2 ^ 64 \<Longrightarrow> h_index h v = h_index s v"
    using a(1) b(1) assms(5) hm by (simp add: h_index_eq)
  fix i assume i: "i < length (counts s)"
  then have "h_value s i < 2 ^ 64" using value_for_bins(2,3) [OF assms(2) i] by simp
  then show "h_index h (h_value s i) = i" using i by (simp add: ix bins.index_val [OF assms(2)])
qed

lemma moved_same_layout:
  assumes "bins_ok h" and "bins_ok s" and "bucket_count h = bucket_count s"
    and "sub_bucket_count h = sub_bucket_count s" and "unit_magnitude h = unit_magnitude s"
  shows "moved h s [0..<length (counts s)] i = bin_count s i"
proof -
  have "filter (\<lambda>j. h_index h (h_value s j) = i) [0..<n] = (if i < n then [i] else [])"
    if "n \<le> length (counts s)" for n
    using that same_layout(5) [OF assms] by (induction n) auto
  then show ?thesis by (simp add: moved_def bin_count_def)
qed

text \<open>The extremes of a sum: those of both operands, of which the second has the same bins.\<close>

lemma joined_extremes:
  fixes h1 s :: "'c::len word histogram"
  assumes "sized_ok h1" and "wf s" and "\<And>x :: u64. h_index s (unat x) = h_index h1 (unat x)" and "0 < h_index h1 (unat (min_non_zero_value h1))"
  defines "h2 \<equiv> if hist_max s > hist_max h1 then update_max h1 (hist_max s) else h1"
  defines "h3 \<equiv> if min_nz s < min_nz h2 then update_min h2 (min_nz s) else h2"
  shows "sized_ok h3" and "h_index h3 = h_index h1" and "capacity h3 = capacity h1"
    and "counts h3 = counts h1" and "total_count h3 = total_count h1"
    and "h_index h1 (unat (max_value h3)) = max (h_index h1 (unat (max_value h1))) (h_index h1 (unat (max_value s)))"
    and "h_index h1 (unat (min_non_zero_value h3)) \<le> h_index h1 (unat (min_non_zero_value h1))"
    and "h_index h1 (unat (min_non_zero_value h3)) \<le> h_index h1 (unat (min_non_zero_value s))"
    and "0 < h_index h1 (unat (min_non_zero_value h3))"
proof -
  note v = wfD [OF assms(2)] and l1 = sized_okD(1) [OF assms(1)]
  have l2: "layout_ok h2" "h_index h2 = h_index h1" "min_non_zero_value h2 = min_non_zero_value h1" "sized_ok h2"
    using assms(1) l1 by (simp_all add: h2_def)
  show "sized_ok h3" "h_index h3 = h_index h1" "capacity h3 = capacity h1" "counts h3 = counts h1"
    "total_count h3 = total_count h1"
    using assms(1) by (simp_all add: h3_def h2_def)
  have "max_value h3 = max_value h2" by (simp add: h3_def)
  then show "h_index h1 (unat (max_value h3)) = max (h_index h1 (unat (max_value h1))) (h_index h1 (unat (max_value s)))"
    using h_index_update_max [OF l1, of "hist_max s"] h_index_hist_max [OF v(2)] assms(3)
      h_index_u64_mono [OF l1, of "hist_max s" "hist_max h1"] h_index_hist_max [OF l1]
    by (auto simp: h2_def not_less max_def)
  show "h_index h1 (unat (min_non_zero_value h3)) \<le> h_index h1 (unat (min_non_zero_value h1))"
    "h_index h1 (unat (min_non_zero_value h3)) \<le> h_index h1 (unat (min_non_zero_value s))"
    "0 < h_index h1 (unat (min_non_zero_value h3))"
    using h_index_update_min [OF l2(1), of "min_nz s"] l2(2,3) h_index_min_nz [OF v(2)] v(7) assms(3,4)
      h_index_u64_mono [OF l1, of "min_nz h2" "min_nz s"] h_index_min_nz [OF l2(1)]
      min_index_pos(1) [OF l2(1), of "min_nz s"]
    by (auto simp: h3_def not_less)
qed

lemma add_same_added:
  assumes "wf h" and "wf s" and "LENGTH('c) \<le> 64" and "bucket_count h = bucket_count s"
    and "sub_bucket_count h = sub_bucket_count s" and "unit_magnitude h = unit_magnitude s"
  obtains h' where "add_same h s = (Ok h' :: ('e, 'c::len word histogram) res)"
    and "added h s [0..<length (counts s)] h'"
proof -
  note w = wfD [OF assms(1)] and v = wfD [OF assms(2)]
  note l = same_layout [OF w(3) v(3) assms(4-6)]
  obtain cs obs where ac: "add_counts 0 (counts s) (counts h) 0 = (Ok (cs, obs) :: ('e, _) res)"
    and len: "length cs = length (counts h)"
    and cs: "\<forall>j < length (counts h). cs ! j = saturating_add (counts h ! j) (counts s ! j)"
    and obs: "unat obs = min u64_max (sum_counts (counts s))"
    using add_counts_eq [OF _ assms(3), of 0 "counts s" "counts h" 0] l(2) by auto
  define h1 where "h1 = h\<lparr>counts := cs, total_count := saturating_add (total_count h) obs\<rparr>"
  define h2 where "h2 = (if hist_max s > hist_max h1 then update_max h1 (hist_max s) else h1)"
  define h3 where "h3 = (if min_nz s < min_nz h2 then update_min h2 (min_nz s) else h2)"
  have res: "add_same h s = (Ok h3 :: ('e, 'c word histogram) res)"
    unfolding add_same_def ac h3_def h2_def h1_def by (simp add: Let_def)
  have lay: "sized_ok h1" "h_index h1 = h_index h" "capacity h1 = capacity h" "counts h1 = cs"
    "total_count h1 = saturating_add (total_count h) obs" "max_value h1 = max_value h"
    "min_non_zero_value h1 = min_non_zero_value h"
    using w(1,2) len by (simp_all add: h1_def)
  have hs: "h_index h (unat x) = h_index s (unat x)" for x :: u64
    using l(4) unat_u64_less [of x] by blast
  have "h_index s (unat x) = h_index h1 (unat x)" for x :: u64 using hs lay(2) by simp
  note j = joined_extremes [OF lay(1) assms(2) this, folded h2_def, folded h3_def, unfolded lay(2-7), OF w(7)]
  have nz: "j < length cs \<Longrightarrow> cs ! j \<noteq> 0 \<Longrightarrow> counts h ! j \<noteq> 0 \<or> counts s ! j \<noteq> 0" for j
    using cs len by (auto simp: saturating_add_def)
  have ex: "extremes_ok h3"
    unfolding extremes_ok_def j(2,4)
    using w(6) v(6) nz j(6-9) hs l(2) len by (fastforce simp: extremes_ok_def)
  have "unat (max_value h3) < capacity h3"
    using j(6) hs w(5) v(5) less_capacity_iff [OF w(3)] less_capacity_iff [OF v(3)] l(2)
    by (simp add: j(3))
  then have wf: "wf h3" using j ex by (simp add: wf_def)
  have bins: "bin_count h3 i = sat h (bin_count h i + bin_count s i)" for i
    using cs len l(2) by (simp add: bin_count_def j(4) sat_def unat_saturating_add)
  have "exact h3" if e: "LENGTH('c) = 64" "exact h" "exact s"
  proof -
    have "min u64_max (sum_counts cs) = min u64_max (sum_counts (counts h) + sum_counts (counts s))"
      using sum_counts_saturated [of "counts h" "counts s" cs] l(2) len cs e(1) by (simp add: u64_max_def)
    moreover have "unat (total_count h3) = min u64_max (unat (total_count h) + unat obs)"
      by (simp add: j(5) unat_saturating_add_u64)
    ultimately show ?thesis using e(2) obs by (simp add: exact_def j(4) min_def)
  qed
  then have "added h s [0..<length (counts s)] h3"
    using wf bins by (simp add: added_def j(2-5) moved_same_layout [OF w(3) v(3) assms(4-6)])
  with res show thesis by (rule that)
qed

section \<open>Adding value by value\<close>

lemma added_refl: "wf h \<Longrightarrow> added h s [] h"
  by (simp add: added_def)

lemma count_at_index_bin: "j < length (counts s) \<Longrightarrow> count_at_index s j = Some (counts s ! j)"
  by (simp add: count_at_index_def)

lemma added_record:
  fixes h :: "'c::len word histogram"
  assumes "added h s js g" and "j < length (counts s)" and "bins_ok s" and "h_value s j < capacity g"
    and "LENGTH('c) \<le> 64"
  shows "record_n g (of_nat (h_value s j)) (counts s ! j) = Ok (bump g (of_nat (h_value s j)) (counts s ! j))"
    and "added h s (js @ [j]) (bump g (of_nat (h_value s j)) (counts s ! j))"
proof -
  let ?v = "of_nat (h_value s j) :: u64"
  have v: "unat ?v = h_value s j" by (rule h_index_h_value(2) [OF assms(3,2)])
  have w: "wf g" and ix: "h_index g = h_index h"
    and b: "bin_count g i = sat h (bin_count h i + moved h s js i)" 
    and c: "capacity h \<le> capacity g" for i
    using assms(1) by (auto simp: added_def)
  have lt: "unat ?v < capacity g" using assms(4) v by simp
  then show r: "record_n g ?v (counts s ! j) = Ok (bump g ?v (counts s ! j))"
    using w by (simp add: record_n_def record_n_inner_eq wfD(1))
  have bs: "bin_count s j = unat (counts s ! j)" using assms(2) by (simp add: bin_count_def)
  have "bin_count (bump g ?v (counts s ! j)) i = sat h (bin_count h i + moved h s (js @ [j]) i)" for i
  proof (cases "i = h_index h (h_value s j)")
    case True
    have "bin_count (bump g ?v (counts s ! j)) i = sat h (bin_count g i + unat (counts s ! j))"
      using True by (simp add: bin_count_bump [OF wfD(3) [OF w] lt] v ix sat_def)
    also have "\<dots> = sat h (bin_count h i + moved h s js i + unat (counts s ! j))"
      by (simp add: b)
    finally show ?thesis using True by (simp add: moved_append moved_Cons bs add.assoc)
  next
    case False
    then show ?thesis
      by (simp add: bin_count_bump [OF wfD(3) [OF w] lt] v ix b moved_append moved_Cons)
  qed
  moreover have "LENGTH('c) = 64 \<longrightarrow> exact h \<longrightarrow> exact s \<longrightarrow> exact (bump g ?v (counts s ! j))"
    using assms(1,5) lt wfD(3) [OF w] by (auto simp: added_def intro!: exact_bump)
  ultimately show "added h s (js @ [j]) (bump g ?v (counts s ! j))"
    using wf_bump [OF w lt] c ix by (simp add: added_def)
qed

lemma added_skip:
  "added h s js g \<Longrightarrow> bin_count s j = 0 \<Longrightarrow> added h s (js @ [j]) g"
  by (simp add: added_def moved_append moved_Cons)

lemma add_bins_added:
  fixes h :: "'c::len word histogram"
  assumes "added h s js g" and "bins_ok s" and "LENGTH('c) \<le> 64"
    and "\<forall>k \<in> set ks. k < length (counts s) \<and> h_value s k < capacity g"
  shows "\<exists>g'. add_bins g s ks = (Ok g' :: ('e, 'c word histogram) res) \<and> added h s (js @ ks) g'"
  using assms(1,4)
proof (induction ks arbitrary: js g)
  case (Cons k ks)
  then have k: "k < length (counts s)" "h_value s k < capacity g" by auto
  note val = value_for_bins(4) [OF assms(2) k(1)]
  show ?case
  proof (cases "counts s ! k = 0")
    case True
    then have "added h s (js @ [k]) g"
      using Cons.prems(1) by (intro added_skip) (simp_all add: bin_count_def)
    from Cons.IH [OF this] Cons.prems(2) obtain g' where
      "add_bins g s ks = (Ok g' :: ('e, 'c word histogram) res)" "added h s (js @ k # ks) g'" by auto
    then show ?thesis using True k(1) by (simp add: count_at_index_bin)
  next
    case False
    note r = added_record [OF Cons.prems(1) k(1) assms(2) k(2) assms(3)]
    from Cons.IH [OF r(2)] Cons.prems(2) obtain g' where
      "add_bins (bump g (of_nat (h_value s k)) (counts s ! k)) s ks = (Ok g' :: ('e, 'c word histogram) res)"
      "added h s (js @ k # ks) g'" by auto
    then show ?thesis using False k(1) by (simp add: count_at_index_bin val r(1))
  qed
qed auto

lemma bin_count_beyond_max:
  "wf s \<Longrightarrow> h_index s (unat (hist_max s)) < j \<Longrightarrow> bin_count s j = 0"
  using wfD(6) [of s] by (fastforce simp: extremes_ok_def bin_count_def h_index_hist_max wfD(2))

lemma moved_up_to_max:
  assumes "wf s"
  defines "m \<equiv> h_index s (unat (hist_max s))"
  shows "moved h s (m # [0..<m]) i = moved h s [0..<length (counts s)] i"
proof -
  have m: "m < length (counts s)"
    using hist_max_less_capacity [OF assms(1)] by (simp add: m_def less_capacity_iff wfD(3) [OF assms(1)])
  have "[0..<length (counts s)] = [0..<m] @ m # [Suc m..<length (counts s)]"
    using m by (metis less_imp_le_nat upt_conv_Cons upt_add_eq_append le_add_diff_inverse zero_le)
  moreover have "moved h s [Suc m..<length (counts s)] i = 0"
    using bin_count_beyond_max [OF assms(1)] by (intro moved_zero) (simp add: m_def)
  ultimately show ?thesis by (simp add: moved_append moved_Cons)
qed

lemma added_cong:
  "added h s js g \<Longrightarrow> (\<And>i. moved h s js i = moved h s ks i) \<Longrightarrow> added h s ks g"
  by (simp add: added_def)

lemma add_other_added:
  fixes h :: "'c::len word histogram"
  assumes "wf h" and "wf s" and "LENGTH('c) \<le> 64" and "unat (hist_max s) < capacity h"
  obtains h' where "add_other h s = (Ok h' :: ('e, 'c word histogram) res)"
    and "added h s [0..<length (counts s)] h'"
proof -
  note v = wfD [OF assms(2)]
  define m where "m = h_index s (unat (hist_max s))"
  have m: "m < length (counts s)"
    using hist_max_less_capacity [OF assms(2)] by (simp add: m_def less_capacity_iff v(3))
  have le: "h_value s k < capacity h" if "k \<le> m" for k
  proof -
    have "h_value s m \<le> unat (hist_max s)"
      using hist_max_less_capacity [OF assms(2)] unfolding m_def by (intro bins.val_index_le [OF v(3)])
    moreover have "h_value s k \<le> h_value s m"
      using that m by (intro bins.val_mono [OF v(3)])
    ultimately show ?thesis using assms(4) by linarith
  qed
  note r = added_record [OF added_refl [OF assms(1)] m v(3) le [OF order_refl] assms(3)]
  have "\<forall>k \<in> set [0..<m]. k < length (counts s) \<and>
      h_value s k < capacity (bump h (of_nat (h_value s m)) (counts s ! m))"
    using m le by simp
  from add_bins_added [OF r(2) v(3) assms(3) this] obtain h' where
    h': "add_bins (bump h (of_nat (h_value s m)) (counts s ! m)) s [0..<m] = (Ok h' :: ('e, 'c word histogram) res)"
    "added h s (m # [0..<m]) h'" by auto
  have "index_for s (hist_max s) = Some m" by (simp add: index_for_h_index [OF v(2)] m_def)
  then have "add_other h s = (Ok h' :: ('e, 'c word histogram) res)"
    using h'(1) m by (simp add: add_other_def count_at_index_bin r(1) value_for_bins(4) [OF v(3) m])
  moreover have "added h s [0..<length (counts s)] h'"
    using added_cong [OF h'(2)] moved_up_to_max [OF assms(2)] unfolding m_def by blast
  ultimately show thesis by (rule that)
qed

section \<open>Addition, whole\<close>

lemma added_extends:
  assumes "extends h h1" and "added h1 s js h'"
  shows "added h s js h'"
  using assms moved_cong [of h1 h] by (simp add: extends_def added_def sat_def)

lemma add_added:
  fixes h :: "'c::len word histogram"
  assumes "wf h" and "wf s" and "LENGTH('c) \<le> 64" and "\<not> top_value h < hist_max s \<or> auto_resize h"
  obtains h' where "add h s = Ok h'" and "added h s [0..<length (counts s)] h'"
proof -
  obtain h1 where h1: "(if top_value h < hist_max s
        then map_err (\<lambda>(_, h'). (AddResizeFailedUsizeTypeTooSmall, h')) (resize h (hist_max s))
        else Ok h) = Ok h1" "extends h h1" "unat (hist_max s) < capacity h1"
  proof (cases "top_value h < hist_max s")
    case True
    from add_room [OF assms(1) True] show ?thesis using that True by auto
  next
    case False
    from le_top_value [OF wfD(3) [OF assms(1)] False] show ?thesis
      using that [of h] False extends_refl [OF assms(1)] by simp
  qed
  have w: "wf h1" using h1(2) by (simp add: extends_def)
  obtain h' where "(if bucket_count h1 = bucket_count s \<and> sub_bucket_count h1 = sub_bucket_count s
      \<and> unit_magnitude h1 = unit_magnitude s then add_same h1 s else add_other h1 s)
      = (Ok h' :: (addition_error \<times> 'c word histogram, _) res)" "added h1 s [0..<length (counts s)] h'"
    using add_same_added [OF w assms(2,3)] add_other_added [OF w assms(2,3) h1(3)]
    by (smt (verit, best))
  then show thesis
    using that added_extends [OF h1(2)] assms(4) h1(1) by (auto simp: add_eq [OF assms(1)])
qed

section \<open>What subtraction does\<close>

text \<open>The state of the loop of \<open>subtract\<close> after the bins \<open>js\<close> of the subtrahend.\<close>

definition subtracting ::
  "'c::len word histogram \<Rightarrow> 'c word histogram \<Rightarrow> nat list \<Rightarrow> 'c word histogram \<Rightarrow> bool \<Rightarrow> bool" where
  "subtracting h0 s js h needs \<longleftrightarrow>
     wf h \<and> h_index h = h_index h0 \<and> capacity h = capacity h0 \<and>
     (\<forall>i. bin_count h i + moved h0 s js i = bin_count h0 i) \<and>
     (\<not> needs \<longrightarrow> exact h \<and> unat (total_count h) < u64_max)"

lemma extremes_ok_decrease:
  assumes "extremes_ok h" and "\<And>i. i < length cs \<Longrightarrow> cs ! i \<noteq> 0 \<Longrightarrow> i < length (counts h) \<and> counts h ! i \<noteq> 0"
  shows "extremes_ok (h\<lparr>counts := cs\<rparr>)"
  using assms by (fastforce simp: extremes_ok_def)

lemma wf_decrease:
  assumes "wf h" and "counts h ! i \<noteq> 0"
  shows "wf (h\<lparr>counts := (counts h)[i := c]\<rparr>)"
proof -
  have "extremes_ok (h\<lparr>counts := (counts h)[i := c]\<rparr>)"
  proof (rule extremes_ok_decrease [OF wfD(6) [OF assms(1)]])
    fix j assume "j < length ((counts h)[i := c])" "(counts h)[i := c] ! j \<noteq> 0"
    then show "j < length (counts h) \<and> counts h ! j \<noteq> 0"
      using assms(2) by (cases "j = i") simp_all
  qed
  then show ?thesis using wfD [OF assms(1)] by (simp add: wf_def)
qed

lemma wf_total_count [simp]: "wf (h\<lparr>total_count := t\<rparr>) = wf h"
  by (simp add: wf_def extremes_ok_def)

lemma subtract_step:
  fixes h0 :: "'c::len word histogram"
  assumes "subtracting h0 s js h needs" and "bins_ok s" and "j < length (counts s)"
    and "counts s ! j \<noteq> 0" and "h_value s j < capacity h0" and "LENGTH('c) \<le> 64"
    and "needs \<longrightarrow> needs'"
  defines "v \<equiv> of_nat (h_value s j) :: u64" and "k \<equiv> h_index h0 (h_value s j)"
  shows "mut_at h v = Some k"
    and "checked_sub (counts h ! k) (counts s ! j) = None \<Longrightarrow>
      bin_count h0 k < moved h0 s (js @ [j]) k"
    and "checked_sub (counts h ! k) (counts s ! j) = Some c \<Longrightarrow> needs' \<Longrightarrow>
      subtracting h0 s (js @ [j]) (h\<lparr>counts := (counts h)[k := c]\<rparr>) True"
    and "checked_sub (counts h ! k) (counts s ! j) = Some c \<Longrightarrow> \<not> needs' \<Longrightarrow>
      \<exists>t. checked_sub (total_count h) (ucast (counts s ! j)) = Some t \<and>
        subtracting h0 s (js @ [j]) (h\<lparr>counts := (counts h)[k := c], total_count := t\<rparr>) False"
proof -
  have w: "wf h" and ix: "h_index h = h_index h0" and cap: "capacity h = capacity h0"
    and b: "bin_count h i + moved h0 s js i = bin_count h0 i"
    and ex: "\<not> needs \<Longrightarrow> exact h \<and> unat (total_count h) < u64_max" for i
    using assms(1) by (auto simp: subtracting_def)
  note wd = wfD [OF w]
  have uv: "unat v = h_value s j" unfolding v_def by (rule h_index_h_value(2) [OF assms(2,3)])
  show m: "mut_at h v = Some k"
    using assms(5) by (simp add: mut_at_eq [OF wd(3)] cap uv ix k_def)
  have k: "k < length (counts h)"
    using bump_in_bin [OF wd(3), of v] assms(5) cap by (simp add: uv ix k_def)
  have bh: "bin_count h k = unat (counts h ! k)" using k by (simp add: bin_count_def)
  have bs: "bin_count s j = unat (counts s ! j)" using assms(3) by (simp add: bin_count_def)
  have mv: "moved h0 s (js @ [j]) i = moved h0 s js i + (if i = k then unat (counts s ! j) else 0)" for i
    by (simp add: moved_append moved_Cons k_def bs)
  show "bin_count h0 k < moved h0 s (js @ [j]) k" if "checked_sub (counts h ! k) (counts s ! j) = None"
    using that b [of k] bh by (auto simp: mv checked_sub_def word_le_nat_alt split: if_splits)
  {
    assume c: "checked_sub (counts h ! k) (counts s ! j) = Some c"
    then have uc: "unat (counts h ! k) = unat c + unat (counts s ! j)" by (rule checked_sub_Some_unat)
    have "0 < unat (counts s ! j)" using assms(4) by (simp add: unat_gt_0)
    with uc have nz: "counts h ! k \<noteq> 0" by auto
    have bins: "bin_count (h\<lparr>counts := (counts h)[k := c]\<rparr>) i + moved h0 s (js @ [j]) i = bin_count h0 i" for i
      using b [of i] uc bh k by (auto simp: mv bin_count_def nth_list_update)
    then show "needs' \<Longrightarrow> subtracting h0 s (js @ [j]) (h\<lparr>counts := (counts h)[k := c]\<rparr>) True"
      using wf_decrease [OF w nz] by (simp add: subtracting_def ix cap)
    assume n: "\<not> needs'"
    then have e: "exact h" "unat (total_count h) < u64_max" using ex assms(7) by auto
    then have tot: "unat (total_count h) = sum_counts (counts h)" by (simp add: exact_def)
    have sum: "sum_counts ((counts h)[k := c]) + unat (counts s ! j) = sum_counts (counts h)"
      using sum_counts_update [OF k, of c] uc by simp
    then have le: "unat (counts s ! j) \<le> unat (total_count h)" using tot by simp
    have ct: "unat (ucast (counts s ! j) :: u64) = unat (counts s ! j)"
      by (rule unat_ucast_count [OF assms(6)])
    let ?t = "total_count h - ucast (counts s ! j)"
    have "ucast (counts s ! j) \<le> total_count h" using le ct by (simp add: word_le_nat_alt)
    moreover from this have t: "unat ?t = sum_counts ((counts h)[k := c])"
      using sum tot ct by (simp add: unat_sub_nat)
    moreover have "bin_count (h\<lparr>counts := (counts h)[k := c], total_count := ?t\<rparr>) = bin_count (h\<lparr>counts := (counts h)[k := c]\<rparr>)"
      by (simp add: bin_count_def fun_eq_iff)
    ultimately show "\<exists>t. checked_sub (total_count h) (ucast (counts s ! j)) = Some t \<and>
        subtracting h0 s (js @ [j]) (h\<lparr>counts := (counts h)[k := c], total_count := t\<rparr>) False"
      using wf_decrease [OF w nz] bins e(2) tot sum
      by (intro exI [of _ ?t]) (simp add: subtracting_def ix cap checked_sub_def exact_def)
  }
qed

lemma subtract_bins_outcome:
  fixes h0 :: "'c::len word histogram"
  assumes "subtracting h0 s js h needs" and "bins_ok s" and "LENGTH('c) \<le> 64"
    and "\<forall>j \<in> set ks. j < length (counts s) \<and> (counts s ! j \<noteq> 0 \<longrightarrow> h_value s j < capacity h0)"
  shows "case subtract_bins a b h needs s ks of
      Ok (h', needs') \<Rightarrow> subtracting h0 s (js @ ks) h' needs'
    | Err (e, h') \<Rightarrow> e = SubtrahendCountExceedsMinuendCount \<and> (\<exists>i. bin_count h0 i < moved h0 s (js @ ks) i)
    | Panic \<Rightarrow> False"
  using assms(1,4)
proof (induction ks arbitrary: js h needs)
  case (Cons j ks)
  then have j: "j < length (counts s)" by auto
  have snoc: "(js @ [j]) @ ks = js @ j # ks" by simp
  show ?case
  proof (cases "counts s ! j = 0")
    case True
    then have "bin_count s j = 0" by (simp add: bin_count_def)
    then have "subtracting h0 s (js @ [j]) h needs"
      using Cons.prems(1) by (simp add: subtracting_def moved_append moved_Cons)
    from Cons.IH [OF this, unfolded snoc] Cons.prems(2) True j show ?thesis
      by (simp add: count_at_index_bin)
  next
    case False
    with Cons.prems(2) have lt: "h_value s j < capacity h0" by simp
    let ?v = "of_nat (h_value s j) :: u64" and ?k = "h_index h0 (h_value s j)"
    let ?needs = "needs \<or> ?v \<le> a \<or> ?v \<ge> b"
    note st = subtract_step [OF Cons.prems(1) assms(2) j False lt assms(3), of ?needs]
    have val: "value_for s j = Ok ?v" by (rule value_for_bins(4) [OF assms(2) j])
    show ?thesis
    proof (cases "checked_sub (counts h ! ?k) (counts s ! j)")
      case None
      then have "bin_count h0 ?k < moved h0 s (js @ j # ks) ?k"
        using st(2) moved_append [of h0 s "js @ [j]" ks ?k] by simp
      then show ?thesis using False j st(1) None by (auto simp: count_at_index_bin val)
    next
      case (Some c)
      show ?thesis
      proof (cases ?needs)
        case True
        from Cons.IH [OF st(3) [OF _ Some True], unfolded snoc] Cons.prems(2) show ?thesis
          using False j st(1) Some True by (simp add: count_at_index_bin val Let_def)
      next
        case n: False
        obtain t where t: "checked_sub (total_count h) (ucast (counts s ! j)) = Some t"
          "subtracting h0 s (js @ [j]) (h\<lparr>counts := (counts h)[?k := c], total_count := t\<rparr>) False"
          using st(4) [OF _ Some n] by auto
        from Cons.IH [OF t(2), unfolded snoc] Cons.prems(2) show ?thesis
          using False j st(1) Some n t(1) by (simp add: count_at_index_bin val Let_def)
      qed
    qed
  qed
qed simp


lemma subtract_eq:
  fixes h :: "'c::len word histogram"
  assumes "wf h"
  shows "\<exists>a b. subtract h s = (if top_value h < highest_equivalent h (hist_max s)
      then Err (SubtrahendValueExceedsMinuendRange, h)
      else bind_res (subtract_bins a b h (total_count h = - 1) s [0..<length (counts s)])
        (\<lambda>(h', needs). if needs then restat h' (length (counts h')) else Ok h'))"
proof -
  note b = wfD(3) [OF assms]
  obtain mn where "hist_min h = (Ok mn :: (subtraction_error \<times> 'c word histogram, u64) res)"
    using length_counts_pos [OF b]
    by (cases "total_count h = 0"; cases "counts h ! 0 = 0") (auto simp: hist_min_def count_at_index_def)
  then show ?thesis
    unfolding subtract_def last_bin(1,2) [OF b] bind_res.simps Let_def top_value_def [symmetric] distinct_values_def
    by auto
qed

section \<open>Copies\<close>

lemma unwrap_add_counts:
  "unwrap_res (add_counts i src cs obs) = add_counts i src cs obs"
  by (induction i src cs obs rule: add_counts.induct) simp_all

lemma unwrap_bind_res: "unwrap_res (bind_res m f) = bind_res (unwrap_res m) (\<lambda>x. unwrap_res (f x))"
  by (cases m) simp_all

lemma unwrap_add_same: "unwrap_res (add_same h s) = add_same h s"
  by (simp add: add_same_def unwrap_bind_res unwrap_add_counts case_prod_unfold Let_def)

lemma clone_blank:
  assumes "wf h" and "LENGTH('c) \<le> 64" and "\<not> top_value h < hist_max h"
  shows "clone h = (add_same (blank h) h :: ('e, 'c::len word histogram) res)"
proof -
  have t: "top_value (blank h) = top_value h"
    by (simp add: top_value_def blank_def)
  have w: "wf (blank h)" by (rule wf_blank [OF assms(1)])
  have "bucket_count (blank h) = bucket_count h" "sub_bucket_count (blank h) = sub_bucket_count h"
    "unit_magnitude (blank h) = unit_magnitude h"
    by (simp_all add: blank_def)
  then have "add (blank h) h = (add_same (blank h) h :: (addition_error \<times> 'c word histogram, 'c word histogram) res)"
    using assms(3) by (simp add: add_eq [OF w] t)
  then show ?thesis
    by (simp add: clone_def new_from_eq [OF wfD(1) [OF assms(1)]] add_assign_def unwrap_add_same)
qed


lemma same_bin:
  assumes "layout_ok h" and "h_index h (unat v) = h_index h (unat w)"
  shows "lowest_equivalent h v = lowest_equivalent h w"
    and "v \<noteq> - 1 \<Longrightarrow> w \<noteq> - 1 \<Longrightarrow> highest_equivalent h v = highest_equivalent h w"
proof -
  let ?u = "um h" and ?k = "hm h"
  have ix: "bin_index ?u ?k (unat v) = bin_index ?u ?k (unat w)"
    using assms by (simp only: h_index_word)
  then have low: "bin_low ?u ?k (unat v) = bin_low ?u ?k (unat w)"
    by (metis bin_value_index)
  then show "lowest_equivalent h v = lowest_equivalent h w"
    by (simp add: word_unat_eq_iff unat_lowest_equivalent [OF assms(1)])
  have b: "bin_bucket ?u ?k (bin_low ?u ?k x) = bin_bucket ?u ?k x" for x
    by (rule bin_bucket_low)
  have "bin_width ?u ?k (unat v) = bin_width ?u ?k (unat w)"
    using b [of "unat v"] b [of "unat w"] low by (simp add: bin_width_def)
  then show "v \<noteq> - 1 \<Longrightarrow> w \<noteq> - 1 \<Longrightarrow> highest_equivalent h v = highest_equivalent h w"
    using low by (simp add: word_unat_eq_iff [of "highest_equivalent h v"] unat_highest_equivalent [OF assms(1)])
qed

lemma less_capacity_not_max: "unat (v::u64) < capacity h \<Longrightarrow> capacity h < 2 ^ 64 \<Longrightarrow> v \<noteq> - 1"
  by (auto simp: u64_max_def)

lemma top_value_fits: "wf h \<Longrightarrow> capacity h < 2 ^ 64 \<Longrightarrow> \<not> top_value h < hist_max h"
  using hist_max_less_capacity [of h] wfD(3) [of h]
  by (simp add: word_less_nat_alt unat_top_value u64_max_def)

lemma update_max_blank:
  assumes "wf h" and "capacity h < 2 ^ 64" and "layout_ok g" and "h_index g = h_index h"
    and "capacity g = capacity h" and "bins_ok g"
    and "highest_equivalent g = highest_equivalent h" and "max_value g = 0"
  shows "hist_max (if hist_max h > hist_max g then update_max g (hist_max h) else g) = hist_max h"
proof -
  note w = wfD [OF assms(1)]
  have g0: "hist_max g = 0" using assms(8) by (simp add: hist_max_def ORIGINAL_MAX_def)
  show ?thesis
  proof (cases "hist_max h = 0")
    case False
    let ?m = "hist_max h OR unit_magnitude_mask g"
    have "?m \<noteq> 0" using False le_or_unit_mask [OF assms(3), of "hist_max h"] by (metis word_coorder.extremum_unique)
    then have mx: "max_value (update_max g (hist_max h)) = ?m"
      using assms(8) by (simp add: max_value_update_max word_gt_0 max_def not_le)
    have ix: "h_index h (unat ?m) = h_index h (unat (max_value h))"
      using h_index_or_unit_mask [OF assms(3), of "hist_max h"] assms(4) by (simp add: h_index_hist_max w(2))
    then have "unat ?m < capacity h" using w(5) by (simp add: less_capacity_iff w(3))
    then have "?m \<noteq> - 1" and "max_value h \<noteq> - 1"
      using less_capacity_not_max [OF _ assms(2)] w(5) by blast+
    then have "highest_equivalent h ?m = highest_equivalent h (max_value h)"
      using same_bin(2) [OF w(2) ix] by blast
    moreover have "max_value h \<noteq> 0" using False by (auto simp: hist_max_def ORIGINAL_MAX_def)
    moreover have "highest_equivalent (update_max g (hist_max h)) = highest_equivalent g"
      by (simp add: update_max_def Let_def)
    ultimately have "hist_max (update_max g (hist_max h)) = hist_max h"
      using \<open>?m \<noteq> 0\<close> unfolding hist_max_def [of "update_max g (hist_max h)"] mx
      by (simp add: assms(7) ORIGINAL_MAX_def) (simp add: hist_max_def ORIGINAL_MAX_def)
    then show ?thesis using False g0 by (simp add: word_gt_0)
  qed (simp add: g0)
qed

lemma update_min_blank:
  assumes "wf h" and "layout_ok g" and "h_index g = h_index h"
    and "lowest_equivalent g = lowest_equivalent h" and "min_non_zero_value g = - 1"
  shows "min_nz (if min_nz h < min_nz g then update_min g (min_nz h) else g) = min_nz h"
proof -
  note w = wfD [OF assms(1)]
  have g0: "min_nz g = - 1" using assms(5) by (simp add: min_nz_def ORIGINAL_MIN_def)
  show ?thesis
  proof (cases "min_nz h < - 1")
    case True
    have ix0: "0 < h_index g (unat (min_nz h))" using w(7) by (simp add: assms(3) h_index_min_nz w(2))
    have "h_index h (unat (min_non_zero_value (update_min g (min_nz h)))) = h_index h (unat (min_nz h))"
      using update_min_Some [OF assms(2,5) ix0] assms(3) by simp
    moreover have "lowest_equivalent h (min_nz h) = min_nz h"
    proof -
      have "h_index h (unat (min_nz h)) = h_index h (unat (min_non_zero_value h))" by (rule h_index_min_nz [OF w(2)])
      then have "lowest_equivalent h (min_nz h) = lowest_equivalent h (min_non_zero_value h)"
        by (rule same_bin(1) [OF w(2)])
      then show ?thesis using True by (auto simp: min_nz_def ORIGINAL_MIN_def split: if_splits)
    qed
    ultimately have low: "lowest_equivalent h (min_non_zero_value (update_min g (min_nz h))) = min_nz h"
      using same_bin(1) [OF w(2)] by metis
    moreover have "min_non_zero_value (update_min g (min_nz h)) \<le> min_nz h"
    proof -
      have "unit_magnitude_mask g < min_nz h" using ix0 h_index_pos_iff [OF assms(2)] by blast
      moreover have "min_nz h AND NOT (unit_magnitude_mask g) \<le> min_nz h" by (rule word_and_le2)
      ultimately show ?thesis
        using True assms(5) by (auto simp: update_min_def Let_def not_le)
    qed
    then have "min_non_zero_value (update_min g (min_nz h)) \<noteq> - 1" using True by auto
    moreover have "lowest_equivalent (update_min g (min_nz h)) = lowest_equivalent g"
      by (simp add: update_min_def Let_def)
    ultimately show ?thesis
      using True by (simp add: g0 min_nz_def [of "update_min g (min_nz h)"] assms(4) ORIGINAL_MIN_def)
  next
    case False
    then have "min_nz h = - 1" using word_order.extremum [of "min_nz h"] by (simp add: less_le)
    then show ?thesis by (simp add: g0)
  qed
qed


lemma clone_same:
  fixes h :: "'c::len word histogram"
  assumes "wf h" and "exact h" and "LENGTH('c) \<le> 64" and "capacity h < 2 ^ 64"
  obtains h' where "clone h = (Ok h' :: ('e, 'c word histogram) res)" and "wf h'" and "exact h'"
    and "counts h' = counts h" and "hist_eq h' h" and "auto_resize h' = auto_resize h"
    and "highest_trackable_value h' = highest_trackable_value h"
proof -
  note w = wfD [OF assms(1)]
  let ?z = "replicate (length (counts h)) 0 :: 'c word list"
  obtain cs obs where ac: "add_counts 0 (counts h) ?z 0 = (Ok (cs, obs) :: ('e, _) res)"
    and len: "length cs = length (counts h)"
    and cs: "\<forall>j < length (counts h). cs ! j = saturating_add 0 (counts h ! j)"
    and obs: "unat obs = min u64_max (sum_counts (counts h))"
    using add_counts_eq [OF _ assms(3), of 0 "counts h" ?z 0] by auto
  have "saturating_add 0 x = x" for x :: "'a::len word" by (simp add: saturating_add_def)
  then have cs: "cs = counts h" using len cs by (intro nth_equalityI) simp_all
  have "obs = total_count h" using obs assms(2) by (simp add: exact_def word_unat_eq_iff)
  moreover have "saturating_add 0 (total_count h) = total_count h"
    using unat_u64_less [of "total_count h"] by (simp add: saturating_add_def)
  ultimately have tot: "saturating_add 0 obs = total_count h" by simp
  define h1 where "h1 = h\<lparr>max_value := 0, min_non_zero_value := - 1\<rparr>"
  define h2 where "h2 = (if hist_max h > hist_max h1 then update_max h1 (hist_max h) else h1)"
  define h3 where "h3 = (if min_nz h < min_nz h2 then update_min h2 (min_nz h) else h2)"
  have "(blank h)\<lparr>counts := cs, total_count := saturating_add (total_count (blank h)) obs\<rparr> = h1"
    by (simp add: blank_def cs tot h1_def)
  then have "add_same (blank h) h = (Ok h3 :: ('e, 'c word histogram) res)"
    unfolding add_same_def h3_def h2_def using ac by (simp add: blank_def Let_def)
  then have cl: "clone h = (Ok h3 :: ('e, 'c word histogram) res)"
    by (simp add: clone_blank [OF assms(1,3) top_value_fits [OF assms(1,4)]])
  have l1: "layout_ok h1" "h_index h1 = h_index h" "capacity h1 = capacity h" "bins_ok h1"
    "highest_equivalent h1 = highest_equivalent h" "max_value h1 = 0" "min_non_zero_value h1 = - 1"
    using w by (simp_all add: h1_def)
  have l2: "layout_ok h2" "h_index h2 = h_index h" "lowest_equivalent h2 = lowest_equivalent h"
    "min_non_zero_value h2 = - 1"
    using w by (simp_all add: h2_def h1_def update_max_def Let_def)
  have mx: "hist_max h2 = hist_max h"
    unfolding h2_def by (rule update_max_blank [OF assms(1,4) l1(1-6)])
  have "hist_max h3 = hist_max h2"
    by (simp add: h3_def hist_max_def update_min_def Let_def)
  then have "hist_max h3 = hist_max h" using mx by simp
  moreover have "min_nz h3 = min_nz h"
    unfolding h3_def by (rule update_min_blank [OF assms(1) l2])
  moreover have f3: "counts h3 = counts h" "total_count h3 = total_count h" "auto_resize h3 = auto_resize h"
    "lowest_discernible_value h3 = lowest_discernible_value h"
    "highest_trackable_value h3 = highest_trackable_value h"
    "significant_value_digits h3 = significant_value_digits h"
    by (simp_all add: h3_def h2_def h1_def update_max_def update_min_def Let_def)
  ultimately have "hist_eq h3 h"
    by (simp add: hist_eq_def count_at_index_def list_all_iff)
  moreover obtain h' where "add_same (blank h) h = (Ok h' :: ('e, 'c word histogram) res)" "wf h'"
    using add_same_added [OF wf_blank [OF assms(1)] assms(1,3)] by (auto simp: blank_def added_def)
  then have "wf h3" using \<open>add_same (blank h) h = Ok h3\<close> by simp
  ultimately show thesis using cl f3 assms(2) by (intro that [of h3]) (simp_all add: exact_def)
qed

text \<open>What a subtraction takes values from: the bins of the source, as far as they are in range.\<close>

lemma subtrahend_fits:
  assumes "bins_ok h" and "wf s" and "\<not> top_value h < highest_equivalent h (hist_max s)"
    and "j < length (counts s)" and "counts s ! j \<noteq> 0"
  shows "h_value s j < capacity h"
proof -
  note v = wfD [OF assms(2)]
  have "unat (highest_equivalent h (hist_max s)) < capacity h" by (rule le_top_value [OF assms(1,3)])
  then have mx: "unat (hist_max s) < capacity h"
    using le_highest_equivalent [OF bins_okD(1) [OF assms(1)], of "hist_max s"] by (simp add: word_le_nat_alt)
  have "j \<le> h_index s (unat (hist_max s))"
    using assms(4,5) v(6) by (simp add: extremes_ok_def h_index_hist_max v(2))
  then have "h_value s j \<le> unat (hist_max s)"
    using bins.le_index_iff [OF v(3) assms(4) hist_max_less_capacity [OF assms(2)]] by simp
  then show ?thesis using mx by simp
qed

text \<open>The last part of a subtraction: statistics are recomputed where they need to be.\<close>

lemma restat_subtracted:
  fixes h :: "'c::len word histogram"
  assumes "subtracting h s js g needs" and "LENGTH('c) \<le> 64"
  shows "\<exists>g'. (if needs then restat g (length (counts g)) else Ok g) =
      (Ok g' :: (subtraction_error \<times> 'c word histogram, 'c word histogram) res) \<and>
    wf g' \<and> exact g' \<and> (\<forall>i. bin_count g' i + moved h s js i = bin_count h i)"
proof (cases needs)
  case True
  obtain g' where g': "restat g (length (counts g)) = (Ok g' :: (subtraction_error \<times> 'c word histogram, 'c word histogram) res)" "restated g g'"
    using restat_restated [OF wfD(1) assms(2), of g] assms(1) by (auto simp: subtracting_def)
  then have "bin_count g' = bin_count g" by (simp add: restated_def bin_count_def fun_eq_iff)
  then show ?thesis using assms(1) g' True by (auto simp: subtracting_def restated_def)
next
  case False
  then show ?thesis using assms(1) by (simp add: subtracting_def)
qed

section \<open>Properties\<close>



text \<open>
  C15. Subtraction from a histogram whose total is exact never panics (its \<open>expect\<close>s cannot
  fail). On success each bin has lost exactly the counts of the subtrahend bins that fall into
  it, the result is well-formed and its total exact, recomputed or not. It fails with
  \<open>SubtrahendValueExceedsMinuendRange\<close>, untouched, when the subtrahend's maximum does not fit,
  and with \<open>SubtrahendCountExceedsMinuendCount\<close> only when some bin has less than is taken from it.
\<close>

theorem subtract_takes_from_bins:
  fixes h :: "'c::len word histogram"
  assumes "wf h" and "wf s" and "exact h" and "LENGTH('c) \<le> 64"
  shows "case subtract h s of
      Ok h' \<Rightarrow> wf h' \<and> exact h' \<and>
        (\<forall>i. bin_count h' i + moved h s [0..<length (counts s)] i = bin_count h i)
    | Err (SubtrahendValueExceedsMinuendRange, h') \<Rightarrow> h' = h \<and> top_value h < highest_equivalent h (hist_max s)
    | Err (SubtrahendCountExceedsMinuendCount, h') \<Rightarrow>
        (\<exists>i. bin_count h i < moved h s [0..<length (counts s)] i)
    | Panic \<Rightarrow> False"
proof -
  note w = wfD [OF assms(1)]
  let ?js = "[0..<length (counts s)]"
  obtain a b where eq: "subtract h s = (if top_value h < highest_equivalent h (hist_max s)
      then Err (SubtrahendValueExceedsMinuendRange, h)
      else bind_res (subtract_bins a b h (total_count h = - 1) s ?js)
        (\<lambda>(h', needs). if needs then restat h' (length (counts h')) else Ok h'))"
    using subtract_eq [OF assms(1), of s] by blast
  show ?thesis
  proof (cases "top_value h < highest_equivalent h (hist_max s)")
    case False
    have "subtracting h s [] h (total_count h = - 1)"
      using assms(1,3) unat_le_u64_max [of "total_count h"]
      by (auto simp: subtracting_def eq_minus_1_iff)
    note out = subtract_bins_outcome [OF this wfD(3) [OF assms(2)] assms(4), of ?js a b]
    note fits = subtrahend_fits [OF w(3) assms(2) False]
    show ?thesis
    proof (cases "subtract_bins a b h (total_count h = - 1) s ?js")
      case (Ok r)
      obtain g needs where r: "r = (g, needs)" by (cases r)
      have "subtracting h s ?js g needs" using out fits by (simp add: Ok r)
      from restat_subtracted [OF this assms(4)] show ?thesis using False by (auto simp: eq Ok r)
    next
      case (Err p)
      then show ?thesis using out fits False by (cases p) (simp add: eq)
    next
      case Panic
      then show ?thesis using out fits by simp
    qed
  qed (simp add: eq)
qed

theorem subtract_takes_from_bins_witness:
  "case subtract sample (clear sample) of
      Ok h' \<Rightarrow> wf h' \<and> exact h' \<and>
        (\<forall>i. bin_count h' i + moved sample (clear sample) [0..<length (counts (clear sample))] i = bin_count sample i)
    | Err (SubtrahendValueExceedsMinuendRange, h') \<Rightarrow>
        h' = sample \<and> top_value sample < highest_equivalent sample (hist_max (clear sample))
    | Err (SubtrahendCountExceedsMinuendCount, h') \<Rightarrow>
        (\<exists>i. bin_count sample i < moved sample (clear sample) [0..<length (counts (clear sample))] i)
    | Panic \<Rightarrow> False"
  by (rule subtract_takes_from_bins [OF wf_sample wf_clear [OF wf_sample] exact_sample]) simp

text \<open>
  C20. \<open>clone\<close> of a well-formed histogram whose total is the (saturated) sum of its counts and whose range
  ends below the top of \<open>u64\<close>: it does not panic, and yields a well-formed histogram with the same
  configuration and counts that is equal to the original under \<open>PartialEq\<close>. (Of a histogram up to
  \<open>u64::MAX\<close> it can panic: \<open>clone_of_max_value_panics\<close>. Where a bin of a narrow counter has saturated, the
  total of the copy is the sum of the counts, not the original's.)
\<close>

theorem clone_equals_original:
  fixes h :: "'c::len word histogram"
  assumes "wf h" and "exact h" and "LENGTH('c) \<le> 64" and "capacity h < 2 ^ 64"
  shows "\<exists>h'. clone h = (Ok h' :: (unit, 'c word histogram) res) \<and> wf h' \<and> counts h' = counts h \<and>
    hist_eq h' h \<and> auto_resize h' = auto_resize h \<and> high h' = high h"
  by (rule clone_same [OF assms, where ?'e = unit]) (auto simp: high_def)

theorem clone_equals_original_witness:
  "\<exists>h'. clone sample = (Ok h' :: (unit, u64 histogram) res) \<and> wf h' \<and> counts h' = counts sample \<and>
    hist_eq h' sample \<and> auto_resize h' = auto_resize sample \<and> high h' = high sample"
  by (rule clone_equals_original [OF wf_sample exact_sample]) (simp_all add: capacity_sample)

text \<open>
  The top of the \<open>u64\<close> range: the top of the last bin of a histogram that covers all of
  \<open>u64\<close> is computed as \<open>u64::MAX - 1\<close>, so a fixed-range histogram that has recorded
  \<open>u64::MAX\<close> does not accept even a histogram of its own configuration, and \<open>clone\<close>, which
  unwraps the result, panics.
\<close>

theorem clone_of_max_value_panics:
  "\<exists>h. record_n (fresh 1 (- 1) 0 :: u64 histogram) (- 1) 1 = Ok h \<and> wf h \<and> exact h \<and>
    hist_max h = - 1 \<and> unat (top_value h) = u64_max - 1 \<and> clone h = (Panic :: (unit, u64 histogram) res)"
proof -
  let ?f = "fresh 1 (- 1) 0 :: u64 histogram"
  have cfg: "config_um 1 = 0" "config_mag 0 = 1" by (simp_all add: eval_layout)
  have wf: "wf ?f" by (rule wf_fresh) (simp_all add: cfg word_le_nat_alt u64_max_def)
  note w = wfD [OF wf]
  have f: "um ?f = 0" "hm ?f = 0" "unit_magnitude_mask ?f = 0" "max_value ?f = 0" "auto_resize ?f = False"
    "highest_trackable_value ?f = - 1" "total_count ?f = 0" "sum_counts (counts ?f) = 0"
    by (simp_all add: fresh_def cfg Let_def)
  have "bin_bucket 0 0 u64_max = 63" by (simp add: bin_bucket_def u64_max_def bit_len.simps)
  then have bc: "bc ?f = 64" using sized_okD(4) [OF w(1)] f by simp
  have cap: "capacity ?f = 2 ^ 64" by (simp add: capacity_def bc f)
  let ?h = "bump ?f (- 1) 1"
  have lt: "unat (- 1 :: u64) < capacity ?f" by (simp add: cap u64_max_def)
  have r: "record_n ?f (- 1) 1 = Ok ?h"
    using lt by (simp add: record_n_def record_n_inner_eq w(1))
  have wh: "wf ?h" by (rule wf_bump [OF wf lt])
  have eh: "exact ?h"
    by (rule exact_bump [OF _ _ w(3) lt]) (simp_all add: exact_def f)
  have "max_value ?h = - 1"
    by (simp add: bump_def Let_def update_min_max_def update_max_def update_min_def f word_gt_0)
  then have mx: "hist_max ?h = - 1" by (simp add: hist_max_def highest_equivalent_def ORIGINAL_MAX_def)
  have top: "unat (top_value g) = u64_max - 1" if "wf g" "capacity g = 2 ^ 64" for g :: "u64 histogram"
    using unat_top_value [OF wfD(3) [OF that(1)]] that(2) by (simp add: u64_max_def)
  have wb: "wf (blank ?h)" by (rule wf_blank [OF wh])
  have "capacity (blank ?h) = 2 ^ 64" by (simp add: blank_def cap)
  then have "top_value (blank ?h) < hist_max ?h"
    using top [OF wb] mx by (simp add: word_less_nat_alt u64_max_def)
  moreover have "auto_resize (blank ?h) = False" using f(5) by (simp add: blank_def)
  ultimately have "add (blank ?h) ?h = Err (OtherAddendValueExceedsRange, blank ?h)"
    by (simp add: add_eq [OF wb])
  then have "clone ?h = (Panic :: (unit, u64 histogram) res)"
    by (simp add: clone_def new_from_eq [OF wfD(1) [OF wh]] add_assign_def)
  then show ?thesis
    using r wh eh mx top [OF wh] cap by (intro exI [of _ ?h]) simp
qed

end
