(* ===== verification/Queries.thy ===== *)
theory Queries
  imports Combining Double
begin

unbundle bit_operations_syntax

text \<open>
  Queries by quantile and by value (\<open>lib.rs\<close>): \<open>value_at_quantile\<close> and its inverse
  \<open>quantile_below\<close>, \<open>count_between\<close>, \<open>count_at\<close>. The scan of the counts is a recursion over the
  indices, the floating-point target is computed with the rounding of the theory Double.
\<close>

section \<open>Operations\<close>

text \<open>The loop of \<open>value_at_quantile\<close>: the first index whose running total reaches the target.\<close>

fun scan_to_count :: "nat \<Rightarrow> 'c::len word list \<Rightarrow> u64 \<Rightarrow> u64 \<Rightarrow> nat option" where
  "scan_to_count i [] total_to_current_index count_at_quantile = None"
| "scan_to_count i (c # cs) total_to_current_index count_at_quantile =
     (let total = total_to_current_index + as_u64 c
      in if total \<ge> count_at_quantile then Some i
         else scan_to_count (Suc i) cs total count_at_quantile)"

definition cap_quantile :: "f64 \<Rightarrow> f64" where
  "cap_quantile quantile = (if f64_lt (Fin 1) quantile then Fin 1 else quantile)"

definition count_at_quantile :: "'c histogram \<Rightarrow> f64 \<Rightarrow> u64" where
  "count_at_quantile h quantile =
     (let fractional_count = f64_mul quantile (u64_as_f64 (total_count h));
          count = f64_as_u64 (f64_ceil fractional_count)
      in if count = 0 then 1 else count)"

definition value_at_quantile :: "'c::len word histogram \<Rightarrow> f64 \<Rightarrow> ('e, u64) res" where
  "value_at_quantile h quantile0 =
     (let quantile = cap_quantile quantile0
      in case scan_to_count 0 (counts h) 0 (count_at_quantile h quantile) of
           None \<Rightarrow> Ok 0
         | Some i \<Rightarrow>
             bind_res (value_for h i) (\<lambda>value_at_index.
               if f64_eq quantile (Fin 0) then Ok (lowest_equivalent h value_at_index)
               else Ok (highest_equivalent h value_at_index)))"

definition value_at_percentile :: "'c::len word histogram \<Rightarrow> f64 \<Rightarrow> ('e, u64) res" where
  "value_at_percentile h percentile = value_at_quantile h (f64_div percentile (Fin 100))"

text \<open>\<open>(a..b).map(count_at_index).fold(saturating_add)\<close>\<close>

fun sum_range :: "'c::len word histogram \<Rightarrow> nat list \<Rightarrow> u64 \<Rightarrow> ('e, u64) res" where
  "sum_range h [] t = Ok t"
| "sum_range h (i # rest) t =
     bind_res (expect (count_at_index h i)) (\<lambda>v. sum_range h rest (saturating_add t (as_u64 v)))"

definition quantile_below :: "'c::len word histogram \<Rightarrow> u64 \<Rightarrow> ('e, f64) res" where
  "quantile_below h value =
     (if total_count h = 0 then Ok (Fin 1)
      else bind_res (index_for_or_last h value) (\<lambda>target_index.
           bind_res (expect (checked_add_usize target_index 1)) (\<lambda>end_index.
           bind_res (sum_range h [0..<end_index] 0) (\<lambda>total_to_current_index.
             Ok (f64_div (u64_as_f64 total_to_current_index) (u64_as_f64 (total_count h)))))))"

definition percentile_below :: "'c::len word histogram \<Rightarrow> u64 \<Rightarrow> ('e, f64) res" where
  "percentile_below h value = bind_res (quantile_below h value) (\<lambda>q. Ok (f64_mul q (Fin 100)))"

definition count_between :: "'c::len word histogram \<Rightarrow> u64 \<Rightarrow> u64 \<Rightarrow> ('e, u64) res" where
  "count_between h lo hi =
     bind_res (index_for_or_last h lo) (\<lambda>low_index.
     bind_res (index_for_or_last h hi) (\<lambda>high_index.
     bind_res (expect (checked_add_usize high_index 1)) (\<lambda>end_index.
       sum_range h [low_index..<end_index] 0)))"

definition count_at :: "'c::len word histogram \<Rightarrow> u64 \<Rightarrow> ('e, 'c word) res" where
  "count_at h value = bind_res (index_for_or_last h value) (\<lambda>i. expect (count_at_index h i))"

section \<open>The scan\<close>

lemma scan_to_count_Some:
  assumes "LENGTH('c) \<le> 64" and "0 < unat k" and "unat t < unat k"
    and "unat t + sum_counts (cs :: 'c::len word list) \<le> u64_max"
    and "unat k \<le> unat t + sum_counts cs"
  shows "\<exists>j. scan_to_count i cs t k = Some (i + j) \<and> j < length cs \<and>
    unat t + sum_counts (take j cs) < unat k \<and> unat k \<le> unat t + sum_counts (take (Suc j) cs)"
  using assms(3-)
proof (induction cs arbitrary: i t)
  case (Cons c cs)
  have u: "unat (t + ucast c) = unat t + unat c"
    using Cons.prems(2) unat_ucast_count [OF assms(1), of c] by (subst unat_add_nat) (simp_all add: u64_max_def)
  show ?case
  proof (cases "t + ucast c \<ge> k")
    case True
    then show ?thesis using u Cons.prems(1) by (intro exI [of _ 0]) (simp add: Let_def word_le_nat_alt)
  next
    case False
    then have "unat (t + ucast c) < unat k" by (simp add: word_le_nat_alt)
    moreover have "unat (t + ucast c) + sum_counts cs \<le> u64_max"
      and "unat k \<le> unat (t + ucast c) + sum_counts cs" using Cons.prems u by simp_all
    ultimately obtain j where "scan_to_count (Suc i) cs (t + ucast c) k = Some (Suc i + j)"
      "j < length cs" "unat (t + ucast c) + sum_counts (take j cs) < unat k"
      "unat k \<le> unat (t + ucast c) + sum_counts (take (Suc j) cs)"
      using Cons.IH [of "t + ucast c" "Suc i"] by blast
    then show ?thesis using False u by (intro exI [of _ "Suc j"]) (simp add: Let_def)
  qed
qed simp

lemma index_for_or_last_eq:
  assumes "bins_ok h"
  shows "index_for_or_last h v = Ok (min (h_index h (unat v)) (length (counts h) - 1))"
  unfolding index_for_or_last_def last_bin(1) [OF assms]
  by (simp add: index_for_h_index [OF bins_okD(1) [OF assms]])

lemma sum_range_eq:
  assumes "LENGTH('c) \<le> 64" and "\<forall>i \<in> set is. i < length (counts h)"
  shows "\<exists>r. sum_range h is t = (Ok r :: ('e, u64) res) \<and>
    unat r = min u64_max (unat t + sum_list (map (bin_count (h :: 'c::len word histogram)) is))"
  using assms(2)
proof (induction "is" arbitrary: t)
  case Nil
  then show ?case using unat_le_u64_max [of t] by simp
next
  case (Cons i rest)
  then obtain r where "sum_range h rest (saturating_add t (ucast (counts h ! i))) = (Ok r :: ('e, u64) res)"
    "unat r = min u64_max (unat (saturating_add t (ucast (counts h ! i))) + sum_list (map (bin_count h) rest))"
    by (metis list.set_intros(2))
  moreover have "unat (saturating_add t (ucast (counts h ! i))) = min u64_max (unat t + bin_count h i)"
    using Cons.prems by (simp add: unat_saturating_add_u64 unat_ucast_count [OF assms(1)] bin_count_def)
  ultimately show ?case
    using Cons.prems by (simp add: count_at_index_def min_min_add add.assoc)
qed

lemma sum_bin_count_upt:
  "n \<le> length (counts h) \<Longrightarrow> sum_list (map (bin_count h) [0..<n]) = sum_counts (take n (counts h))"
  by (induction n) (simp_all add: sum_counts_take_Suc bin_count_def)

section \<open>The floating-point target\<close>

lemma f64_ceil_of_round:
  assumes "0 \<le> x" and "x \<le> of_nat n" and "n \<le> 2 ^ 53"
  shows "\<exists>y. f64_round x = Fin y \<and> 0 \<le> y \<and> y \<le> of_nat n"
proof (cases "x = 0")
  case False
  then have x: "0 < x" using assms(1) by simp
  then have n: "0 < n" using assms(2) by (cases n) simp_all
  have "round_val (of_nat n) = of_nat n"
    using f64_round_nat [OF assms(3)] n f64_round_pos [of "of_nat n"] by (simp split: if_splits)
  then have le: "round_val x \<le> of_nat n" using round_val_mono [OF x assms(2)] by simp
  have "(of_nat n :: rat) \<le> 2 ^ 53"
    using assms(3) by (metis of_nat_le_iff of_nat_numeral of_nat_power)
  then have "\<not> 2 ^ 1024 \<le> round_val x"
    using le power_strict_increasing [of 53 1024 "2::rat"] by linarith
  moreover have "0 \<le> rne_rat (x / quantum x)" using x by (intro rne_rat_nonneg) (simp add: less_imp_le)
  then have "0 \<le> round_val x" by (simp add: round_val_def less_imp_le)
  ultimately show ?thesis using le by (simp add: f64_round_pos [OF x])
qed (simp add: f64_round_def)

text \<open>The target for a quantile between 0 and 1, and below \<open>2 ^ 53\<close> samples.\<close>

lemma count_at_quantile_eq:
  assumes "0 \<le> q" and "q \<le> 1" and "unat (total_count h) \<le> 2 ^ 53"
  obtains y where "f64_round (q * of_nat (unat (total_count h))) = Fin y" and "0 \<le> y"
    and "y \<le> of_nat (unat (total_count h))"
    and "unat (count_at_quantile h (Fin q)) = max 1 (nat \<lceil>y\<rceil>)"
proof -
  define n where "n = unat (total_count h)"
  have n: "n \<le> 2 ^ 53" using assms(3) by (simp add: n_def)
  have "q * of_nat n \<le> of_nat n" using assms(1,2) by (simp add: mult_left_le_one_le)
  then obtain y where y: "f64_round (q * of_nat n) = Fin y" "0 \<le> y" "y \<le> of_nat n"
    using f64_ceil_of_round [of "q * of_nat n" n] assms(1) n by auto
  have c: "0 \<le> \<lceil>y\<rceil>" "\<lceil>y\<rceil> \<le> int n"
    using y(2,3) by (simp_all add: ceiling_le_iff order_trans [of "- 1" 0 y] less_le_trans [of "- 1" 0 y])
  then have u: "unat (f64_as_u64 (Fin (of_int \<lceil>y\<rceil>))) = nat \<lceil>y\<rceil>"
  proof (subst unat_f64_as_u64_Fin)
    have "int n < int u64_max" using n by (simp add: u64_max_def)
    then have "\<not> int u64_max \<le> \<lceil>y\<rceil>" using c(2) by linarith
    then have "\<not> of_nat u64_max \<le> (of_int \<lceil>y\<rceil> :: rat)" by (metis of_int_le_iff of_int_of_nat_eq)
    then show "(if of_nat u64_max \<le> (of_int \<lceil>y\<rceil> :: rat) then u64_max else nat \<lfloor>of_int \<lceil>y\<rceil> :: rat\<rfloor>) = nat \<lceil>y\<rceil>"
      by (simp only: if_False floor_of_int)
  qed (use c in simp)
  have "f64_mul (Fin q) (u64_as_f64 (total_count h)) = Fin y"
    using y(1) u64_as_f64_exact [of "total_count h"] n by (simp add: n_def)
  then have "count_at_quantile h (Fin q) =
      (if f64_as_u64 (Fin (of_int \<lceil>y\<rceil>)) = 0 then 1 else f64_as_u64 (Fin (of_int \<lceil>y\<rceil>)))"
    by (simp add: count_at_quantile_def Let_def)
  then have "unat (count_at_quantile h (Fin q)) = max 1 (nat \<lceil>y\<rceil>)"
    using u by (auto simp: max_def unat_gt_0 Suc_le_eq word_unat_eq_iff [of "f64_as_u64 (Fin (of_int \<lceil>y\<rceil>))"])
  with y show thesis unfolding n_def by (intro that)
qed

lemma count_at_quantile_bounds:
  assumes "0 \<le> q" and "q \<le> 1" and "0 < unat (total_count h)" and "unat (total_count h) \<le> 2 ^ 53"
  shows "1 \<le> unat (count_at_quantile h (Fin q))"
    and "unat (count_at_quantile h (Fin q)) \<le> unat (total_count h)"
proof -
  obtain y where "f64_round (q * of_nat (unat (total_count h))) = Fin y" "0 \<le> y"
    and y: "y \<le> of_nat (unat (total_count h))" "unat (count_at_quantile h (Fin q)) = max 1 (nat \<lceil>y\<rceil>)"
    by (rule count_at_quantile_eq [OF assms(1,2,4)])
  have "\<lceil>y\<rceil> \<le> int (unat (total_count h))" unfolding ceiling_le_iff using y(1) by (simp only: of_int_of_nat_eq)
  then have "nat \<lceil>y\<rceil> \<le> unat (total_count h)" by (simp only: nat_le_iff)
  then show "1 \<le> unat (count_at_quantile h (Fin q))"
    and "unat (count_at_quantile h (Fin q)) \<le> unat (total_count h)"
    using assms(3) unfolding y(2) by linarith+
qed

lemma count_at_quantile_mono:
  assumes "0 \<le> p" and "p \<le> q" and "q \<le> 1" and "unat (total_count h) \<le> 2 ^ 53"
  shows "unat (count_at_quantile h (Fin p)) \<le> unat (count_at_quantile h (Fin q))"
proof -
  let ?n = "of_nat (unat (total_count h)) :: rat"
  obtain x where x: "f64_round (p * ?n) = Fin x" "unat (count_at_quantile h (Fin p)) = max 1 (nat \<lceil>x\<rceil>)"
    using assms by (auto intro: count_at_quantile_eq [of p h])
  obtain y where y: "f64_round (q * ?n) = Fin y" "0 \<le> y" "unat (count_at_quantile h (Fin q)) = max 1 (nat \<lceil>y\<rceil>)"
    using assms by (auto intro: count_at_quantile_eq [of q h])
  have le: "p * ?n \<le> q * ?n" using assms(2) of_nat_0_le_iff by (rule mult_right_mono)
  have "x \<le> y"
  proof (cases "p * ?n = 0")
    case True
    then show ?thesis using x(1) y(2) by (simp add: f64_round_def)
  next
    case False
    moreover have "0 \<le> p * ?n" by (rule mult_nonneg_nonneg [OF assms(1) of_nat_0_le_iff])
    ultimately have "0 < p * ?n" by linarith
    moreover from this le have "0 < q * ?n" by linarith
    ultimately show ?thesis
      using x(1) y(1) round_val_mono [OF _ le] by (simp add: f64_round_pos split: if_splits)
  qed
  then have "nat \<lceil>x\<rceil> \<le> nat \<lceil>y\<rceil>" by (intro nat_mono ceiling_mono)
  then show ?thesis unfolding x(2) y(3) by linarith
qed

lemma highest_equivalent_mono:
  assumes "layout_ok h" and "v \<le> w"
  shows "highest_equivalent h v \<le> highest_equivalent h w"
proof (cases "h_index h (unat v) = h_index h (unat w)")
  case True
  show ?thesis
  proof (cases "w = - 1")
    case True
    then show ?thesis by (simp add: highest_equivalent_def)
  next
    case False
    then have "v \<noteq> - 1" using assms(2) word_order.extremum_unique by blast
    then show ?thesis using same_bin(2) [OF assms(1) True] False by simp
  qed
next
  case False
  have "highest_equivalent h v \<le> w"
  proof (rule ccontr)
    assume "\<not> highest_equivalent h v \<le> w"
    then have "w \<le> highest_equivalent h v" by simp
    then have "h_index h (unat w) \<le> h_index h (unat v)"
      using h_index_u64_mono [OF assms(1)] h_index_highest_equivalent [OF assms(1)] by metis
    with False h_index_u64_mono [OF assms] show False by simp
  qed
  also have "w \<le> highest_equivalent h w" by (rule le_highest_equivalent [OF assms(1)])
  finally show ?thesis .
qed

lemma highest_equivalent_idem:
  assumes "layout_ok h"
  shows "highest_equivalent h (highest_equivalent h v) = highest_equivalent h v"
proof (cases "v = - 1 \<or> highest_equivalent h v = - 1")
  case True
  then show ?thesis by (auto simp: highest_equivalent_def)
next
  case False
  then show ?thesis
    using same_bin(2) [OF assms h_index_highest_equivalent [OF assms, of v]] by simp
qed

text \<open>The bin the scan stops at.\<close>

lemma value_at_quantile_bin:
  fixes h :: "'c::len word histogram"
  assumes "wf h" and "exact h" and "LENGTH('c) \<le> 64" and "0 \<le> q" and "q \<le> 1"
    and "0 < unat (total_count h)" and "unat (total_count h) \<le> 2 ^ 53"
  defines "k \<equiv> unat (count_at_quantile h (Fin q))"
  obtains i where "i < length (counts h)"
    and "value_at_quantile h (Fin q) = (Ok (if q = 0 then lowest_equivalent h (of_nat (h_value h i))
      else highest_equivalent h (of_nat (h_value h i))) :: ('e, u64) res)"
    and "sum_counts (take i (counts h)) < k" and "k \<le> sum_counts (take (Suc i) (counts h))"
proof -
  note k = count_at_quantile_bounds [OF assms(4-7)]
  have sum: "unat (total_count h) = sum_counts (counts h)"
    using assms(2,7) by (auto simp: exact_def u64_max_def min_def split: if_splits)
  have "\<exists>j. scan_to_count 0 (counts h) 0 (count_at_quantile h (Fin q)) = Some (0 + j) \<and> j < length (counts h) \<and>
      unat (0 :: u64) + sum_counts (take j (counts h)) < unat (count_at_quantile h (Fin q)) \<and>
      unat (count_at_quantile h (Fin q)) \<le> unat (0 :: u64) + sum_counts (take (Suc j) (counts h))"
    using k sum assms(7) by (intro scan_to_count_Some [OF assms(3)]) (simp_all add: u64_max_def)
  then obtain i where i: "scan_to_count 0 (counts h) 0 (count_at_quantile h (Fin q)) = Some i"
    "i < length (counts h)" "sum_counts (take i (counts h)) < k" "k \<le> sum_counts (take (Suc i) (counts h))"
    by (auto simp: k_def)
  have "cap_quantile (Fin q) = Fin q" using assms(5) by (simp add: cap_quantile_def)
  then show thesis
    using i value_for_bins(4) [OF wfD(3) [OF assms(1)] i(2)]
    by (intro that [of i]) (simp_all add: value_at_quantile_def Let_def value_for_bins(4) [OF wfD(3) [OF assms(1)] i(2)])
qed


text \<open>Without a sample the target is never reached.\<close>

lemma scan_to_count_empty:
  "sum_counts (cs :: 'c::len word list) = 0 \<Longrightarrow> 0 < k \<Longrightarrow> scan_to_count i cs 0 k = None"
proof (induction cs arbitrary: i)
  case (Cons c cs)
  then have "c = 0" "sum_counts cs = 0" by (simp_all add: sum_counts_def word_unat_eq_iff)
  then show ?case using Cons by (simp add: as_u64_def not_le)
qed simp

lemma value_at_quantile_empty:
  assumes "exact h" and "total_count h = 0"
  shows "value_at_quantile h q = (Ok 0 :: ('e, u64) res)"
proof -
  have "sum_counts (counts h) = 0" using assms by (simp add: exact_def u64_max_def min_def split: if_splits)
  moreover have "0 < count_at_quantile h x" for x by (simp add: count_at_quantile_def word_gt_0 Let_def)
  ultimately show ?thesis by (simp add: value_at_quantile_def scan_to_count_empty)
qed

text \<open>A small histogram of four samples.\<close>

definition loaded :: "u64 histogram" where
  "loaded = bump (bump sample 5 3) 90 1"

lemma loaded_facts:
  "wf loaded" "exact loaded" "unat (total_count loaded) = 4" "capacity loaded = 128"
proof -
  have w: "wf (bump sample 5 3)" by (rule wf_bump [OF wf_sample]) (simp add: capacity_sample)
  show "wf loaded" unfolding loaded_def by (rule wf_bump [OF w]) (simp add: capacity_sample)
  have "exact (bump sample 5 3)"
    by (rule exact_bump [OF exact_sample _ wfD(3) [OF wf_sample]]) (simp_all add: capacity_sample)
  then show "exact loaded" unfolding loaded_def
    by (rule exact_bump [OF _ _ wfD(3) [OF w]]) (simp_all add: capacity_sample)
  show "unat (total_count loaded) = 4"
    by (simp add: loaded_def total_count_bump saturating_add_def sample_eq)
  show "capacity loaded = 128" by (simp add: loaded_def capacity_sample)
qed

lemma value_at_quantile_mono_nonempty:
  fixes h :: "'c::len word histogram"
  assumes "wf h" and "exact h" and "LENGTH('c) \<le> 64" and "0 \<le> p" and "p \<le> q" and "q \<le> 1"
    and "0 < unat (total_count h)" and "unat (total_count h) \<le> 2 ^ 53"
  shows "\<exists>v w. value_at_quantile h (Fin p) = (Ok v :: (unit, u64) res) \<and>
    value_at_quantile h (Fin q) = (Ok w :: (unit, u64) res) \<and> v \<le> w"
proof -
  note w = wfD [OF assms(1)]
  have p: "p \<le> 1" and q: "0 \<le> q" using assms(4-6) by simp_all
  obtain i where i: "i < length (counts h)"
    "value_at_quantile h (Fin p) = (Ok (if p = 0 then lowest_equivalent h (of_nat (h_value h i))
      else highest_equivalent h (of_nat (h_value h i))) :: (unit, u64) res)"
    "sum_counts (take i (counts h)) < unat (count_at_quantile h (Fin p))"
    using value_at_quantile_bin [OF assms(1-4) p assms(7,8)] by metis
  obtain j where j: "j < length (counts h)"
    "value_at_quantile h (Fin q) = (Ok (if q = 0 then lowest_equivalent h (of_nat (h_value h j))
      else highest_equivalent h (of_nat (h_value h j))) :: (unit, u64) res)"
    "unat (count_at_quantile h (Fin q)) \<le> sum_counts (take (Suc j) (counts h))"
    using value_at_quantile_bin [OF assms(1-3) q assms(6-8)] by metis
  have "sum_counts (take i (counts h)) < sum_counts (take (Suc j) (counts h))"
    using i(3) j(3) count_at_quantile_mono [OF assms(4-6,8)] by linarith
  then have "i \<le> j"
    using sum_counts_take_mono [of "Suc j" i "counts h"] by (metis leD not_less_eq_eq)
  then have "h_value h i \<le> h_value h j" using j(1) by (intro bins.val_mono [OF w(3)])
  then have le: "(of_nat (h_value h i) :: u64) \<le> of_nat (h_value h j)"
    unfolding word_le_nat_alt by (simp only: h_index_h_value(2) [OF w(3)] i(1) j(1))
  let ?x = "of_nat (h_value h i) :: u64" and ?y = "of_nat (h_value h j) :: u64"
  have hh: "highest_equivalent h ?x \<le> highest_equivalent h ?y" by (rule highest_equivalent_mono [OF w(2) le])
  have lh: "lowest_equivalent h ?x \<le> highest_equivalent h ?y"
    using lowest_equivalent_le [OF w(2), of ?x] le_highest_equivalent [OF w(2), of ?y] le by (meson order_trans)
  have ll: "q = 0 \<Longrightarrow> p = 0" using assms(4,5) by simp
  have "q = 0 \<Longrightarrow> i = j"
  proof -
    assume "q = 0"
    with ll have "value_at_quantile h (Fin p) = (value_at_quantile h (Fin q) :: (unit, u64) res)" by simp
    with i(2) j(2) \<open>q = 0\<close> ll have "lowest_equivalent h ?x = lowest_equivalent h ?y" by simp
    then have "h_index h (unat ?x) = h_index h (unat ?y)"
      by (metis h_index_lowest_equivalent [OF w(2)])
    then show "i = j" using h_index_h_value(1) [OF w(3)] i(1) j(1) by simp
  qed
  then show ?thesis using i(2) j(2) hh lh ll by (cases "q = 0"; cases "p = 0") simp_all
qed

section \<open>Properties\<close>

text \<open>
  C9. \<open>value_at_quantile\<close> has the rank it promises, on a well-formed histogram whose total is the sum
  of its counts and at most \<open>2 ^ 53\<close> (where a total is still exact as a double), for a quantile between 0
  and 1: it does not panic; it returns 0 if there is no sample; otherwise it returns the highest (for
  quantile 0 the lowest) value of a non-empty bin such that the samples in the bins before it are fewer
  than the target, and with it at least as many. The target is a rank between 1 and the number of samples.
\<close>

theorem value_at_quantile_rank:
  fixes h :: "'c::len word histogram"
  assumes "wf h" and "exact h" and "LENGTH('c) \<le> 64" and "0 \<le> q" and "q \<le> 1"
    and "unat (total_count h) \<le> 2 ^ 53"
  shows "if total_count h = 0 then value_at_quantile h (Fin q) = (Ok 0 :: (unit, u64) res)
    else \<exists>i v. value_at_quantile h (Fin q) = (Ok v :: (unit, u64) res) \<and>
    i < length (counts h) \<and> counts h ! i \<noteq> 0 \<and> index_for h v = Some i \<and>
    v = (if q = 0 then lowest_equivalent h v else highest_equivalent h v) \<and>
    sum_counts (take i (counts h)) < unat (count_at_quantile h (Fin q)) \<and>
    unat (count_at_quantile h (Fin q)) \<le> sum_counts (take (Suc i) (counts h)) \<and>
    1 \<le> unat (count_at_quantile h (Fin q)) \<and>
    unat (count_at_quantile h (Fin q)) \<le> unat (total_count h)"
proof (cases "total_count h = 0")
  case False
  then have pos: "0 < unat (total_count h)" by (simp add: unat_gt_0)
  note w = wfD [OF assms(1)]
  obtain i where i: "i < length (counts h)"
    "value_at_quantile h (Fin q) = (Ok (if q = 0 then lowest_equivalent h (of_nat (h_value h i))
      else highest_equivalent h (of_nat (h_value h i))) :: (unit, u64) res)"
    "sum_counts (take i (counts h)) < unat (count_at_quantile h (Fin q))"
    "unat (count_at_quantile h (Fin q)) \<le> sum_counts (take (Suc i) (counts h))"
    by (rule value_at_quantile_bin [OF assms(1-5) pos assms(6)])
  let ?x = "of_nat (h_value h i) :: u64"
  let ?v = "if q = 0 then lowest_equivalent h ?x else highest_equivalent h ?x"
  have ix: "h_index h (unat ?v) = h_index h (unat ?x)"
    by (simp add: h_index_lowest_equivalent w(2) h_index_highest_equivalent)
  then have "index_for h ?v = Some i"
    using h_index_h_value(1) [OF w(3) i(1)] by (simp add: index_for_h_index w(2))
  moreover have "counts h ! i \<noteq> 0"
    using i(1,3,4) by (auto simp: sum_counts_take_Suc)
  moreover have "lowest_equivalent h (lowest_equivalent h ?x) = lowest_equivalent h ?x"
    using same_bin(1) [OF w(2)] h_index_lowest_equivalent [OF w(2)] by blast
  moreover have "highest_equivalent h (highest_equivalent h ?x) = highest_equivalent h ?x"
    using highest_equivalent_idem [OF w(2)] by blast
  ultimately show ?thesis
    unfolding if_not_P [OF False]
    using i count_at_quantile_bounds [OF assms(4,5) pos assms(6)] by (intro exI [of _ i] exI [of _ ?v]) simp
qed (simp add: value_at_quantile_empty assms(2))

theorem value_at_quantile_rank_witness:
  "\<exists>i v. value_at_quantile loaded (Fin (1 / 2)) = (Ok v :: (unit, u64) res) \<and>
    i < length (counts loaded) \<and> counts loaded ! i \<noteq> 0 \<and> index_for loaded v = Some i \<and>
    v = highest_equivalent loaded v \<and>
    sum_counts (take i (counts loaded)) < unat (count_at_quantile loaded (Fin (1 / 2))) \<and>
    unat (count_at_quantile loaded (Fin (1 / 2))) \<le> sum_counts (take (Suc i) (counts loaded)) \<and>
    1 \<le> unat (count_at_quantile loaded (Fin (1 / 2))) \<and>
    unat (count_at_quantile loaded (Fin (1 / 2))) \<le> unat (total_count loaded)"
  using value_at_quantile_rank [of loaded "1 / 2"] loaded_facts by (auto simp: word_unat_eq_iff)

text \<open>
  C21. \<open>value_at_quantile\<close> is monotone in the quantile, between 0 and 1, on a well-formed histogram
  whose total is the sum of its counts and at most \<open>2 ^ 53\<close>. (Where a narrow counter has saturated, so
  that the total is larger than the sum, it is not: a target above the sum gives 0.)
\<close>

theorem value_at_quantile_monotone:
  fixes h :: "'c::len word histogram"
  assumes "wf h" and "exact h" and "LENGTH('c) \<le> 64" and "0 \<le> p" and "p \<le> q" and "q \<le> 1"
    and "unat (total_count h) \<le> 2 ^ 53"
  shows "\<exists>v w. value_at_quantile h (Fin p) = (Ok v :: (unit, u64) res) \<and>
    value_at_quantile h (Fin q) = (Ok w :: (unit, u64) res) \<and> v \<le> w"
proof (cases "total_count h = 0")
  case False
  then show ?thesis using assms(7) by (intro value_at_quantile_mono_nonempty [OF assms(1-6)]) (simp_all add: unat_gt_0)
qed (simp add: value_at_quantile_empty assms(2))

theorem value_at_quantile_monotone_witness:
  "\<exists>v w. value_at_quantile loaded (Fin (1 / 2)) = (Ok v :: (unit, u64) res) \<and>
    value_at_quantile loaded (Fin 1) = (Ok w :: (unit, u64) res) \<and> v \<le> w"
  using value_at_quantile_monotone [of loaded "1 / 2" 1] loaded_facts by simp

text \<open>
  C22. \<open>count_between\<close> never panics and is the saturated sum of the bins from the one of the low
  value to the one of the high value, both clamped to the last bin; \<open>count_at\<close> is the count of
  the (clamped) bin of the value.
\<close>

theorem count_between_sums_bins:
  fixes h :: "'c::len word histogram"
  assumes "wf h" and "LENGTH('c) \<le> 64"
  defines "m \<equiv> length (counts h) - 1"
  shows "\<exists>r c. count_between h lo hi = (Ok r :: (unit, u64) res) \<and>
    unat r = min u64_max (sum_list (map (bin_count h)
      [min (h_index h (unat lo)) m..<Suc (min (h_index h (unat hi)) m)])) \<and>
    count_at h lo = (Ok c :: (unit, 'c word) res) \<and> unat c = bin_count h (min (h_index h (unat lo)) m)"
proof -
  note b = wfD(3) [OF assms(1)]
  have pos: "0 < length (counts h)" by (rule length_counts_pos [OF b])
  let ?l = "min (h_index h (unat lo)) m" and ?h = "min (h_index h (unat hi)) m"
  have "m < length (counts h)" using pos by (simp add: m_def)
  then have lt: "?l < length (counts h)" "?h < length (counts h)" by linarith+
  have "?h + 1 \<le> usize_max" using lt(2) length_counts_less [OF b] by (simp add: usize_max_def)
  then have ca: "checked_add_usize ?h 1 = Some (Suc ?h)" by (simp add: checked_add_usize_def)
  obtain r where r: "sum_range h [?l..<Suc ?h] 0 = (Ok r :: (unit, u64) res)"
    "unat r = min u64_max (unat (0 :: u64) + sum_list (map (bin_count h) [?l..<Suc ?h]))"
    using sum_range_eq [OF assms(2), of "[?l..<Suc ?h]" h 0] lt by fastforce
  have "count_between h lo hi = (Ok r :: (unit, u64) res)"
    using ca r(1) by (simp only: count_between_def index_for_or_last_eq [OF b] m_def [symmetric]
        bind_res.simps expect.simps)
  moreover have "count_at h lo = (Ok (counts h ! ?l) :: (unit, 'c word) res)"
    by (simp only: count_at_def index_for_or_last_eq [OF b] m_def [symmetric] bind_res.simps
        count_at_index_def lt(1) if_True expect.simps)
  moreover have "unat (counts h ! ?l) = bin_count h ?l" using lt(1) by (simp only: bin_count_def if_True)
  ultimately show ?thesis using r(2) by auto
qed

theorem count_between_sums_bins_witness:
  "\<exists>r c. count_between sample 3 200 = (Ok r :: (unit, u64) res) \<and>
    unat r = min u64_max (sum_list (map (bin_count sample)
      [min (h_index sample (unat (3 :: u64))) (length (counts sample) - 1)..<
       Suc (min (h_index sample (unat (200 :: u64))) (length (counts sample) - 1))])) \<and>
    count_at sample 3 = (Ok c :: (unit, u64) res) \<and>
    unat c = bin_count sample (min (h_index sample (unat (3 :: u64))) (length (counts sample) - 1))"
  by (rule count_between_sums_bins [OF wf_sample]) simp

end
