(* ===== verification/Iterators.thy ===== *)
theory Iterators
  imports Queries
begin

unbundle bit_operations_syntax

text \<open>
  The iterators (\<open>iterators/mod.rs\<close> and the pickers beside it): \<open>HistogramIterator::next\<close>, written
  once over the two functions of a \<open>PickyIterator\<close>, and the pickers for all bins, the recorded
  bins, linear and logarithmic steps and quantile ticks.
\<close>

section \<open>The picky iterator\<close>

record pick_metadata =
  picked_quantile :: "f64 option" \<comment> \<open>\<open>quantile_iterated_to\<close>\<close>
  picked_value :: "u64 option" \<comment> \<open>\<open>value_iterated_to\<close>\<close>

record 'c iteration_value =
  value_iterated_to :: u64
  quantile :: f64
  quantile_iterated_to :: f64
  count_at_value :: 'c
  count_since_last :: u64

definition percentile :: "'c iteration_value \<Rightarrow> f64" where
  "percentile v = f64_mul (quantile v) (Fin 100)"

text \<open>
  A picker of state \<open>'p\<close>: \<open>pick\<close> and \<open>more\<close> take the state and return it changed; they may panic.
\<close>

type_synonym ('c, 'p) pick_fn =
  "'p \<Rightarrow> nat \<Rightarrow> u64 \<Rightarrow> 'c word \<Rightarrow> (unit, 'p \<times> pick_metadata option) res"

type_synonym 'p more_fn = "'p \<Rightarrow> nat \<Rightarrow> (unit, 'p \<times> bool) res"

record ('c, 'p) histogram_iterator =
  hist :: "'c histogram"
  total_count_to_index :: u64
  count_since_last_iteration :: u64
  count_at_idx :: 'c \<comment> \<open>\<open>count_at_index\<close>\<close>
  current_index :: nat
  last_picked_index :: nat
  max_value_index :: nat
  fresh_index :: bool \<comment> \<open>\<open>fresh\<close>\<close>
  ended :: bool
  picker :: 'p

definition iterator_new ::
  "'c::len word histogram \<Rightarrow> 'p \<Rightarrow> (unit, ('c word, 'p) histogram_iterator) res" where
  "iterator_new h p =
     bind_res (expect (index_for h (hist_max h))) (\<lambda>m.
       Ok \<lparr>hist = h, total_count_to_index = 0, count_since_last_iteration = 0, count_at_idx = 0,
           current_index = 0, last_picked_index = 0, max_value_index = m, fresh_index = True,
           ended = False, picker = p\<rparr>)"

text \<open>
  One round of the loop of \<open>next\<close>: \<open>Inl\<close> goes round again, \<open>Inr\<close> returns. First the part that asks
  whether to go on and takes the counts of a fresh index in, then the part that picks.
\<close>

definition take_index ::
  "'p more_fn \<Rightarrow> ('c::len word, 'p) histogram_iterator
    \<Rightarrow> (unit, ('c word, 'p) histogram_iterator \<times> bool) res" where
  "take_index more_of it =
     (if last_picked_index it \<ge> max_value_index it then
        bind_res (more_of (picker it) (current_index it)) (\<lambda>(p, b). Ok (it\<lparr>picker := p\<rparr>, b))
      else
        bind_res (assert_that (current_index it < distinct_values (hist it))) (\<lambda>_.
          if fresh_index it then
            bind_res (expect (count_at_index (hist it) (current_index it))) (\<lambda>c.
              Ok (it\<lparr>count_at_idx := c,
                     total_count_to_index := saturating_add (total_count_to_index it) (as_u64 c),
                     count_since_last_iteration :=
                       saturating_add (count_since_last_iteration it) (as_u64 c),
                     fresh_index := False\<rparr>, True))
          else Ok (it, True)))"

definition pick_index ::
  "('c::len, 'p) pick_fn \<Rightarrow> ('c word, 'p) histogram_iterator
    \<Rightarrow> (unit, ('c word, 'p) histogram_iterator +
              ('c word, 'p) histogram_iterator \<times> 'c word iteration_value option) res" where
  "pick_index pick it =
     bind_res (pick (picker it) (current_index it) (total_count_to_index it) (count_at_idx it))
       (\<lambda>(p, m). let it1 = it\<lparr>picker := p\<rparr> in
         case m of
           None \<Rightarrow> Ok (Inl (it1\<lparr>current_index := current_index it1 + 1, fresh_index := True\<rparr>))
         | Some metadata \<Rightarrow>
             let q = f64_div (u64_as_f64 (total_count_to_index it1)) (u64_as_f64 (len (hist it1)))
             in bind_res
                  (case picked_value metadata of
                     Some v \<Rightarrow> Ok v
                   | None \<Rightarrow> bind_res (value_for (hist it1) (current_index it1))
                               (\<lambda>v. Ok (highest_equivalent (hist it1) v)))
                  (\<lambda>v. bind_res (expect (count_at_index (hist it1) (current_index it1))) (\<lambda>c.
                    let val = \<lparr>value_iterated_to = v, quantile = q,
                               quantile_iterated_to =
                                 (case picked_quantile metadata of Some q' \<Rightarrow> q' | None \<Rightarrow> q),
                               count_at_value = c,
                               count_since_last = count_since_last_iteration it1\<rparr>
                    in Ok (Inr (it1\<lparr>count_since_last_iteration := 0,
                                    last_picked_index := current_index it1\<rparr>, Some val)))))"

definition iterator_round ::
  "('c::len, 'p) pick_fn \<Rightarrow> 'p more_fn \<Rightarrow> ('c word, 'p) histogram_iterator
    \<Rightarrow> (unit, ('c word, 'p) histogram_iterator +
              ('c word, 'p) histogram_iterator \<times> 'c word iteration_value option) res" where
  "iterator_round pick more_of it =
     (if current_index it = distinct_values (hist it) then Ok (Inr (it\<lparr>ended := True\<rparr>, None))
      else bind_res (take_index more_of it) (\<lambda>(it1, go_on).
             if \<not> go_on then Ok (Inr (it1\<lparr>ended := True\<rparr>, None)) else pick_index pick it1))"

text \<open>The loop of \<open>next\<close>; \<open>None\<close> would stand for one that does not end.\<close>

partial_function (option) iterator_next ::
  "('c::len, 'p) pick_fn \<Rightarrow> 'p more_fn \<Rightarrow> ('c word, 'p) histogram_iterator
    \<Rightarrow> (unit, ('c word, 'p) histogram_iterator \<times> 'c word iteration_value option) res option" where
  "iterator_next pick more_of it =
     (if ended it then Some (Ok (it, None))
      else case iterator_round pick more_of it of
             Ok (Inl it1) \<Rightarrow> iterator_next pick more_of it1
           | Ok (Inr r) \<Rightarrow> Some (Ok r)
           | Err e \<Rightarrow> Some (Err e)
           | Panic \<Rightarrow> Some Panic)"

text \<open>A \<open>for\<close> loop over the iterator collects what it yields.\<close>

partial_function (option) iterator_collect ::
  "('c::len, 'p) pick_fn \<Rightarrow> 'p more_fn \<Rightarrow> ('c word, 'p) histogram_iterator
    \<Rightarrow> 'c word iteration_value list \<Rightarrow> (unit, 'c word iteration_value list) res option" where
  "iterator_collect pick more_of it acc =
     (case iterator_next pick more_of it of
        None \<Rightarrow> None
      | Some r \<Rightarrow>
          (case r of
             Ok (it1, v) \<Rightarrow>
               (case v of
                  None \<Rightarrow> Some (Ok (rev acc))
                | Some x \<Rightarrow> iterator_collect pick more_of it1 (x # acc))
           | Err e \<Rightarrow> Some (Err e)
           | Panic \<Rightarrow> Some Panic))"

section \<open>The pickers\<close>

definition pick_metadata_new :: "f64 option \<Rightarrow> u64 option \<Rightarrow> pick_metadata" where
  "pick_metadata_new q v = \<lparr>picked_quantile = q, picked_value = v\<rparr>"

subsection \<open>Recorded and all bins\<close>

text \<open>Both keep the index they picked last (\<open>visited\<close>).\<close>

definition recorded_pick :: "('c::len, nat option) pick_fn" where
  "recorded_pick visited index running count =
     (if count \<noteq> 0 \<and> visited \<noteq> Some index
      then Ok (Some index, Some (pick_metadata_new None None)) else Ok (visited, None))"

definition recorded_more :: "nat option more_fn" where
  "recorded_more visited index = Ok (visited, False)"

definition all_pick :: "('c::len, nat option) pick_fn" where
  "all_pick visited index running count =
     (if visited \<noteq> Some index
      then Ok (Some index, Some (pick_metadata_new None None)) else Ok (visited, None))"

definition all_more :: "nat option more_fn" where
  "all_more visited index = Ok (visited, True)"

definition iter_recorded :: "'c::len word histogram \<Rightarrow> (unit, 'c word iteration_value list) res option" where
  "iter_recorded h =
     (case iterator_new h None of
        Ok it \<Rightarrow> iterator_collect recorded_pick recorded_more it []
      | Err e \<Rightarrow> Some (Err e)
      | Panic \<Rightarrow> Some Panic)"

definition iter_all :: "'c::len word histogram \<Rightarrow> (unit, 'c word iteration_value list) res option" where
  "iter_all h =
     (case iterator_new h None of
        Ok it \<Rightarrow> iterator_collect all_pick all_more it []
      | Err e \<Rightarrow> Some (Err e)
      | Panic \<Rightarrow> Some Panic)"

subsection \<open>Linear steps\<close>

record 'c linear_iter =
  lin_hist :: "'c histogram"
  value_units_per_bucket :: u64
  lin_highest :: u64 \<comment> \<open>\<open>current_step_highest_value_reporting_level\<close>\<close>
  lin_lowest :: u64 \<comment> \<open>\<open>current_step_lowest_value_reporting_level\<close>\<close>

definition linear_new :: "'c::len word histogram \<Rightarrow> u64 \<Rightarrow> (unit, 'c word linear_iter) res" where
  "linear_new h units =
     bind_res (assert_that (units > 0)) (\<lambda>_.
       Ok \<lparr>lin_hist = h, value_units_per_bucket = units, lin_highest = units - 1,
           lin_lowest = lowest_equivalent h (units - 1)\<rparr>)"

definition linear_pick :: "('c::len, 'c word linear_iter) pick_fn" where
  "linear_pick p index running count =
     bind_res (value_for (lin_hist p) index) (\<lambda>val.
     bind_res (if val \<ge> lin_lowest p then Ok True
               else bind_res (last_index (lin_hist p)) (\<lambda>l. Ok (index = l)))
       (\<lambda>b. if b then
              let metadata = pick_metadata_new None (Some (lin_highest p));
                  hi = lin_highest p + value_units_per_bucket p
              in Ok (p\<lparr>lin_highest := hi, lin_lowest := lowest_equivalent (lin_hist p) hi\<rparr>,
                     Some metadata)
            else Ok (p, None)))"

definition linear_more :: "'c::len word linear_iter more_fn" where
  "linear_more p index_to_pick =
     bind_res (expect (checked_add_usize index_to_pick 1)) (\<lambda>next_index.
     bind_res (value_for (lin_hist p) next_index) (\<lambda>v. Ok (p, lin_highest p < v)))"

subsection \<open>Logarithmic steps\<close>

record 'c log_iter =
  log_hist :: "'c histogram"
  next_value_reporting_level :: f64
  log_base :: f64
  log_lowest :: u64 \<comment> \<open>\<open>current_step_lowest_value_reporting_level\<close>\<close>
  log_highest :: u64 \<comment> \<open>\<open>current_step_highest_value_reporting_level\<close>\<close>

definition log_new :: "'c::len word histogram \<Rightarrow> u64 \<Rightarrow> f64 \<Rightarrow> (unit, 'c word log_iter) res" where
  "log_new h units base =
     bind_res (assert_that (units > 0)) (\<lambda>_. bind_res (assert_that (f64_lt (Fin 1) base)) (\<lambda>_.
       Ok \<lparr>log_hist = h, next_value_reporting_level = u64_as_f64 units, log_base = base,
           log_lowest = lowest_equivalent h (units - 1), log_highest = units - 1\<rparr>))"

definition log_pick :: "('c::len, 'c word log_iter) pick_fn" where
  "log_pick p index running count =
     bind_res (value_for (log_hist p) index) (\<lambda>val.
     bind_res (if val \<ge> log_lowest p then Ok True
               else bind_res (last_index (log_hist p)) (\<lambda>l. Ok (index = l)))
       (\<lambda>b. if b then
              let metadata = pick_metadata_new None (Some (log_highest p));
                  level = f64_mul (next_value_reporting_level p) (log_base p);
                  hi = f64_as_u64 level - 1
              in Ok (p\<lparr>next_value_reporting_level := level, log_highest := hi,
                       log_lowest := lowest_equivalent (log_hist p) hi\<rparr>, Some metadata)
            else Ok (p, None)))"

definition log_more :: "'c::len word log_iter more_fn" where
  "log_more p index_to_pick =
     bind_res (value_for (log_hist p) index_to_pick) (\<lambda>v.
       Ok (p, lowest_equivalent (log_hist p) (f64_as_u64 (next_value_reporting_level p)) < v))"

section \<open>What is yielded for a bin\<close>

text \<open>The running total before index \<open>i\<close>, and the value an iterator yields for bin \<open>i\<close>.\<close>

definition running :: "'c::len word histogram \<Rightarrow> nat \<Rightarrow> u64" where
  "running h i = of_nat (min u64_max (sum_counts (take i (counts h))))"

definition bin_item :: "'c::len word histogram \<Rightarrow> nat \<Rightarrow> 'c word iteration_value" where
  "bin_item h i =
     (let q = f64_div (u64_as_f64 (running h (Suc i))) (u64_as_f64 (total_count h))
      in \<lparr>value_iterated_to = highest_equivalent h (of_nat (h_value h i)), quantile = q,
          quantile_iterated_to = q, count_at_value = counts h ! i,
          count_since_last = ucast (counts h ! i)\<rparr>)"

lemma unat_running: "unat (running h i) = min u64_max (sum_counts (take i (counts h)))"
proof -
  have "min u64_max (sum_counts (take i (counts h))) < 2 ^ LENGTH(64)" by (simp add: u64_max_def)
  then show ?thesis unfolding running_def by (rule unat_of_nat_less)
qed

lemma running_Suc:
  assumes "LENGTH('c) \<le> 64" and "i < length (counts (h :: 'c::len word histogram))"
  shows "saturating_add (running h i) (ucast (counts h ! i)) = running h (Suc i)"
  by (rule word_unat_eq_iff [THEN iffD2])
    (simp add: unat_saturating_add_u64 unat_running unat_ucast_count [OF assms(1)]
      sum_counts_take_Suc [OF assms(2)] min_min_add)

lemma running_0 [simp]: "running h 0 = 0"
  by (simp add: running_def)

text \<open>The states of an iterator between two rounds.\<close>

definition scan_state ::
  "'c::len word histogram \<Rightarrow> nat \<Rightarrow> nat \<Rightarrow> 'p \<Rightarrow> nat \<Rightarrow> u64 \<Rightarrow> 'c word \<Rightarrow> bool
    \<Rightarrow> ('c word, 'p) histogram_iterator" where
  "scan_state h m i p lp running_total c f =
     \<lparr>hist = h, total_count_to_index = running_total, count_since_last_iteration = 0, count_at_idx = c,
      current_index = i, last_picked_index = lp, max_value_index = m, fresh_index = f,
      ended = False, picker = p\<rparr>"

section \<open>Pickers that pick an index at most once\<close>

text \<open>
  The contract of the pickers that remember the index they picked last: which counts they want
  (at least every non-zero one), and whether they go on after the last recorded bin (then they
  want every bin; otherwise no empty one).
\<close>

locale single_picker =
  fixes pick :: "('c::len, nat option) pick_fn"
    and go_on :: "nat option more_fn"
    and wants :: "'c word \<Rightarrow> bool"
    and cont :: bool
  assumes pick_eq: "pick visited i r c =
      (if wants c \<and> visited \<noteq> Some i then Ok (Some i, Some (pick_metadata_new None None))
       else Ok (visited, None))"
    and go_on_eq: "go_on visited i = Ok (visited, cont)"
    and wants_nonzero: "c \<noteq> 0 \<Longrightarrow> wants c"
    and wants_zero: "wants 0 \<longleftrightarrow> cont"
begin

lemma wants_all: "cont \<Longrightarrow> wants c"
  using wants_nonzero wants_zero by (cases "c = 0") auto

text \<open>A fresh index that is not wanted is passed over.\<close>

lemma next_skip:
  assumes "i < length (counts h)" and "lp < m" and "\<not> wants (counts h ! i)" and "LENGTH('c) \<le> 64"
  shows "iterator_next pick go_on (scan_state h m i v lp (running h i) c True) =
    iterator_next pick go_on (scan_state h m (Suc i) v lp (running h (Suc i)) (counts h ! i) True)"
proof -
  have z: "counts h ! i = 0" using assms(3) wants_nonzero by blast
  have s0: "saturating_add (0 :: u64) (ucast (counts h ! i)) = 0" by (simp add: z saturating_add_def)
  show ?thesis
    using assms(1-3) s0
    by (subst iterator_next.simps)
      (simp add: scan_state_def iterator_round_def take_index_def pick_index_def distinct_values_def
        count_at_index_def pick_eq running_Suc [OF assms(4,1)] Let_def)
qed

text \<open>A fresh index that is wanted, before the last recorded bin has been picked.\<close>

lemma next_pick:
  assumes "i < length (counts h)" and "lp < m" and "wants (counts h ! i)" and "LENGTH('c) \<le> 64"
    and "v \<noteq> Some i" and "bins_ok h"
  shows "iterator_next pick go_on (scan_state h m i v lp (running h i) c True) =
    Some (Ok (scan_state h m i (Some i) i (running h (Suc i)) (counts h ! i) False, Some (bin_item h i)))"
proof -
  have s0: "saturating_add (0 :: u64) (ucast (counts h ! i)) = ucast (counts h ! i)"
    using unat_u64_less [of "ucast (counts h ! i)"] by (simp add: saturating_add_def)
  show ?thesis
    using assms(1-3,5) s0
    by (subst iterator_next.simps)
      (simp add: scan_state_def iterator_round_def take_index_def pick_index_def distinct_values_def
        count_at_index_def pick_eq running_Suc [OF assms(4,1)] Let_def pick_metadata_new_def
        value_for_bins(4) [OF assms(6,1)] bin_item_def len_def)
qed

text \<open>After the last recorded bin, with nothing left to count.\<close>

lemma next_pick_after:
  assumes "i < length (counts h)" and "m \<le> lp" and "cont" and "LENGTH('c) \<le> 64"
    and "v \<noteq> Some i" and "bins_ok h" and "counts h ! i = 0"
  shows "iterator_next pick go_on (scan_state h m i v lp (running h i) c f) =
    Some (Ok (scan_state h m i (Some i) i (running h (Suc i)) c f, Some (bin_item h i)))"
proof -
  have r: "running h (Suc i) = running h i"
    by (simp add: running_def sum_counts_take_Suc [OF assms(1)] assms(7))
  show ?thesis
    using assms(1-3,5,7)
    by (subst iterator_next.simps)
      (simp add: scan_state_def iterator_round_def take_index_def pick_index_def distinct_values_def
        count_at_index_def pick_eq go_on_eq wants_all Let_def pick_metadata_new_def
        value_for_bins(4) [OF assms(6,1)] bin_item_def len_def r)
qed

text \<open>From an index just picked, to the next one or to the end.\<close>

lemma next_visited:
  assumes "i < length (counts h)" and "m \<le> lp \<Longrightarrow> cont" and "lp = i" and "\<not> f \<or> m \<le> lp"
  shows "iterator_next pick go_on (scan_state h m i (Some i) lp r c f) =
    iterator_next pick go_on (scan_state h m (Suc i) (Some i) lp r c True)"
  using assms
  by (subst iterator_next.simps)
    (auto simp: scan_state_def iterator_round_def take_index_def pick_index_def distinct_values_def
      pick_eq go_on_eq wants_all Let_def)

lemma next_end:
  assumes "i = length (counts h) \<or> m \<le> lp \<and> \<not> cont"
  shows "\<exists>it. iterator_next pick go_on (scan_state h m i v lp r c f) = Some (Ok (it, None))"
  using assms
  by (subst iterator_next.simps)
    (auto simp: scan_state_def iterator_round_def take_index_def distinct_values_def go_on_eq)

lemma collect_from:
  assumes "iterator_next pick go_on it = iterator_next pick go_on it'"
  shows "iterator_collect pick go_on it acc = iterator_collect pick go_on it' acc"
  by (subst (1 2) iterator_collect.simps) (simp add: assms)

lemma collect_end:
  "\<exists>it'. iterator_next pick go_on it = Some (Ok (it', None)) \<Longrightarrow>
    iterator_collect pick go_on it acc = Some (Ok (rev acc))"
  by (subst iterator_collect.simps) auto

lemma collect_item:
  "iterator_next pick go_on it = Some (Ok (it', Some x)) \<Longrightarrow>
    iterator_collect pick go_on it acc = iterator_collect pick go_on it' (x # acc)"
  by (subst iterator_collect.simps) simp

text \<open>The iteration from a fresh index on.\<close>

lemma none_wanted:
  assumes "\<forall>j. m < j \<longrightarrow> j < length (counts h) \<longrightarrow> counts h ! j = 0" and "m < i" and "\<not> cont"
  shows "filter (\<lambda>j. wants (counts h ! j)) [i..<length (counts h)] = []"
  using assms wants_zero by (auto simp: filter_empty_conv)

lemma collect_scan_after:
  assumes "bins_ok h" and "LENGTH('c) \<le> 64"
    and "\<forall>j. m < j \<longrightarrow> j < length (counts h) \<longrightarrow> counts h ! j = 0"
    and "i \<le> length (counts h)" and "m \<le> lp" and "m < i" and "\<forall>j. v = Some j \<longrightarrow> j < i"
  shows "iterator_collect pick go_on (scan_state h m i v lp (running h i) c True) acc =
    Some (Ok (rev acc @ map (bin_item h) (filter (\<lambda>j. wants (counts h ! j)) [i..<length (counts h)])))"
  using assms(4-7)
proof (induction "length (counts h) - i" arbitrary: i lp v acc)
  case 0
  then show ?case using next_end [of i h m lp v "running h i" c True] by (simp add: collect_end)
next
  case (Suc k)
  then have i: "i < length (counts h)" and k: "k = length (counts h) - Suc i" by simp_all
  show ?case
  proof (cases cont)
    case False
    then show ?thesis
      using none_wanted [OF assms(3) Suc.prems(3) False] next_end [of i h m lp] Suc.prems(2) by (simp add: collect_end)
  next
    case True
    have vi: "v \<noteq> Some i" and z: "counts h ! i = 0" using Suc.prems(3,4) assms(3) i by auto
    have "iterator_collect pick go_on (scan_state h m i (Some i) i (running h (Suc i)) c True) (bin_item h i # acc)
      = iterator_collect pick go_on (scan_state h m (Suc i) (Some i) i (running h (Suc i)) c True) (bin_item h i # acc)"
      using True Suc.prems(3) by (intro collect_from next_visited [OF i]) auto
    then show ?thesis
      using Suc.hyps(1) [OF k, of i "Some i" "bin_item h i # acc"] i Suc.prems(3) wants_all [OF True]
        collect_item [OF next_pick_after [where c = c and f = True, OF i Suc.prems(2) True assms(2) vi assms(1) z], where acc = acc]
      by (simp add: upt_conv_Cons)
  qed
qed

lemma collect_scan:
  assumes "bins_ok h" and "LENGTH('c) \<le> 64" and "i \<le> length (counts h)"
    and "\<forall>j. m < j \<longrightarrow> j < length (counts h) \<longrightarrow> counts h ! j = 0"
    and "lp < m \<or> m < i" and "\<forall>j. v = Some j \<longrightarrow> j < i"
  shows "iterator_collect pick go_on (scan_state h m i v lp (running h i) c True) acc =
    Some (Ok (rev acc @ map (bin_item h) (filter (\<lambda>j. wants (counts h ! j)) [i..<length (counts h)])))"
  using assms(3,5,6)
proof (induction "length (counts h) - i" arbitrary: i lp v c acc)
  case 0
  then have "i = length (counts h)" by simp
  then show ?case using next_end [of i h m lp v "running h i" c True] by (simp add: collect_end)
next
  case (Suc k)
  then have i: "i < length (counts h)" and k: "k = length (counts h) - Suc i" and vi: "v \<noteq> Some i" by auto
  show ?case
  proof (cases "lp < m")
    case False
    then show ?thesis using Suc.prems by (intro collect_scan_after [OF assms(1,2,4)]) auto
  next
    case lp: True
    show ?thesis
    proof (cases "wants (counts h ! i)")
      case False
      then show ?thesis
        using collect_from [OF next_skip [OF i lp False assms(2)]] lp i Suc.prems(3)
          Suc.hyps(1) [OF k, of lp v "counts h ! i" acc]
        by (simp add: upt_conv_Cons less_Suc_eq)
    next
      case want: True
      note step = collect_item [OF next_pick [where c = c, OF i lp want assms(2) vi assms(1)], where acc = acc]
      show ?thesis
      proof (cases "m \<le> i \<and> \<not> cont")
        case True
        then show ?thesis
          using none_wanted [OF assms(4), of "Suc i"] next_end [of i h m i] want i
          by (simp add: step collect_end upt_conv_Cons)
      next
        case False
        have "iterator_collect pick go_on (scan_state h m i (Some i) i (running h (Suc i)) (counts h ! i) False) (bin_item h i # acc)
          = iterator_collect pick go_on (scan_state h m (Suc i) (Some i) i (running h (Suc i)) (counts h ! i) True) (bin_item h i # acc)"
          using False by (intro collect_from next_visited [OF i]) auto
        moreover have "i < m \<or> m < Suc i" by linarith
        ultimately show ?thesis
          using Suc.hyps(1) [OF k _ \<open>i < m \<or> m < Suc i\<close>, of "Some i" "counts h ! i" "bin_item h i # acc"] i want
          by (simp add: step upt_conv_Cons)
      qed
    qed
  qed
qed

end

interpretation recorded: single_picker recorded_pick recorded_more "\<lambda>c. c \<noteq> 0" False
  by unfold_locales (simp_all add: recorded_pick_def recorded_more_def)

interpretation all_bins: single_picker all_pick all_more "\<lambda>c. True" True
  by unfold_locales (simp_all add: all_pick_def all_more_def)


section \<open>The iterators over recorded and over all bins\<close>

text \<open>The precondition: the last recorded bin is not bin 0 (see below for what happens then).\<close>

lemma iterator_new_scan:
  assumes "wf h"
  shows "iterator_new h p = Ok (scan_state h (h_index h (unat (max_value h))) 0 p 0 (running h 0) 0 True)"
  by (simp add: iterator_new_def index_for_h_index [OF wfD(2) [OF assms]] h_index_hist_max [OF wfD(2) [OF assms]]
      scan_state_def)

lemma zero_beyond_max:
  "wf h \<Longrightarrow> \<forall>j. h_index h (unat (max_value h)) < j \<longrightarrow> j < length (counts h) \<longrightarrow> counts h ! j = 0"
  using wfD(6) [of h] by (fastforce simp: extremes_ok_def)

lemma iter_recorded_eq:
  assumes "wf h" and "LENGTH('c) \<le> 64" and "0 < h_index h (unat (max_value (h :: 'c::len word histogram)))"
  shows "iter_recorded h =
    Some (Ok (map (bin_item h) (filter (\<lambda>i. counts h ! i \<noteq> 0) [0..<length (counts h)])))"
  using recorded.collect_scan [OF wfD(3) [OF assms(1)] assms(2) _ zero_beyond_max [OF assms(1)],
      of 0 0 None 0 "[]"] assms(3)
  by (simp add: iter_recorded_def iterator_new_scan [OF assms(1)])

lemma iter_all_eq:
  assumes "wf h" and "LENGTH('c) \<le> 64" and "0 < h_index h (unat (max_value (h :: 'c::len word histogram)))"
  shows "iter_all h = Some (Ok (map (bin_item h) [0..<length (counts h)]))"
  using all_bins.collect_scan [OF wfD(3) [OF assms(1)] assms(2) _ zero_beyond_max [OF assms(1)],
      of 0 0 None 0 "[]"] assms(3)
  by (simp add: iter_all_def iterator_new_scan [OF assms(1)])

lemma iter_recorded_max_in_bin_0:
  assumes "wf h" and "h_index h (unat (max_value h)) = 0"
  shows "iter_recorded h = Some (Ok [])"
  using recorded.collect_end [OF recorded.next_end [of 0 h 0 0 None "running h 0" 0 True], of "[]"]
  by (simp add: iter_recorded_def iterator_new_scan [OF assms(1)] assms(2))

text \<open>The bins \<open>iter_recorded\<close> yields: the non-empty ones, or none if all samples lie in bin 0.\<close>

definition recorded_bins :: "'c::len word histogram \<Rightarrow> nat list" where
  "recorded_bins h =
     (if h_index h (unat (hist_max h)) = 0 then []
      else filter (\<lambda>i. counts h ! i \<noteq> 0) [0..<length (counts h)])"

lemma iter_recorded_bins:
  assumes "wf (h :: 'c::len word histogram)" and "LENGTH('c) \<le> 64"
  shows "iter_recorded h = Some (Ok (map (bin_item h) (recorded_bins h)))"
  using iter_recorded_eq [OF assms] iter_recorded_max_in_bin_0 [OF assms(1)]
  by (auto simp: recorded_bins_def h_index_hist_max wfD(2) [OF assms(1)])

section \<open>Properties\<close>

text \<open>
  C23. \<open>iter_recorded\<close> ends and does not panic on any well-formed histogram. If the largest recorded
  value lies above bin 0, it yields exactly the non-empty bins, in order, each with the top of its
  range, its count, the same count since the last item, and the quantile of the samples up to it. If
  all samples lie in bin 0 it yields nothing, not even the samples there, though it is documented to
  go through all recorded values.
\<close>

theorem iter_recorded_yields_nonempty_bins:
  fixes h :: "'c::len word histogram"
  assumes "wf h" and "LENGTH('c) \<le> 64"
  shows "iter_recorded h = Some (Ok (map (bin_item h)
    (if h_index h (unat (hist_max h)) = 0 then []
     else filter (\<lambda>i. counts h ! i \<noteq> 0) [0..<length (counts h)])))"
  using iter_recorded_bins [OF assms] by (simp add: recorded_bins_def)

lemma loaded_bin:
  "counts loaded ! h_index sample (unat (90 :: u64)) \<noteq> 0"
  "h_index sample (unat (90 :: u64)) < length (counts loaded)" "0 < h_index sample (unat (90 :: u64))"
  by (simp_all add: loaded_def counts_bump sample_eq h_index_def index_for_def bucket_for_def
      sub_bucket_for_def shl_def shr_def leading_zeros_def bit_len.simps to_usize_def usize_max_def
      saturating_add_def nth_list_update Let_def)

lemma h_index_hist_max_loaded: "0 < h_index loaded (unat (hist_max loaded))"
  using wfD(6) [OF loaded_facts(1)] h_index_hist_max [OF wfD(2) [OF loaded_facts(1)]] loaded_bin
  by (auto simp: extremes_ok_def dest!: spec [of _ "h_index sample (unat (90 :: u64))"])

theorem iter_recorded_yields_nonempty_bins_witness:
  "iter_recorded loaded =
    Some (Ok (map (bin_item loaded) (filter (\<lambda>i. counts loaded ! i \<noteq> 0) [0..<length (counts loaded)])))"
  using iter_recorded_yields_nonempty_bins [OF loaded_facts(1)] h_index_hist_max_loaded by simp

text \<open>\<open>iter_all\<close> ends, does not panic, and yields every bin in order, under the same condition.\<close>

theorem iter_all_yields_every_bin:
  fixes h :: "'c::len word histogram"
  assumes "wf h" and "LENGTH('c) \<le> 64" and "0 < h_index h (unat (hist_max h))"
  shows "iter_all h = Some (Ok (map (bin_item h) [0..<length (counts h)]))"
  using iter_all_eq [OF assms(1,2)] assms(3) h_index_hist_max [OF wfD(2) [OF assms(1)]] by simp

theorem iter_all_yields_every_bin_witness:
  "iter_all loaded = Some (Ok (map (bin_item loaded) [0..<length (counts loaded)]))"
  by (rule iter_all_yields_every_bin [OF loaded_facts(1) _ h_index_hist_max_loaded]) simp

text \<open>
  A histogram whose samples all lie in bin 0 (three times the value 0, say) yields nothing
  under \<open>iter_recorded\<close>: the index picked last starts at 0, which the iterator takes for the last
  recorded index already picked.
\<close>

theorem iter_recorded_loses_bin_0:
  "\<exists>h. record_n sample 0 3 = Ok h \<and> total_count h = 3 \<and> counts h ! 0 = 3 \<and> iter_recorded h = Some (Ok [])"
proof -
  let ?h = "bump sample 0 3"
  have z: "unat (0 :: u64) < capacity sample" by (simp add: capacity_sample)
  have "record_n sample 0 3 = Ok ?h"
    using z by (simp add: record_n_def record_n_inner_eq [OF wfD(1) [OF wf_sample]])
  moreover have w: "wf ?h" by (rule wf_bump [OF wf_sample z])
  moreover have "max_value ?h = 0"
    by (simp add: bump_def sample_eq update_min_max_def update_max_def update_min_def Let_def)
  then have "h_index ?h (unat (max_value ?h)) = 0" using wfD(2) [OF wf_sample] by simp
  from iter_recorded_max_in_bin_0 [OF w this] have "iter_recorded ?h = Some (Ok [])" .
  moreover have "total_count ?h = 3" by (simp add: total_count_bump sample_eq saturating_add_def)
  moreover have "counts ?h ! 0 = 3"
    using wfD(2) [OF wf_sample] by (simp add: counts_bump) (simp add: sample_eq saturating_add_def)
  ultimately show ?thesis by blast
qed

end
