(* ===== verification/Correction.thy ===== *)
theory Correction
  imports Iterators
begin

unbundle bit_operations_syntax

text \<open>
  What the library builds on \<open>iter_recorded\<close> (\<open>lib.rs\<close>): the copies and additions corrected for
  coordinated omission, and mean and standard deviation.
\<close>

section \<open>Operations\<close>

fun correct_items ::
  "'c::len word histogram \<Rightarrow> 'c word iteration_value list \<Rightarrow> u64
    \<Rightarrow> (record_error \<times> 'c word histogram, 'c word histogram) res" where
  "correct_items h [] interval = Ok h"
| "correct_items h (v # vs) interval =
     bind_res (record_n_correct h (value_iterated_to v) (count_at_value v) interval)
       (\<lambda>h'. correct_items h' vs interval)"

text \<open>A loop over an iterator that panics or does not end has that outcome.\<close>

definition for_recorded ::
  "'c::len word histogram \<Rightarrow> ('c word iteration_value list \<Rightarrow> ('e, 'r) res) \<Rightarrow> ('e, 'r) res option" where
  "for_recorded h body =
     (case iter_recorded h of
        None \<Rightarrow> None
      | Some (Ok items) \<Rightarrow> Some (body items)
      | Some (Err _) \<Rightarrow> Some Panic
      | Some Panic \<Rightarrow> Some Panic)"

definition add_correct ::
  "'c::len word histogram \<Rightarrow> 'c word histogram \<Rightarrow> u64
    \<Rightarrow> (record_error \<times> 'c word histogram, 'c word histogram) res option" where
  "add_correct h source interval = for_recorded source (\<lambda>items. correct_items h items interval)"

definition clone_correct ::
  "'c::len word histogram \<Rightarrow> u64 \<Rightarrow> (unit, 'c word histogram) res option" where
  "clone_correct h interval =
     for_recorded h (\<lambda>items. bind_res (new_from h) (\<lambda>c. unwrap_res (correct_items c items interval)))"

definition set_to_corrected ::
  "'c::len word histogram \<Rightarrow> 'c word histogram \<Rightarrow> u64
    \<Rightarrow> (record_error \<times> 'c word histogram, 'c word histogram) res option" where
  "set_to_corrected h source interval = add_correct (reset h) source interval"

fun mean_fold ::
  "'c::len word histogram \<Rightarrow> 'c word iteration_value list \<Rightarrow> f64 \<Rightarrow> (unit, f64) res" where
  "mean_fold h [] acc = Ok acc"
| "mean_fold h (v # vs) acc =
     bind_res (median_equivalent h (value_iterated_to v)) (\<lambda>m.
       mean_fold h vs (f64_add acc
         (f64_div (f64_mul (u64_as_f64 m) (as_f64 (count_at_value v)))
            (u64_as_f64 (total_count h)))))"

definition mean :: "'c::len word histogram \<Rightarrow> (unit, f64) res option" where
  "mean h = (if total_count h = 0 then Some (Ok (Fin 0))
             else for_recorded h (\<lambda>items. mean_fold h items (Fin 0)))"

text \<open>The integer square root, and the square root of a double, rounded to nearest.\<close>

function isqrt :: "nat \<Rightarrow> nat" where
  "isqrt n = (if n = 0 then 0
              else let s = 2 * isqrt (n div 4) in if (s + 1) * (s + 1) \<le> n then s + 1 else s)"
  by pat_completeness auto
termination
  by (relation "measure id") simp_all

declare isqrt.simps [simp del]

fun f64_sqrt :: "f64 \<Rightarrow> f64" where
  "f64_sqrt (Fin x) =
     (if x < 0 then NaN else if x = 0 then Fin 0
      else let q = 2 powi (flog2 x div 2 - 52); y = x / (q * q); s = isqrt (nat \<lfloor>y\<rfloor>)
           in Fin ((if y > (of_nat s + 1 / 2) * (of_nat s + 1 / 2) then of_nat (s + 1) else of_nat s) * q))"
| "f64_sqrt PosInf = PosInf"
| "f64_sqrt NegInf = NaN"
| "f64_sqrt NaN = NaN"

fun stdev_fold ::
  "'c::len word histogram \<Rightarrow> f64 \<Rightarrow> 'c word iteration_value list \<Rightarrow> f64 \<Rightarrow> (unit, f64) res" where
  "stdev_fold h mn [] acc = Ok acc"
| "stdev_fold h mn (v # vs) acc =
     bind_res (median_equivalent h (value_iterated_to v)) (\<lambda>m.
       let dev = f64_sub (u64_as_f64 m) mn
       in stdev_fold h mn vs (f64_add acc
            (f64_mul (f64_mul dev dev) (u64_as_f64 (count_since_last v)))))"

definition stdev :: "'c::len word histogram \<Rightarrow> (unit, f64) res option" where
  "stdev h =
     (if total_count h = 0 then Some (Ok (Fin 0))
      else case mean h of
             Some (Ok mn) \<Rightarrow>
               for_recorded h (\<lambda>items. bind_res (stdev_fold h mn items (Fin 0)) (\<lambda>gdt.
                 Ok (f64_sqrt (f64_div gdt (u64_as_f64 (total_count h))))))
           | r \<Rightarrow> r)"

section \<open>Mean and standard deviation return\<close>

lemma median_equivalent_Ok:
  assumes "layout_ok h"
  shows "\<exists>m. median_equivalent h v = Ok m"
proof -
  let ?w = "bin_width (um h) (hm h) (unat v)" and ?l = "bin_low (um h) (hm h) (unat v)"
  obtain k where k: "?w = 2 ^ k" by (simp add: bin_width_def)
  have w: "unat (equivalent_range h v) = ?w" and l: "unat (lowest_equivalent h v) = ?l"
    using assms by (simp_all add: nat_view)
  have "(2 :: nat) ^ k < 2 ^ 64" using unat_u64_less [of "equivalent_range h v"] w k by simp
  then have "k < 64" by (simp only: power_strict_increasing_iff)
  then have "2 ^ k dvd (2 :: nat) ^ 64" by (intro le_imp_power_dvd) simp
  then obtain n where n: "(2 :: nat) ^ 64 = 2 ^ k * n" by (rule dvdE)
  obtain s where s: "?l = s * 2 ^ k" using k by (simp add: bin_low_def)
  have "?l < 2 ^ 64" using unat_u64_less [of "lowest_equivalent h v"] l by simp
  then have "s < n" unfolding s n by (simp add: mult.commute)
  then have "(s + 1) * 2 ^ k \<le> n * 2 ^ k" by (intro mult_right_mono) simp_all
  then have "?l + 2 ^ k \<le> 2 ^ 64" unfolding s n by (simp add: algebra_simps)
  moreover have "unat (shr (equivalent_range h v) 1) = 2 ^ k div 2"
    using w k by (simp add: unat_shr_nat)
  moreover have "(2 :: nat) ^ k div 2 < 2 ^ k" by simp
  ultimately have "unat (lowest_equivalent h v) + unat (shr (equivalent_range h v) 1) < 2 ^ 64"
    using l by linarith
  then show ?thesis by (simp add: median_equivalent_def checked_add_def)
qed

lemma folds_Ok:
  assumes "layout_ok h"
  shows "\<exists>x. mean_fold h vs acc = Ok x" and "\<exists>x. stdev_fold h mn vs acc = Ok x"
proof -
  show "\<exists>x. mean_fold h vs acc = Ok x"
  proof (induction vs arbitrary: acc)
    case (Cons v vs)
    moreover obtain m where "median_equivalent h (value_iterated_to v) = (Ok m :: (unit, u64) res)"
      using median_equivalent_Ok [OF assms] by blast
    ultimately show ?case by simp
  qed simp
  show "\<exists>x. stdev_fold h mn vs acc = Ok x"
  proof (induction vs arbitrary: acc)
    case (Cons v vs)
    moreover obtain m where "median_equivalent h (value_iterated_to v) = (Ok m :: (unit, u64) res)"
      using median_equivalent_Ok [OF assms] by blast
    ultimately show ?case by (simp add: Let_def)
  qed simp
qed

lemma iter_recorded_ends:
  assumes "wf (h :: 'c::len word histogram)" and "LENGTH('c) \<le> 64"
  shows "\<exists>vs. iter_recorded h = Some (Ok vs)"
  using iter_recorded_eq [OF assms] iter_recorded_max_in_bin_0 [OF assms(1)]
  by (cases "h_index h (unat (max_value h)) = 0") auto

lemma mean_stdev_return:
  assumes "wf (h :: 'c::len word histogram)" and "LENGTH('c) \<le> 64"
  shows "\<exists>mn sd. mean h = Some (Ok mn) \<and> stdev h = Some (Ok sd)"
proof -
  note l = wfD(2) [OF assms(1)]
  obtain vs where vs: "iter_recorded h = Some (Ok vs)" using iter_recorded_ends [OF assms] by auto
  obtain x where x: "mean_fold h vs (Fin 0) = Ok x" using folds_Ok(1) [OF l] by blast
  have m: "mean h = Some (Ok (if total_count h = 0 then Fin 0 else x))"
    using vs x by (simp add: mean_def for_recorded_def)
  obtain y where y: "stdev_fold h x vs (Fin 0) = Ok y" using folds_Ok(2) [OF l] by blast
  have "\<exists>sd. stdev h = Some (Ok sd)"
    by (cases "total_count h = 0") (simp_all add: stdev_def m for_recorded_def vs y)
  then show ?thesis using m by blast
qed

section \<open>Correction, whole\<close>

text \<open>A bin as the correction records it: the top of its range and its count.\<close>

definition bin_top :: "'c::len word histogram \<Rightarrow> nat \<Rightarrow> u64" where
  "bin_top h i = highest_equivalent h (of_nat (h_value h i))"

definition correct_bump :: "u64 \<Rightarrow> 'c::len word histogram \<Rightarrow> u64 \<times> 'c word \<Rightarrow> 'c word histogram" where
  "correct_bump interval h = (\<lambda>(v, c). foldl (\<lambda>g w. bump g w c) h (correct_values v interval))"

lemma bin_top_index:
  assumes "wf h" and "i < length (counts h)"
  shows "h_index h (unat (bin_top h i)) = i" and "unat (bin_top h i) < capacity h"
proof -
  show ix: "h_index h (unat (bin_top h i)) = i"
    using h_index_h_value(1) [OF wfD(3) [OF assms(1)] assms(2)]
    by (simp add: bin_top_def h_index_highest_equivalent [OF wfD(2) [OF assms(1)]])
  then show "unat (bin_top h i) < capacity h"
    using assms(2) by (simp add: less_capacity_iff [OF wfD(3) [OF assms(1)]])
qed

lemma correct_bump_facts:
  assumes "wf h" and "unat v < capacity h"
  shows "wf (correct_bump i h (v, c))" and "capacity (correct_bump i h (v, c)) = capacity h"
    and "record_n_correct h v c i = Ok (correct_bump i h (v, c))"
proof -
  have le: "\<forall>w \<in> set (correct_values v i). unat w < capacity h"
    using assms(2) by (auto intro: le_less_trans [OF correct_values_le])
  show "wf (correct_bump i h (v, c))"
    using wf_foldl_bump [OF assms(1) le] by (simp add: correct_bump_def)
  show "capacity (correct_bump i h (v, c)) = capacity h"
    by (simp add: correct_bump_def capacity_foldl_bump)
  have "record_n h v c = Ok (bump h v c)"
    using assms by (simp add: record_n_def record_n_inner_eq wfD(1))
  then obtain g where "g = h \<or> auto_resize h \<and> capacity h \<le> unat v \<and> g = grown h v"
      and "record_n_correct h v c i = Ok (foldl (\<lambda>h w. bump h w c) g (correct_values v i))"
    by (rule record_n_correct_eq [OF assms(1)])
  then show "record_n_correct h v c i = Ok (correct_bump i h (v, c))"
    using assms(2) by (auto simp: correct_bump_def)
qed

lemma correct_items_eq:
  assumes "wf h" and "\<forall>v \<in> set items. unat (value_iterated_to v) < capacity h"
  shows "correct_items h items i =
      Ok (foldl (correct_bump i) h (map (\<lambda>v. (value_iterated_to v, count_at_value v)) items))
    \<and> wf (foldl (correct_bump i) h (map (\<lambda>v. (value_iterated_to v, count_at_value v)) items))"
  using assms
proof (induction items arbitrary: h)
  case (Cons v vs)
  then have v: "unat (value_iterated_to v) < capacity h" by simp
  note f = correct_bump_facts [OF Cons.prems(1) v, where i = i and c = "count_at_value v"]
  show ?case using Cons.IH [OF f(1)] Cons.prems(2) f by simp
qed simp

lemma bin_item_simps [simp]:
  "value_iterated_to (bin_item h i) = bin_top h i" "count_at_value (bin_item h i) = counts h ! i"
  by (simp_all add: bin_item_def Let_def bin_top_def)

section \<open>Properties\<close>

text \<open>
  C24. \<open>clone_correct\<close> of a well-formed histogram ends and its \<open>expect\<close> never fails: on a copy of the
  configuration it records, for every non-empty bin in order, the top of the bin and the values the
  correction adds below it, each with the count of the bin, and the result is well-formed. If all
  samples lie in bin 0 it records none of them, since \<open>iter_recorded\<close> does not yield them.
\<close>

theorem clone_correct_records_every_bin:
  fixes h :: "'c::len word histogram"
  assumes "wf h" and "LENGTH('c) \<le> 64"
  shows "\<exists>h'. clone_correct h interval = Some (Ok h') \<and> wf h' \<and>
    h' = foldl (correct_bump interval) (blank h)
      (map (\<lambda>i. (bin_top h i, counts h ! i))
        (if h_index h (unat (hist_max h)) = 0 then []
         else filter (\<lambda>i. counts h ! i \<noteq> 0) [0..<length (counts h)]))"
proof -
  have cap: "capacity (blank h) = capacity h" by (simp add: blank_def)
  have "\<forall>v \<in> set (map (bin_item h) (recorded_bins h)). unat (value_iterated_to v) < capacity (blank h)"
    using bin_top_index(2) [OF assms(1)] by (auto simp: cap recorded_bins_def)
  from correct_items_eq [OF wf_blank [OF assms(1)] this, of interval] show ?thesis
    unfolding recorded_bins_def [symmetric]
    by (simp add: clone_correct_def for_recorded_def iter_recorded_bins [OF assms] new_from_eq [OF wfD(1) [OF assms(1)]] comp_def)
qed

theorem clone_correct_records_every_bin_witness:
  "\<exists>h'. clone_correct loaded 10 = Some (Ok h') \<and> wf h' \<and>
    h' = foldl (correct_bump 10) (blank loaded)
      (map (\<lambda>i. (bin_top loaded i, counts loaded ! i))
        (filter (\<lambda>i. counts loaded ! i \<noteq> 0) [0..<length (counts loaded)]))"
  using clone_correct_records_every_bin [OF loaded_facts(1), of 10] h_index_hist_max_loaded by simp

end
