(* ===== verification/Chist.thy ===== *)
theory Chist
  imports Queries "HOL-Library.Signed_Division"
begin

text \<open>
  The tool \<open>chist\<close> (\<open>src/tools/chist/src/main.rs\<close>): the walk over the record files that prints
  one line per timestamp, the summary of one file, and the command line.

  Times are \<open>chrono::DateTime<Utc>\<close>, which is not part of the repository: their type is a
  parameter of class \<open>linorder\<close> (\<open>cmp\<close> and \<open>==\<close>), with two functions the definitions take as
  arguments, \<open>ms t u\<close> for \<open>(t - u).num_milliseconds()\<close> and \<open>add_ns t n\<close> for
  \<open>t + Duration::nanoseconds(n)\<close>, \<open>None\<close> where chrono panics. A printed line is the value of its
  fields; its text and the reading of files are in \<open>Chist_Text\<close>.
\<close>

section \<open>Records\<close>

record hist_snapshot =
  hs_lowest_trackable_value :: u64
  hs_highest_trackable_value :: u64
  hs_significant_figures :: u8
  hs_counts :: "u64 list"

record 't hist_record =
  rec_name :: string
  elapsed :: u64
  now :: 't
  rec_hist :: hist_snapshot

definition snapshot_from :: "hist_snapshot \<Rightarrow> u64 histogram_snapshot" where
  "snapshot_from source =
     \<lparr>lowest_trackable_value = hs_lowest_trackable_value source,
      snapshot_highest_trackable_value = hs_highest_trackable_value source,
      significant_figures = hs_significant_figures source,
      snapshot_counts = hs_counts source\<rparr>"

datatype chist_error =
    UnexpectedName string nat string string \<comment> \<open>label, record number, expected, found\<close>
  | LoadingHistogram creation_error
  | AddingHistograms addition_error
  | ReadFailed string

section \<open>Walking the files\<close>

record 't walk_state =
  label :: string
  records :: "'t hist_record list"
  ri :: nat

definition peek_next_time :: "'t walk_state \<Rightarrow> 't option" where
  "peek_next_time w = (if ri w < length (records w) then Some (now (records w ! ri w)) else None)"

definition peek_record :: "'t walk_state \<Rightarrow> ('e, 't hist_record) res" where
  "peek_record w = (if ri w < length (records w) then Ok (records w ! ri w) else Panic)"

definition maybe_eat_record_time_name ::
  "('t \<Rightarrow> 't \<Rightarrow> int) \<Rightarrow> 't walk_state \<Rightarrow> 't \<Rightarrow> 't \<Rightarrow> string
    \<Rightarrow> (chist_error, 't walk_state \<times> 't hist_record option) res" where
  "maybe_eat_record_time_name ms w t1 t2 name =
     (if ri w \<ge> length (records w) then Ok (w, None)
      else
        let nxt = records w ! ri w;
            d1 = \<bar>ms (now nxt) t1\<bar>;
            d2 = \<bar>ms (now nxt) t2\<bar>
        in if d1 < d2 \<and> rec_name nxt \<noteq> name
           then Err (UnexpectedName (label w) (ri w + 1) name (rec_name nxt))
           else Ok (w\<lparr>ri := ri w + 1\<rparr>, Some nxt))"

text \<open>\<open>min_by\<close> returns the first of several least elements.\<close>

fun min_by_time :: "('w \<times> 't::linorder) list \<Rightarrow> ('w \<times> 't) option" where
  "min_by_time [] = None"
| "min_by_time ((w, t) # rest) =
     (case min_by_time rest of
        None \<Rightarrow> Some (w, t)
      | Some (w', t') \<Rightarrow> (if t' < t then Some (w', t') else Some (w, t)))"

definition next_times :: "'t walk_state list \<Rightarrow> ('t walk_state \<times> 't) list" where
  "next_times ws = List.map_filter (\<lambda>w. map_option (\<lambda>t. (w, t)) (peek_next_time w)) ws"

text \<open>The walkers are asked in turn; the first error ends the collection.\<close>

fun eat_all ::
  "('t \<Rightarrow> 't \<Rightarrow> int) \<Rightarrow> 't walk_state list \<Rightarrow> 't \<Rightarrow> 't \<Rightarrow> string
    \<Rightarrow> (chist_error, 't walk_state list \<times> 't hist_record list) res" where
  "eat_all ms [] t1 t2 name = Ok ([], [])"
| "eat_all ms (w # ws) t1 t2 name =
     bind_res (maybe_eat_record_time_name ms w t1 t2 name) (\<lambda>(w', r).
     bind_res (eat_all ms ws t1 t2 name) (\<lambda>(ws', rs).
       Ok (w' # ws', (case r of None \<Rightarrow> rs | Some x \<Rightarrow> x # rs))))"

fun load_all :: "'t hist_record list \<Rightarrow> (chist_error, u64 histogram list) res" where
  "load_all [] = Ok []"
| "load_all (r # rs) =
     bind_res (map_err LoadingHistogram (new_from_snapshot (snapshot_from (rec_hist r)))) (\<lambda>h.
     bind_res (load_all rs) (\<lambda>hs. Ok (h # hs)))"

fun add_all :: "u64 histogram \<Rightarrow> u64 histogram list \<Rightarrow> (addition_error, u64 histogram) res" where
  "add_all s [] = Ok s"
| "add_all s (h # hs) = bind_res (map_err fst (add s h)) (\<lambda>s'. add_all s' hs)"

text \<open>The chain from the records of one round to their summary histogram.\<close>

definition merge_records :: "'t hist_record list \<Rightarrow> (chist_error, nat \<times> u64 histogram) res" where
  "merge_records rs =
     bind_res (load_all rs) (\<lambda>file_snapshots.
     bind_res (case file_snapshots of [] \<Rightarrow> Panic | first # _ \<Rightarrow> new_from first) (\<lambda>empty_hist.
     bind_res (map_err AddingHistograms (add_all empty_hist file_snapshots)) (\<lambda>summary.
       Ok (length file_snapshots, summary))))"

text \<open>One printed line: time, operation, number of records, operations per second, percentiles in ms.\<close>

record 't row =
  row_time :: 't
  row_name :: string
  row_files :: nat
  throughput :: f64
  p50 :: f64
  p95 :: f64
  p99 :: f64
  pmax :: f64

definition summary_row ::
  "'t \<Rightarrow> string \<Rightarrow> u64 \<Rightarrow> nat \<Rightarrow> u64 histogram \<Rightarrow> (chist_error, 't row) res" where
  "summary_row t name elapsed_ns n summary =
     (let million = Fin 1000000 in
      bind_res (value_at_quantile summary (f64_round (1 / 2))) (\<lambda>v50.
      bind_res (value_at_quantile summary (f64_round (95 / 100))) (\<lambda>v95.
      bind_res (value_at_quantile summary (f64_round (99 / 100))) (\<lambda>v99.
        Ok \<lparr>row_time = t, row_name = name, row_files = n,
            throughput = f64_div (u64_as_f64 (len summary))
                           (f64_div (u64_as_f64 elapsed_ns) (Fin 1000000000)),
            p50 = f64_div (u64_as_f64 v50) million,
            p95 = f64_div (u64_as_f64 v95) million,
            p99 = f64_div (u64_as_f64 v99) million,
            pmax = f64_div (u64_as_f64 (hist_max summary)) million\<rparr>))))"

definition elapsed_as_i64 :: "u64 \<Rightarrow> int option" where
  "elapsed_as_i64 e = (if unat e < 2 ^ 63 then Some (int (unat e)) else None)"

text \<open>The body of the loop of \<open>print\<close>; \<open>None\<close> leaves it.\<close>

definition print_step ::
  "('t::linorder \<Rightarrow> 't \<Rightarrow> int) \<Rightarrow> ('t \<Rightarrow> int \<Rightarrow> 't option) \<Rightarrow> 't walk_state list
    \<Rightarrow> (chist_error, ('t walk_state list \<times> 't row) option) res" where
  "print_step ms add_ns ws =
     (case min_by_time (next_times ws) of
        None \<Rightarrow> Ok None
      | Some (min_walk, min_time) \<Rightarrow>
          bind_res (peek_record min_walk) (\<lambda>min_record.
          bind_res (expect (elapsed_as_i64 (elapsed min_record))) (\<lambda>ns.
          bind_res (expect (add_ns min_time ns)) (\<lambda>min_next.
          bind_res (eat_all ms ws min_time min_next (rec_name min_record)) (\<lambda>(ws', rs).
          bind_res (merge_records rs) (\<lambda>(n, summary).
          bind_res (summary_row min_time (rec_name min_record) (elapsed min_record) n summary) (\<lambda>row.
            Ok (Some (ws', row)))))))))"

section \<open>The summary of one file\<close>

datatype 't summary_line =
    TotalRecords nat
  | DistinctNames "string list"
  | TimestampWarning nat 't 't \<comment> \<open>record number, expected, found\<close>
  | NameWarning nat string string
  | InitialTimestamp 't
  | ExpectedTimestamps nat
  | ExpectedInterval int
  | SecondTimestamp 't int
  | FinalTimestamp 't int

fun distinct_names :: "string set \<Rightarrow> string list \<Rightarrow> 't hist_record list \<Rightarrow> string list" where
  "distinct_names seen names [] = names"
| "distinct_names seen names (rec # rest) =
     (if rec_name rec \<in> seen then names
      else distinct_names (insert (rec_name rec) seen) (names @ [rec_name rec]) rest)"

text \<open>The loop that prints the warnings; \<open>%\<close> by zero, \<open>unwrap\<close> and indexing are its panics.\<close>

fun check_records ::
  "string list \<Rightarrow> nat \<Rightarrow> 't option \<Rightarrow> 't hist_record list \<Rightarrow> ('e, 't summary_line list) res" where
  "check_records names which current_timestamp [] = Ok []"
| "check_records names which current_timestamp (rec # rest) =
     (if names = [] then Panic
      else
        bind_res
          (if which mod length names = 0 then Ok (Some (now rec), [])
           else bind_res (expect current_timestamp) (\<lambda>t.
                  Ok (current_timestamp,
                      if t \<noteq> now rec then [TimestampWarning (which + 1) t (now rec)] else [])))
          (\<lambda>(current_timestamp', late).
             let expected = names ! (which mod length names);
                 which' = which + 1;
                 wrong = (if expected \<noteq> rec_name rec
                          then [NameWarning (which' + 1) expected (rec_name rec)] else [])
             in bind_res (check_records names which' current_timestamp' rest) (\<lambda>warnings.
                  Ok (late @ wrong @ warnings))))"

definition do_summarize ::
  "('t \<Rightarrow> 't \<Rightarrow> int) \<Rightarrow> 't hist_record list \<Rightarrow> ('e, 't summary_line list) res" where
  "do_summarize ms recs =
     (if length recs = 0 then Ok [TotalRecords (length recs)]
      else
        let names = distinct_names {} [] recs
        in bind_res (check_records names 0 None recs) (\<lambda>warnings.
           bind_res (expect (if 0 < length recs then Some (recs ! 0) else None)) (\<lambda>first.
           bind_res
             (if length recs > length names
              then if names = [] then Panic
                else
                let next_timestamp = now (recs ! length names);
                    next_duration = ms next_timestamp (now first);
                    last_timestamp = now (recs ! (length recs - 1));
                    last_duration = ms last_timestamp (now first);
                    ntimestamps = length recs div length names
                in Ok [ExpectedTimestamps ntimestamps,
                       ExpectedInterval (last_duration sdiv int ntimestamps),
                       SecondTimestamp next_timestamp next_duration,
                       FinalTimestamp last_timestamp last_duration]
              else Ok []) (\<lambda>times.
             Ok ([TotalRecords (length recs), DistinctNames names] @ warnings
                 @ [InitialTimestamp (now first)] @ times)))))"

section \<open>The loop ends\<close>

text \<open>What is left of the files, and what one round does to them.\<close>

definition left :: "'t walk_state \<Rightarrow> nat" where
  "left w = length (records w) - ri w"

definition remaining :: "'t walk_state list \<Rightarrow> nat" where
  "remaining ws = sum_list (map left ws)"

definition advance :: "'t walk_state \<Rightarrow> 't walk_state" where
  "advance w = (if ri w < length (records w) then w\<lparr>ri := ri w + 1\<rparr> else w)"

lemma maybe_eat_Ok:
  assumes "maybe_eat_record_time_name ms w t1 t2 name = Ok (w', r)"
  shows "w' = advance w" and "r = (if ri w < length (records w) then Some (records w ! ri w) else None)"
  using assms by (auto simp: maybe_eat_record_time_name_def advance_def Let_def split: if_splits)

definition current_records :: "'t walk_state list \<Rightarrow> 't hist_record list" where
  "current_records ws = map (\<lambda>w. records w ! ri w) (filter (\<lambda>w. ri w < length (records w)) ws)"

lemma eat_all_Ok:
  "eat_all ms ws t1 t2 name = Ok (ws', rs) \<Longrightarrow> ws' = map advance ws \<and> rs = current_records ws"
proof (induction ws arbitrary: ws' rs)
  case (Cons w ws)
  then obtain w' r ws1 rs1 where "maybe_eat_record_time_name ms w t1 t2 name = Ok (w', r)"
    "eat_all ms ws t1 t2 name = Ok (ws1, rs1)" "ws' = w' # ws1"
    "rs = (case r of None \<Rightarrow> rs1 | Some x \<Rightarrow> x # rs1)"
    by (auto simp: bind_res_eq_Ok)
  then show ?case using maybe_eat_Ok [of ms w t1 t2 name w' r] Cons.IH by (auto simp: current_records_def)
qed (simp add: current_records_def)

lemma next_times_Nil_iff: "next_times ws = [] \<longleftrightarrow> (\<forall>w \<in> set ws. left w = 0)"
  by (induction ws) (auto simp: next_times_def List.map_filter_simps peek_next_time_def left_def)

lemma min_by_time_None_iff: "min_by_time xs = None \<longleftrightarrow> xs = []"
  by (induction xs rule: min_by_time.induct) (auto split: option.splits)

lemma left_advance: "left (advance w) = left w - 1"
  by (simp add: left_def advance_def)

lemma remaining_advance:
  "\<exists>w \<in> set ws. left w \<noteq> 0 \<Longrightarrow> remaining (map advance ws) < remaining ws"
proof (induction ws)
  case (Cons w ws)
  have le: "remaining (map advance vs) \<le> remaining vs" for vs :: "'a walk_state list"
    by (induction vs) (auto simp: remaining_def left_advance)
  show ?case
  proof (cases "left w = 0")
    case True
    then show ?thesis using Cons by (simp add: remaining_def left_advance)
  next
    case False
    then show ?thesis using le [of ws] by (simp add: remaining_def left_advance)
  qed
qed simp

lemma print_step_Some:
  assumes "print_step ms add_ns ws = Ok (Some (ws', row))"
  shows "ws' = map advance ws" and "\<exists>w \<in> set ws. left w \<noteq> 0"
    and "row_files row = length (current_records ws)"
proof -
  have ne: "min_by_time (next_times ws) \<noteq> None"
    using assms by (cases "min_by_time (next_times ws)") (auto simp: print_step_def)
  then have "next_times ws \<noteq> []" by (simp add: min_by_time_None_iff)
  then show "\<exists>w \<in> set ws. left w \<noteq> 0" by (simp add: next_times_Nil_iff)
  have load: "load_all rs = Ok hs \<Longrightarrow> length hs = length rs" for rs :: "'a hist_record list" and hs
    by (induction rs arbitrary: hs) (auto simp: bind_res_eq_Ok)
  have merge: "merge_records rs = Ok (n, s) \<Longrightarrow> n = length rs" for rs :: "'a hist_record list" and n s
    by (auto simp: merge_records_def bind_res_eq_Ok dest!: load)
  from assms ne obtain t1 t2 name rs s where "eat_all ms ws t1 t2 name = Ok (ws', rs)"
    and "merge_records rs = Ok (row_files row, s)"
    by (auto simp: print_step_def bind_res_eq_Ok summary_row_def Let_def split: option.splits prod.splits)
  then show "ws' = map advance ws" and "row_files row = length (current_records ws)"
    using eat_all_Ok merge by fastforce+
qed

function print_loop ::
  "('t::linorder \<Rightarrow> 't \<Rightarrow> int) \<Rightarrow> ('t \<Rightarrow> int \<Rightarrow> 't option) \<Rightarrow> 't walk_state list
    \<Rightarrow> 't row list \<times> (chist_error, unit) res" where
  "print_loop ms add_ns ws =
     (case print_step ms add_ns ws of
        Ok None \<Rightarrow> ([], Ok ())
      | Ok (Some (ws', row)) \<Rightarrow>
          (case print_loop ms add_ns ws' of (rows, r) \<Rightarrow> (row # rows, r))
      | Err e \<Rightarrow> ([], Err e)
      | Panic \<Rightarrow> ([], Panic))"
  by pat_completeness auto
termination
  by (relation "measure (\<lambda>(ms, add_ns, ws). remaining ws)")
    (auto dest: print_step_Some(1,2) intro: remaining_advance)

declare print_loop.simps [simp del]

section \<open>The command line\<close>

datatype 't printed =
    FileLine string
  | SummaryLine "'t summary_line"
  | BlankLine
  | TitleLine
  | RowLine "'t row"

datatype exit_with = Success | Usage | Failure chist_error | Panicked

definition exit_of :: "(chist_error, unit) res \<Rightarrow> exit_with" where
  "exit_of r = (case r of Ok _ \<Rightarrow> Success | Err e \<Rightarrow> Failure e | Panic \<Rightarrow> Panicked)"

fun summarize_files ::
  "(string \<Rightarrow> (chist_error, 't hist_record list) res) \<Rightarrow> ('t \<Rightarrow> 't \<Rightarrow> int) \<Rightarrow> string list
    \<Rightarrow> 't printed list \<times> (chist_error, unit) res" where
  "summarize_files read_hist_file ms [] = ([], Ok ())"
| "summarize_files read_hist_file ms (filename # files) =
     (case bind_res (read_hist_file filename) (do_summarize ms) of
        Ok ls \<Rightarrow>
          (case summarize_files read_hist_file ms files of
             (out, r) \<Rightarrow> ([FileLine filename] @ List.map SummaryLine ls @ [BlankLine] @ out, r))
      | Err e \<Rightarrow> ([FileLine filename], Err e)
      | Panic \<Rightarrow> ([FileLine filename], Panic))"

fun file_walkers ::
  "(string \<Rightarrow> (chist_error, 't hist_record list) res) \<Rightarrow> string list
    \<Rightarrow> (chist_error, 't walk_state list) res" where
  "file_walkers read_hist_file [] = Ok []"
| "file_walkers read_hist_file (filename # files) =
     bind_res (read_hist_file filename) (\<lambda>rs.
     bind_res (file_walkers read_hist_file files) (\<lambda>ws.
       Ok (\<lparr>label = filename, records = rs, ri = 0\<rparr> # ws)))"

definition main ::
  "(string \<Rightarrow> (chist_error, 't::linorder hist_record list) res) \<Rightarrow> ('t \<Rightarrow> 't \<Rightarrow> int)
    \<Rightarrow> ('t \<Rightarrow> int \<Rightarrow> 't option) \<Rightarrow> string list \<Rightarrow> 't printed list \<times> exit_with" where
  "main read_hist_file ms add_ns argv =
     (if length argv < 3 then ([], Usage)
      else
        let command = argv ! 1; files = drop 2 argv
        in if command = ''summarize''
           then (case summarize_files read_hist_file ms files of (out, r) \<Rightarrow> (out, exit_of r))
           else if command \<noteq> ''print'' then ([], Usage)
           else (case file_walkers read_hist_file files of
                   Ok ws \<Rightarrow> (case print_loop ms add_ns ws of
                       (rows, r) \<Rightarrow> (TitleLine # List.map RowLine rows, exit_of r))
                 | Err e \<Rightarrow> ([], Failure e)
                 | Panic \<Rightarrow> ([], Panicked)))"

section \<open>What the summary prints\<close>

lemma distinct_names_eq:
  "distinct names \<Longrightarrow> seen = set names \<Longrightarrow>
    \<exists>n \<le> length recs. distinct_names seen names recs = names @ List.map rec_name (take n recs) \<and>
      distinct (names @ List.map rec_name (take n recs)) \<and>
      (n < length recs \<longrightarrow> rec_name (recs ! n) \<in> set (names @ List.map rec_name (take n recs)))"
proof (induction recs arbitrary: seen names)
  case (Cons r recs)
  show ?case
  proof (cases "rec_name r \<in> seen")
    case True
    then show ?thesis using Cons.prems by (intro exI [of _ 0]) simp
  next
    case False
    with Cons.prems have "distinct (names @ [rec_name r])" "insert (rec_name r) seen = set (names @ [rec_name r])"
      by auto
    from Cons.IH [OF this] obtain n where "n \<le> length recs"
      "distinct_names (insert (rec_name r) seen) (names @ [rec_name r]) recs = names @ [rec_name r] @ List.map rec_name (take n recs)"
      "distinct (names @ [rec_name r] @ List.map rec_name (take n recs))"
      "n < length recs \<longrightarrow> rec_name (recs ! n) \<in> set (names @ [rec_name r] @ List.map rec_name (take n recs))"
      by auto
    then show ?thesis using False by (intro exI [of _ "Suc n"]) auto
  qed
qed simp

text \<open>The warnings for record \<open>i\<close> of a file whose names repeat with period \<open>length names\<close>.\<close>

definition warnings_for ::
  "string list \<Rightarrow> 't hist_record list \<Rightarrow> nat \<Rightarrow> 't summary_line list" where
  "warnings_for names recs i =
     (let k = i mod length names; t = now (recs ! (i - k)); r = recs ! i
      in (if t \<noteq> now r then [TimestampWarning (i + 1) t (now r)] else [])
         @ (if names ! k \<noteq> rec_name r then [NameWarning (i + 2) (names ! k) (rec_name r)] else []))"

lemma check_records_eq:
  fixes recs :: "'t hist_record list"
  assumes "names \<noteq> []" and "i \<le> length recs"
    and "i mod length names \<noteq> 0 \<Longrightarrow> cur = Some (now (recs ! (i - i mod length names)))"
  shows "check_records names i cur (drop i recs)
    = (Ok (concat (List.map (warnings_for names recs) [i..<length recs])) :: ('e, 't summary_line list) res)"
  using assms(2,3)
proof (induction "length recs - i" arbitrary: i cur)
  case 0
  then show ?case by simp
next
  case (Suc d)
  then have i: "i < length recs" and d: "d = length recs - Suc i" by simp_all
  let ?n = "length names" and ?cur = "Some (now (recs ! (i - i mod length names)))"
  have n: "0 < ?n" using assms(1) by simp
  have nxt: "Suc i mod ?n \<noteq> 0 \<Longrightarrow> Suc i - Suc i mod ?n = i - i mod ?n"
    by (simp add: mod_Suc split: if_splits)
  have "check_records names (Suc i) ?cur (drop (Suc i) recs)
      = (Ok (concat (List.map (warnings_for names recs) [Suc i..<length recs])) :: ('e, 't summary_line list) res)"
    using Suc.hyps(1) [OF d, of ?cur] i nxt by simp
  moreover have "drop i recs = recs ! i # drop (Suc i) recs" using i by (simp add: Cons_nth_drop_Suc)
  moreover have "[i..<length recs] = i # [Suc i..<length recs]" using i by (simp add: upt_conv_Cons)
  ultimately show ?case
    using assms(1) Suc.prems(2) by (auto simp: warnings_for_def Let_def)
qed

lemma summary_names:
  assumes "recs \<noteq> []"
  obtains n where "distinct_names {} [] recs = List.map rec_name (take n recs)" and "0 < n"
    and "n \<le> length recs" and "distinct (List.map rec_name (take n recs))"
    and "n < length recs \<Longrightarrow> rec_name (recs ! n) \<in> rec_name ` set (take n recs)"
proof -
  obtain n where n: "distinct_names {} [] recs = List.map rec_name (take n recs)" "n \<le> length recs"
    "distinct (List.map rec_name (take n recs))"
    "n < length recs \<longrightarrow> rec_name (recs ! n) \<in> set (List.map rec_name (take n recs))"
    using distinct_names_eq [of "[]" "{}" recs] by auto
  moreover have "n \<noteq> 0" using n(4) assms by (cases n) auto
  ultimately show thesis using that [of n] by auto
qed

definition is_warning :: "'t summary_line \<Rightarrow> bool" where
  "is_warning l = (case l of TimestampWarning _ _ _ \<Rightarrow> True | NameWarning _ _ _ \<Rightarrow> True | _ \<Rightarrow> False)"

lemma is_warning_simps [simp]:
  "is_warning (TimestampWarning i t u)" "is_warning (NameWarning i a b)"
  "\<not> is_warning (TotalRecords n)" "\<not> is_warning (DistinctNames ns)" "\<not> is_warning (InitialTimestamp t)"
  "\<not> is_warning (ExpectedTimestamps n)" "\<not> is_warning (ExpectedInterval d)"
  "\<not> is_warning (SecondTimestamp t d)" "\<not> is_warning (FinalTimestamp t d)"
  by (simp_all add: is_warning_def)

lemma do_summarize_eq:
  fixes recs :: "'t hist_record list"
  assumes "recs \<noteq> []"
  shows "\<exists>n. 0 < n \<and> n \<le> length recs \<and> distinct (List.map rec_name (take n recs)) \<and>
    (n = length recs \<or> rec_name (recs ! n) \<in> rec_name ` set (take n recs)) \<and>
    do_summarize ms recs = (Ok (
        [TotalRecords (length recs), DistinctNames (List.map rec_name (take n recs))]
        @ concat (List.map (warnings_for (List.map rec_name (take n recs)) recs) [0..<length recs])
        @ [InitialTimestamp (now (recs ! 0))]
        @ (if n < length recs
           then [ExpectedTimestamps (length recs div n),
                 ExpectedInterval (ms (now (recs ! (length recs - 1))) (now (recs ! 0)) sdiv int (length recs div n)),
                 SecondTimestamp (now (recs ! n)) (ms (now (recs ! n)) (now (recs ! 0))),
                 FinalTimestamp (now (recs ! (length recs - 1)))
                   (ms (now (recs ! (length recs - 1))) (now (recs ! 0)))]
           else [])) :: ('e, 't summary_line list) res)"
proof -
  obtain n where n: "distinct_names {} [] recs = List.map rec_name (take n recs)" "0 < n"
    "n \<le> length recs" "distinct (List.map rec_name (take n recs))"
    "n < length recs \<Longrightarrow> rec_name (recs ! n) \<in> rec_name ` set (take n recs)"
    using summary_names [OF assms] by blast
  let ?names = "List.map rec_name (take n recs)"
  have ne: "?names \<noteq> []" and len: "length ?names = n" using n(2,3) assms by simp_all
  have "check_records ?names 0 None (drop 0 recs)
    = (Ok (concat (List.map (warnings_for ?names recs) [0..<length recs])) :: ('e, 't summary_line list) res)"
    by (rule check_records_eq [OF ne]) simp_all
  moreover have "n = length recs \<or> rec_name (recs ! n) \<in> rec_name ` set (take n recs)"
    using n(3,5) by (cases "n = length recs") simp_all
  ultimately show ?thesis using assms ne len n(1-4)
    by (intro exI [of _ n] conjI) (simp_all add: do_summarize_def Let_def)
qed

section \<open>Merging the records of one round\<close>

lemma add_same_config:
  assumes "add_same h s = (Ok h' :: ('e, 'c::len word histogram) res)"
  shows "lowest_discernible_value h' = lowest_discernible_value h"
    and "highest_trackable_value h' = highest_trackable_value h"
    and "significant_value_digits h' = significant_value_digits h"
  using assms by (auto simp: add_same_def bind_res_eq_Ok Let_def split: prod.splits)

text \<open>Histograms of one configuration, whose values all fit.\<close>

definition alike :: "u64 histogram \<Rightarrow> u64 histogram \<Rightarrow> bool" where
  "alike h s \<longleftrightarrow> wf s \<and> exact s \<and> capacity s < 2 ^ 64 \<and>
     lowest_discernible_value s = lowest_discernible_value h \<and>
     highest_trackable_value s = highest_trackable_value h \<and>
     significant_value_digits s = significant_value_digits h"

lemma add_alike:
  assumes "alike t h" and "alike t s"
  obtains h' where "add h s = Ok h'" and "alike t h'"
    and "\<And>i. bin_count h' i = min u64_max (bin_count h i + bin_count s i)"
proof -
  have h: "wf h" "exact h" "capacity h < 2 ^ 64" and s: "wf s" "exact s" "capacity s < 2 ^ 64"
    and c: "lowest_discernible_value h = lowest_discernible_value s"
      "highest_trackable_value h = highest_trackable_value s"
      "significant_value_digits h = significant_value_digits s"
    using assms by (simp_all add: alike_def)
  note w = wfD [OF h(1)] and v = wfD [OF s(1)]
  note l = sized_ok_same_layout [OF w(1) v(1) c]
  have fits: "\<not> top_value h < hist_max s"
    using top_value_fits [OF s(1,3)] l(5)
    by (simp add: word_less_nat_alt unat_top_value w(3) v(3))
  obtain h' where h': "add_same h s = (Ok h' :: (addition_error \<times> u64 histogram, _) res)"
    "added h s [0..<length (counts s)] h'"
    by (rule add_same_added [OF h(1) s(1) _ l(1-3)]) simp
  have "capacity h' = capacity h"
    using sized_ok_same_layout(5) [of h' h] add_same_config [OF h'(1)] h'(2) w(1) wfD(1)
    by (auto simp: added_def)
  then have "alike t h'"
    using add_same_config [OF h'(1)] h'(2) assms(1) h s by (simp add: alike_def added_def)
  moreover have "bin_count h' i = min u64_max (bin_count h i + bin_count s i)" for i
    using h'(2) by (simp add: added_def moved_same_layout [OF w(3) v(3) l(1-3)] sat_def u64_max_def)
  moreover have "add h s = Ok h'" using fits h'(1) l by (simp add: add_eq [OF h(1)])
  ultimately show thesis using that by blast
qed

lemma add_all_alike:
  "alike t h \<Longrightarrow> \<forall>s \<in> set hs. alike t s \<Longrightarrow>
    \<exists>h'. add_all h hs = Ok h' \<and> alike t h' \<and>
      (\<forall>i. bin_count h' i = min u64_max (bin_count h i + (\<Sum>s\<leftarrow>hs. bin_count s i)))"
proof (induction hs arbitrary: h)
  case Nil
  have "bin_count h i \<le> u64_max" for i using bin_count_less [of h i] by (simp add: u64_max_def)
  then show ?case using Nil by simp
next
  case (Cons s hs)
  then obtain h1 where h1: "add h s = Ok h1" "alike t h1"
    "\<And>i. bin_count h1 i = min u64_max (bin_count h i + bin_count s i)"
    using add_alike [of t h s] by auto
  from Cons.IH [OF h1(2)] Cons.prems obtain h' where "add_all h1 hs = Ok h'" "alike t h'"
    "\<forall>i. bin_count h' i = min u64_max (bin_count h1 i + (\<Sum>s\<leftarrow>hs. bin_count s i))" by auto
  then show ?case using h1 by (auto simp: min_min_add add.assoc)
qed

definition fits :: "u64 histogram \<Rightarrow> 't hist_record \<Rightarrow> bool" where
  "fits t r \<longleftrightarrow>
     hs_lowest_trackable_value (rec_hist r) = lowest_discernible_value t \<and>
     hs_highest_trackable_value (rec_hist r) = highest_trackable_value t \<and>
     hs_significant_figures (rec_hist r) = significant_value_digits t \<and>
     length (hs_counts (rec_hist r)) = length (counts t)"

lemma load_one:
  assumes "new_with_bounds lo hi sf = (Ok t :: (creation_error, u64 histogram) res)"
    and "capacity t < 2 ^ 64" and "fits t r"
  obtains s where "new_from_snapshot (snapshot_from (rec_hist r)) = Ok s" and "alike t s"
    and "counts s = hs_counts (rec_hist r)"
proof -
  have cfg: "lowest_discernible_value t = lo" "highest_trackable_value t = hi" "significant_value_digits t = sf"
    using assms(1) by (auto simp: new_with_bounds_eq fresh_def Let_def split: if_splits)
  note w = wfD(1) [OF new_with_bounds_wf [OF assms(1)]]
  let ?cs = "hs_counts (rec_hist r)"
  have len: "length ?cs = length (counts t)" using assms(3) by (simp add: fits_def)
  with w have s: "sized_ok (t\<lparr>counts := ?cs\<rparr>)" by simp
  have 64: "LENGTH(64) \<le> 64" by simp
  from restat_restated [OF s 64] obtain s where
    s: "restat (t\<lparr>counts := ?cs\<rparr>) (length ?cs) = (Ok s :: (creation_error, u64 histogram) res)"
       "restated (t\<lparr>counts := ?cs\<rparr>) s" by auto
  have "capacity s = capacity t"
    by (rule sized_ok_same_layout(5)) (use s(2) w wfD(1) in \<open>auto simp: restated_def\<close>)
  then have "alike t s" using s(2) assms(2) by (simp add: alike_def restated_def)
  moreover have "new_from_snapshot (snapshot_from (rec_hist r)) = Ok s"
    using s(1) assms(1,3) cfg by (simp add: new_from_snapshot_def snapshot_from_def fits_def)
  moreover have "counts s = ?cs" using s(2) by (simp add: restated_def)
  ultimately show thesis using that by blast
qed

lemma load_all_fits:
  assumes "new_with_bounds lo hi sf = (Ok t :: (creation_error, u64 histogram) res)"
    and "capacity t < 2 ^ 64"
  shows "\<forall>r \<in> set rs. fits t r \<Longrightarrow> \<exists>hs. load_all rs = Ok hs \<and> (\<forall>s \<in> set hs. alike t s) \<and>
    List.map counts hs = List.map (hs_counts \<circ> rec_hist) rs"
proof (induction rs)
  case (Cons r rs)
  then obtain hs where hs: "load_all rs = Ok hs" "\<forall>s \<in> set hs. alike t s"
    "List.map counts hs = List.map (hs_counts \<circ> rec_hist) rs" by auto
  have "fits t r" using Cons.prems by simp
  from load_one [OF assms this] obtain s where "new_from_snapshot (snapshot_from (rec_hist r)) = Ok s" "alike t s"
    "counts s = hs_counts (rec_hist r)" .
  with hs show ?case by (intro exI [of _ "s # hs"]) simp
qed simp

text \<open>What the summary of the records \<open>rs\<close> has to be.\<close>

definition merged :: "u64 histogram \<Rightarrow> 't hist_record list \<Rightarrow> u64 histogram \<Rightarrow> bool" where
  "merged t rs summary \<longleftrightarrow> alike t summary \<and>
     (\<forall>i < length (counts t). unat (counts summary ! i) =
        min u64_max (\<Sum>r\<leftarrow>rs. unat (hs_counts (rec_hist r) ! i)))"

lemma merge_fits:
  assumes "new_with_bounds lo hi sf = (Ok t :: (creation_error, u64 histogram) res)"
    and "capacity t < 2 ^ 64" and "rs \<noteq> []" and "\<forall>r \<in> set rs. fits t r"
  obtains summary where "merge_records rs = Ok (length rs, summary)" and "merged t rs summary"
proof -
  obtain hs where hs: "load_all rs = Ok hs" "\<forall>s \<in> set hs. alike t s"
    "List.map counts hs = List.map (hs_counts \<circ> rec_hist) rs"
    using load_all_fits [OF assms(1,2,4)] by blast
  have len: "length hs = length rs" using hs(3) by (metis length_map)
  with assms(3) obtain first tail where hs1: "hs = first # tail" by (cases hs) auto
  then have a: "alike t first" using hs(2) by simp
  have nf: "new_from first = (Ok (blank first) :: (chist_error, u64 histogram) res)"
    by (rule new_from_eq) (use a wfD(1) in \<open>auto simp: alike_def\<close>)
  have b: "alike t (blank first)"
    using a wf_blank [of first] by (simp add: alike_def) (simp add: blank_def capacity_def exact_def)
  moreover have b0: "bin_count (blank first) i = 0" for i by (simp add: blank_def bin_count_def)
  ultimately obtain summary where s: "add_all (blank first) hs = Ok summary" "alike t summary"
    "\<forall>i. bin_count summary i = min u64_max (\<Sum>s\<leftarrow>hs. bin_count s i)"
    using add_all_alike [OF b hs(2)] by auto
  have lens: "length (counts s) = length (counts t)" if "alike t s" for s
    by (rule sized_ok_same_layout(4))
      (use that wfD(1) [OF new_with_bounds_wf [OF assms(1)]] wfD(1) in \<open>auto simp: alike_def\<close>)
  have "unat (counts summary ! i) = min u64_max (\<Sum>r\<leftarrow>rs. unat (hs_counts (rec_hist r) ! i))"
    if i: "i < length (counts t)" for i
  proof -
    have "List.map (\<lambda>s. bin_count s i) hs = List.map (\<lambda>s. unat (counts s ! i)) hs"
      using hs(2) lens i by (simp add: bin_count_def)
    also have "\<dots> = List.map (\<lambda>cs. unat (cs ! i)) (List.map counts hs)" by simp
    also have "\<dots> = List.map (\<lambda>r. unat (hs_counts (rec_hist r) ! i)) rs" unfolding hs(3) by simp
    finally have "(\<Sum>s\<leftarrow>hs. bin_count s i) = (\<Sum>r\<leftarrow>rs. unat (hs_counts (rec_hist r) ! i))" by simp
    then show ?thesis using s(3) lens [OF s(2)] i by (metis bin_count_def)
  qed
  then have "merged t rs summary" using s(2) by (simp add: merged_def)
  moreover have "merge_records rs = Ok (length rs, summary)"
    using hs(1) hs1 s(1) len nf by (simp add: merge_records_def)
  ultimately show thesis using that by blast
qed

section \<open>A round that succeeds\<close>

lemma scan_to_count_less: "scan_to_count i cs t k = Some j \<Longrightarrow> i \<le> j \<and> j < i + length cs"
  by (induction i cs t k rule: scan_to_count.induct) (auto simp: Let_def split: if_splits)

lemma value_at_quantile_Ok:
  assumes "wf h"
  obtains v where "value_at_quantile h q = (Ok v :: ('e, u64) res)"
proof (cases "scan_to_count 0 (counts h) 0 (count_at_quantile h (cap_quantile q))")
  case None
  then show thesis using that by (simp add: value_at_quantile_def Let_def)
next
  case (Some i)
  then have "i < length (counts h)" using scan_to_count_less [OF Some] by simp
  then have "value_for h i = (Ok (of_nat (h_value h i)) :: ('e, u64) res)"
    by (rule value_for_bins(4) [OF wfD(3) [OF assms]])
  then show thesis using that Some
    by (cases "f64_eq (cap_quantile q) (Fin 0)") (simp_all add: value_at_quantile_def Let_def)
qed

lemma summary_row_Ok:
  assumes "wf h"
  obtains row where "summary_row t name e n h = Ok row"
proof -
  from value_at_quantile_Ok [OF assms] obtain v where v: "value_at_quantile h (f64_round (1 / 2)) = (Ok v :: (chist_error, u64) res)" .
  from value_at_quantile_Ok [OF assms] obtain u where u: "value_at_quantile h (f64_round (95 / 100)) = (Ok u :: (chist_error, u64) res)" .
  from value_at_quantile_Ok [OF assms] obtain w where w: "value_at_quantile h (f64_round (99 / 100)) = (Ok w :: (chist_error, u64) res)" .
  show thesis using that v u w unfolding summary_row_def Let_def by simp
qed

text \<open>
  Which records the comment of the loop takes to correspond: those closer to the time of the round
  than to that time plus the elapsed time of its first record.
\<close>

definition corresponds :: "('t \<Rightarrow> 't \<Rightarrow> int) \<Rightarrow> 't \<Rightarrow> 't \<Rightarrow> 't hist_record \<Rightarrow> bool" where
  "corresponds ms t1 t2 r \<longleftrightarrow> \<bar>ms (now r) t1\<bar> < \<bar>ms (now r) t2\<bar>"

lemma maybe_eat_corresponding:
  assumes "ri w < length (records w)" and "corresponds ms t1 t2 (records w ! ri w)"
  shows "maybe_eat_record_time_name ms w t1 t2 name =
    (if rec_name (records w ! ri w) = name then Ok (advance w, Some (records w ! ri w))
     else Err (UnexpectedName (label w) (ri w + 1) name (rec_name (records w ! ri w))))"
  using assms by (simp add: maybe_eat_record_time_name_def advance_def corresponds_def Let_def)

lemma maybe_eat_named:
  "ri w < length (records w) \<Longrightarrow> rec_name (records w ! ri w) = name \<Longrightarrow>
    maybe_eat_record_time_name ms w t1 t2 name = Ok (advance w, Some (records w ! ri w))"
  "\<not> ri w < length (records w) \<Longrightarrow> maybe_eat_record_time_name ms w t1 t2 name = Ok (advance w, None)"
  by (simp_all add: maybe_eat_record_time_name_def advance_def Let_def)

lemma current_records_Cons: "current_records (w # ws) =
    (if ri w < length (records w) then records w ! ri w # current_records ws else current_records ws)"
  by (simp add: current_records_def)

lemma eat_all_names:
  "\<forall>r \<in> set (current_records ws). rec_name r = name \<Longrightarrow>
    eat_all ms ws t1 t2 name = Ok (List.map advance ws, current_records ws)"
proof (induction ws)
  case (Cons w ws)
  then show ?case by (cases "ri w < length (records w)") (simp_all add: current_records_Cons maybe_eat_named)
qed (simp add: current_records_def)

lemma eat_all_unexpected:
  "\<forall>r \<in> set (current_records ws). corresponds ms t1 t2 r \<Longrightarrow> \<not> (\<forall>r \<in> set (current_records ws). rec_name r = name) \<Longrightarrow>
    \<exists>v \<in> set ws. ri v < length (records v) \<and> rec_name (records v ! ri v) \<noteq> name \<and>
      eat_all ms ws t1 t2 name = Err (UnexpectedName (label v) (ri v + 1) name (rec_name (records v ! ri v)))"
proof (induction ws)
  case (Cons w ws)
  note c = current_records_Cons [of w ws]
  show ?case
  proof (cases "ri w < length (records w) \<and> rec_name (records w ! ri w) \<noteq> name")
    case True
    then show ?thesis
      using Cons.prems(1) by (intro bexI [of _ w]) (simp_all add: c maybe_eat_corresponding)
  next
    case False
    then obtain r where "maybe_eat_record_time_name ms w t1 t2 name = Ok (advance w, r)"
      using maybe_eat_named by (metis (no_types))
    moreover have "\<forall>r \<in> set (current_records ws). corresponds ms t1 t2 r"
      "\<not> (\<forall>r \<in> set (current_records ws). rec_name r = name)"
      using Cons.prems False by (auto simp: c split: if_splits)
    then obtain v where "v \<in> set ws" "ri v < length (records v) \<and> rec_name (records v ! ri v) \<noteq> name"
      "eat_all ms ws t1 t2 name = Err (UnexpectedName (label v) (ri v + 1) name (rec_name (records v ! ri v)))"
      using Cons.IH by blast
    ultimately show ?thesis by (intro bexI [of _ v]) simp_all
  qed
qed (simp add: current_records_def)

lemma min_by_time_Some:
  "min_by_time xs = Some (w, t) \<Longrightarrow> (w, t) \<in> set xs \<and> (\<forall>(v, u) \<in> set xs. t \<le> u)"
  by (induction xs arbitrary: w t rule: min_by_time.induct)
    (fastforce split: option.splits if_splits simp: min_by_time_None_iff)+

lemma set_next_times:
  "(w, t) \<in> set (next_times ws) \<longleftrightarrow> w \<in> set ws \<and> ri w < length (records w) \<and> t = now (records w ! ri w)"
  by (induction ws) (auto simp: next_times_def List.map_filter_simps peek_next_time_def)

lemma current_records_iff: "r \<in> set (current_records ws) \<longleftrightarrow>
    (\<exists>w \<in> set ws. ri w < length (records w) \<and> r = records w ! ri w)"
  by (auto simp: current_records_def)

lemma print_step_fits:
  assumes "new_with_bounds lo hi sf = (Ok t :: (creation_error, u64 histogram) res)"
    and "capacity t < 2 ^ 64" and "min_by_time (next_times ws) = Some (w, t0)"
    and "\<forall>r \<in> set (current_records ws). fits t r \<and> rec_name r = rec_name (records w ! ri w)"
    and "elapsed_as_i64 (elapsed (records w ! ri w)) = Some ns" and "add_ns t0 ns = Some t1"
  obtains summary row where "merged t (current_records ws) summary"
    and "summary_row t0 (rec_name (records w ! ri w)) (elapsed (records w ! ri w))
      (length (current_records ws)) summary = Ok row"
    and "print_step ms add_ns ws = Ok (Some (List.map advance ws, row))"
proof -
  have w: "w \<in> set ws" "ri w < length (records w)"
    using min_by_time_Some [OF assms(3)] by (auto simp: set_next_times)
  then have "records w ! ri w \<in> set (current_records ws)" by (auto simp: current_records_iff)
  then have ne: "current_records ws \<noteq> []" by auto
  obtain summary where s: "merge_records (current_records ws) = Ok (length (current_records ws), summary)"
    "merged t (current_records ws) summary"
    by (rule merge_fits [OF assms(1,2) ne]) (use assms(4) in auto)
  have "wf summary" using s(2) by (simp add: merged_def alike_def)
  then obtain row where r: "summary_row t0 (rec_name (records w ! ri w)) (elapsed (records w ! ri w))
      (length (current_records ws)) summary = Ok row" by (rule summary_row_Ok)
  moreover have "eat_all ms ws t0 t1 (rec_name (records w ! ri w)) = Ok (List.map advance ws, current_records ws)"
    using assms(4) by (intro eat_all_names) auto
  ultimately have "print_step ms add_ns ws = Ok (Some (List.map advance ws, row))"
    using assms(3,5,6) w s(1) by (simp add: print_step_def peek_record_def)
  with s(2) r show thesis using that by blast
qed

section \<open>The rows\<close>

fun rounds :: "'t walk_state list \<Rightarrow> nat" where
  "rounds [] = 0"
| "rounds (w # ws) = max (left w) (rounds ws)"

lemma rounds_advance: "rounds (List.map advance ws) = rounds ws - 1"
  by (induction ws) (simp_all add: left_advance max_def, linarith?)

lemma left_le_rounds: "w \<in> set ws \<Longrightarrow> left w \<le> rounds ws"
  by (induction ws) auto

lemma rounds_0: "\<forall>w \<in> set ws. left w = 0 \<Longrightarrow> rounds ws = 0"
  by (induction ws) auto

lemma print_loop_Ok:
  assumes "print_loop ms add_ns ws = (rows, Ok ())"
  shows "length rows = rounds ws \<and>
    (\<forall>k < length rows. row_files (rows ! k) = length (filter (\<lambda>w. k < left w) ws))"
  using assms
proof (induction ms add_ns ws arbitrary: rows rule: print_loop.induct)
  case (1 ms add_ns ws)
  from "1.prems" consider "print_step ms add_ns ws = Ok None" "rows = []"
    | ws' row rows' where "print_step ms add_ns ws = Ok (Some (ws', row))"
        "print_loop ms add_ns ws' = (rows', Ok ())" "rows = row # rows'"
    by (subst (asm) print_loop.simps) (auto split: res.splits option.splits prod.splits)
  then show ?case
  proof cases
    case 1
    then have "min_by_time (next_times ws) = None"
      by (auto simp: print_step_def bind_res_eq_Ok split: option.splits)
    then have "\<forall>w \<in> set ws. left w = 0" by (simp add: min_by_time_None_iff next_times_Nil_iff)
    then show ?thesis using 1 rounds_0 by simp
  next
    case (2 ws' row rows')
    note st = print_step_Some [OF 2(1)]
    have ih: "length rows' = rounds ws'"
      "\<And>k. k < length rows' \<Longrightarrow> row_files (rows' ! k) = length (filter (\<lambda>w. k < left w) ws')"
      using "1.IH" [OF 2(1) refl refl 2(2)] by auto
    have "0 < rounds ws" using st(2) left_le_rounds [of _ ws] by fastforce
    then have "length rows = rounds ws"
      using ih(1) 2(3) st(1) rounds_advance [of ws] by simp
    moreover have "row_files (rows ! k) = length (filter (\<lambda>w. k < left w) ws)" if "k < length rows" for k
    proof (cases k)
      case 0
      then show ?thesis using 2(3) st(3) by (simp add: current_records_def left_def)
    next
      case (Suc j)
      then have "row_files (rows ! k) = length (filter (\<lambda>w. j < left w) ws')"
        using that 2(3) ih(2) by simp
      then show ?thesis using st(1) Suc by (simp add: filter_map comp_def left_advance less_diff_conv)
    qed
    ultimately show ?thesis by blast
  qed
qed

text \<open>The records of round \<open>k\<close>, and the one whose time, name and elapsed time the line shows.\<close>

definition round_records :: "'t walk_state list \<Rightarrow> nat \<Rightarrow> 't hist_record list" where
  "round_records ws k = List.map (\<lambda>w. records w ! (ri w + k)) (filter (\<lambda>w. k < left w) ws)"

fun earliest :: "'t::linorder hist_record list \<Rightarrow> 't hist_record option" where
  "earliest [] = None"
| "earliest (r # rs) =
     (case earliest rs of None \<Rightarrow> Some r | Some m \<Rightarrow> if now m < now r then Some m else Some r)"

lemma round_records_0: "round_records ws 0 = current_records ws"
  by (simp add: round_records_def current_records_def left_def)

lemma round_records_advance: "round_records (List.map advance ws) k = round_records ws (Suc k)"
proof -
  have "records (advance w) ! (ri (advance w) + k) = records w ! (ri w + Suc k)" if "k < left (advance w)" for w :: "'a walk_state"
    using that by (auto simp: advance_def left_def split: if_splits)
  moreover have "k < left (advance w) \<longleftrightarrow> Suc k < left w" for w :: "'a walk_state" by (simp add: left_advance less_diff_conv)
  ultimately show ?thesis by (simp add: round_records_def filter_map comp_def)
qed

lemma min_by_time_earliest:
  "earliest (current_records ws) = map_option (\<lambda>(w, t). records w ! ri w) (min_by_time (next_times ws))"
  "min_by_time (next_times ws) = Some (w, t) \<Longrightarrow> t = now (records w ! ri w)"
proof -
  show t: "min_by_time (next_times ws) = Some (w, t) \<Longrightarrow> t = now (records w ! ri w)" for ws w t
    using min_by_time_Some [of "next_times ws" w t] by (simp add: set_next_times)
  show "earliest (current_records ws) = map_option (\<lambda>(w, t). records w ! ri w) (min_by_time (next_times ws))"
  proof (induction ws)
    case (Cons w ws)
    then show ?case
      using t [of ws]
      by (auto simp: next_times_def List.map_filter_simps peek_next_time_def current_records_Cons split: option.splits)
  qed (simp add: next_times_def List.map_filter_simps current_records_def)
qed

text \<open>The line for the records \<open>rs\<close>: computed from a histogram that sums up theirs.\<close>

definition row_for :: "u64 histogram \<Rightarrow> 't::linorder hist_record list \<Rightarrow> 't row \<Rightarrow> bool" where
  "row_for t rs row \<longleftrightarrow> (\<exists>m summary. earliest rs = Some m \<and> merged t rs summary \<and>
     summary_row (now m) (rec_name m) (elapsed m) (length rs) summary = Ok row)"

text \<open>
  Records of one round that are in step: chrono can represent the time of the earliest plus its elapsed
  time, and all of them correspond to the earliest.
\<close>

definition in_step ::
  "('t::linorder \<Rightarrow> 't \<Rightarrow> int) \<Rightarrow> ('t \<Rightarrow> int \<Rightarrow> 't option) \<Rightarrow> 't hist_record list \<Rightarrow> bool" where
  "in_step ms add_ns rs \<longleftrightarrow>
     (case earliest rs of
        None \<Rightarrow> True
      | Some m \<Rightarrow>
          (case add_ns (now m) (int (unat (elapsed m))) of
             None \<Rightarrow> False
           | Some t2 \<Rightarrow> list_all (corresponds ms (now m) t2) rs))"

text \<open>Files of one configuration whose records name the same operations in the same order.\<close>

definition uniform :: "u64 histogram \<Rightarrow> 't walk_state list \<Rightarrow> bool" where
  "uniform t ws \<longleftrightarrow>
     (\<forall>w \<in> set ws. \<forall>r \<in> set (records w). fits t r \<and> unat (elapsed r) < 2 ^ 63) \<and>
     (\<forall>w \<in> set ws. \<forall>v \<in> set ws. \<forall>k. k < left w \<longrightarrow> k < left v \<longrightarrow>
        rec_name (records w ! (ri w + k)) = rec_name (records v ! (ri v + k)))"

lemma uniform_advance:
  assumes "uniform t ws"
  shows "uniform t (List.map advance ws)"
proof -
  have r: "records (advance w) = records w" for w :: "'a walk_state" by (simp add: advance_def)
  have ri: "k < left (advance w) \<Longrightarrow> ri (advance w) = ri w + 1" for w :: "'a walk_state" and k
    by (simp add: advance_def left_def split: if_splits)
  have "rec_name (records w ! (ri (advance w) + k)) = rec_name (records v ! (ri (advance v) + k))"
    if "w \<in> set ws" "v \<in> set ws" "k < left (advance w)" "k < left (advance v)" for w v k
  proof -
    have "Suc k < left w" "Suc k < left v" using that by (simp_all add: left_advance)
    then have "rec_name (records w ! (ri w + Suc k)) = rec_name (records v ! (ri v + Suc k))"
      using assms that(1,2) unfolding uniform_def by blast
    then show ?thesis using ri that(3,4) by simp
  qed
  then have "\<forall>w \<in> set ws. \<forall>v \<in> set ws. \<forall>k. k < left (advance w) \<longrightarrow> k < left (advance v) \<longrightarrow>
      rec_name (records w ! (ri (advance w) + k)) = rec_name (records v ! (ri (advance v) + k))" by blast
  moreover have "\<forall>w \<in> set ws. \<forall>r \<in> set (records w). fits t r \<and> unat (elapsed r) < 2 ^ 63"
    using assms unfolding uniform_def by blast
  ultimately show ?thesis unfolding uniform_def by (simp only: set_map ball_simps r)
qed

lemma uniform_round:
  assumes "uniform t ws" and "w \<in> set ws" and "ri w < length (records w)"
  shows "\<forall>r \<in> set (current_records ws). fits t r \<and> rec_name r = rec_name (records w ! ri w)"
    and "elapsed_as_i64 (elapsed (records w ! ri w)) = Some (int (unat (elapsed (records w ! ri w))))"
proof -
  show "\<forall>r \<in> set (current_records ws). fits t r \<and> rec_name r = rec_name (records w ! ri w)"
  proof
    fix r assume "r \<in> set (current_records ws)"
    then obtain v where v: "v \<in> set ws" "ri v < length (records v)" "r = records v ! ri v"
      by (auto simp: current_records_iff)
    then have "0 < left v" "0 < left w" using assms(3) by (simp_all add: left_def)
    with assms(1,2) v(1) have "rec_name (records v ! (ri v + 0)) = rec_name (records w ! (ri w + 0))"
      unfolding uniform_def by blast
    moreover have "fits t r" using assms(1) v by (simp add: uniform_def)
    ultimately show "fits t r \<and> rec_name r = rec_name (records w ! ri w)" using v(3) by simp
  qed
  show "elapsed_as_i64 (elapsed (records w ! ri w)) = Some (int (unat (elapsed (records w ! ri w))))"
    using assms by (simp add: uniform_def elapsed_as_i64_def)
qed

lemma print_loop_uniform:
  assumes "new_with_bounds lo hi sf = (Ok t :: (creation_error, u64 histogram) res)"
    and "capacity t < 2 ^ 64" and "uniform t ws" and "\<forall>k < rounds ws. in_step ms add_ns (round_records ws k)"
  shows "\<exists>rows. print_loop ms add_ns ws = (rows, Ok ()) \<and>
    (\<forall>k < length rows. row_for t (round_records ws k) (rows ! k))"
  using assms(3,4)
proof (induction ms add_ns ws rule: print_loop.induct)
  case (1 ms add_ns ws)
  show ?case
  proof (cases "min_by_time (next_times ws)")
    case None
    then have "print_step ms add_ns ws = Ok None" by (simp add: print_step_def)
    then show ?thesis by (simp add: print_loop.simps)
  next
    case (Some wt)
    then obtain w t0 where mn: "min_by_time (next_times ws) = Some (w, t0)" by (cases wt) auto
    then have w: "w \<in> set ws" "ri w < length (records w)" "t0 = now (records w ! ri w)"
      using min_by_time_Some [OF mn] by (auto simp: set_next_times)
    have m: "earliest (current_records ws) = Some (records w ! ri w)" by (simp add: min_by_time_earliest(1) mn)
    have "0 < left w" using w(2) by (simp add: left_def)
    then have r0: "0 < rounds ws" using left_le_rounds [OF w(1)] by linarith
    then have "in_step ms add_ns (current_records ws)"
      using "1.prems"(2) by (auto simp flip: round_records_0)
    then obtain t1 where "add_ns t0 (int (unat (elapsed (records w ! ri w)))) = Some t1"
      by (auto simp: in_step_def m w(3) split: option.splits)
    from print_step_fits [where ms = ms and add_ns = add_ns, OF assms(1,2) mn uniform_round [OF "1.prems"(1) w(1,2)] this]
    obtain summary row where st: "merged t (current_records ws) summary"
      "summary_row t0 (rec_name (records w ! ri w)) (elapsed (records w ! ri w)) (length (current_records ws)) summary = Ok row"
      "print_step ms add_ns ws = Ok (Some (List.map advance ws, row))" .
    have row: "row_for t (round_records ws 0) row"
      using st(1,2) m w(3) by (auto simp: row_for_def round_records_0)
    have "\<forall>k < rounds (List.map advance ws). in_step ms add_ns (round_records (List.map advance ws) k)"
      using "1.prems"(2) r0 by (simp add: rounds_advance round_records_advance)
    from "1.IH" [OF st(3) refl refl uniform_advance [OF "1.prems"(1)] this] obtain rows where
      "print_loop ms add_ns (List.map advance ws) = (rows, Ok ())"
      "\<forall>k < length rows. row_for t (round_records ws (Suc k)) (rows ! k)"
      by (auto simp: round_records_advance)
    then show ?thesis
      using st(3) row by (intro exI [of _ "row # rows"]) (auto simp: print_loop.simps nth_Cons split: nat.splits)
  qed
qed

section \<open>Examples\<close>

text \<open>Times in milliseconds, and records of the configuration of \<open>sample\<close>.\<close>

definition ms_int :: "int \<Rightarrow> int \<Rightarrow> int" where
  "ms_int t u = t - u"

definition add_ns_int :: "int \<Rightarrow> int \<Rightarrow> int option" where
  "add_ns_int t n = Some (t + n div 1000000)"

definition a_record :: "string \<Rightarrow> int \<Rightarrow> int hist_record" where
  "a_record name t = \<lparr>rec_name = name, elapsed = 1000000000, now = t,
     rec_hist = \<lparr>hs_lowest_trackable_value = 1, hs_highest_trackable_value = 100,
       hs_significant_figures = 0, hs_counts = [0, 2, 0, 3, 0, 0, 0, 0]\<rparr>\<rparr>"

definition two_files :: "int walk_state list" where
  "two_files =
     [\<lparr>label = ''a'', records = [a_record ''read'' 0, a_record ''read'' 1000], ri = 0\<rparr>,
      \<lparr>label = ''b'', records = [a_record ''read'' 3], ri = 0\<rparr>]"

lemma fits_a_record: "fits sample (a_record name t)"
  by (simp add: fits_def a_record_def sample_eq)

lemma uniform_two_files: "uniform sample two_files"
  by (auto simp: uniform_def two_files_def left_def fits_a_record) (auto simp: a_record_def)

lemma capacity_sample_less: "capacity sample < 2 ^ 64"
  by (simp add: capacity_sample)

text \<open>The files as they are read, before the first round.\<close>

lemma file_walkers_Ok:
  "\<forall>f \<in> set files. read_hist_file f = Ok (recs f) \<Longrightarrow>
    file_walkers read_hist_file files = Ok (List.map (\<lambda>f. \<lparr>label = f, records = recs f, ri = 0\<rparr>) files)"
  by (induction files) simp_all

lemma rounds_walkers:
  "files \<noteq> [] \<Longrightarrow> rounds (List.map (\<lambda>f. \<lparr>label = f, records = recs f, ri = 0\<rparr>) files)
    = Max (set (List.map (\<lambda>f. length (recs f)) files))"
  by (induction files rule: list_nonempty_induct) (simp_all add: left_def)

text \<open>A row names the operation of one of the records.\<close>

lemma earliest_in: "earliest rs = Some m \<Longrightarrow> m \<in> set rs"
  by (induction rs arbitrary: m) (auto split: option.splits if_splits)

lemma row_for_name: "row_for t rs row \<Longrightarrow> row_name row \<in> rec_name ` set rs"
  by (auto simp: row_for_def summary_row_def bind_res_eq_Ok Let_def dest: earliest_in)

text \<open>The records of round \<open>k\<close> of files not yet read from.\<close>

definition kth_records :: "(string \<Rightarrow> 't hist_record list) \<Rightarrow> string list \<Rightarrow> nat \<Rightarrow> 't hist_record list" where
  "kth_records recs files k = List.map (\<lambda>f. recs f ! k) (filter (\<lambda>f. k < length (recs f)) files)"

lemma print_uniform_main:
  assumes "new_with_bounds lo hi sf = (Ok t :: (creation_error, u64 histogram) res)"
    and "capacity t < 2 ^ 64" and "files \<noteq> []"
    and "\<forall>f \<in> set files. read_hist_file f = Ok (recs f)"
    and "uniform t (List.map (\<lambda>f. \<lparr>label = f, records = recs f, ri = 0\<rparr>) files)"
    and "\<forall>k < Max (set (List.map (\<lambda>f. length (recs f)) files)). in_step ms add_ns (kth_records recs files k)"
  obtains rows where "main read_hist_file ms add_ns (program # ''print'' # files) = (TitleLine # List.map RowLine rows, Success)"
    and "length rows = Max (set (List.map (\<lambda>f. length (recs f)) files))"
    and "\<And>k. k < length rows \<Longrightarrow> row_for t (kth_records recs files k) (rows ! k)"
proof -
  let ?ws = "List.map (\<lambda>f. \<lparr>label = f, records = recs f, ri = 0\<rparr>) files"
  have r: "round_records ?ws k = kth_records recs files k" for k
    by (simp add: round_records_def kth_records_def filter_map o_def left_def)
  note m = rounds_walkers [OF assms(3), of recs]
  obtain rows where rows: "print_loop ms add_ns ?ws = (rows, Ok ())"
    and of_round: "\<forall>k < length rows. row_for t (kth_records recs files k) (rows ! k)"
    using print_loop_uniform [OF assms(1,2,5), of ms add_ns] assms(6) unfolding r m by blast
  have "file_walkers read_hist_file files = Ok ?ws" using assms(4) by (rule file_walkers_Ok)
  moreover have "length (program # ''print'' # files) = Suc (Suc (length files))" and "0 < length files"
    using assms(3) by simp_all
  ultimately have "main read_hist_file ms add_ns (program # ''print'' # files) = (TitleLine # List.map RowLine rows, Success)"
    by (simp add: main_def rows exit_of_def)
  then show thesis using print_loop_Ok [OF rows] m of_round by (intro that [of rows]) simp_all
qed

section \<open>Properties\<close>

text \<open>
  C11. One round of \<open>print\<close>, when the records that are next in the files are in step: all of them
  correspond to the earliest in the sense of the comment of the loop (closer to its time than to that
  time plus its elapsed time, which fits \<open>i64\<close> and is a time chrono can represent), and have one valid
  configuration, with the right number of counts and a range that ends below the top of \<open>u64\<close>. If they
  all name the operation of the earliest, every file moves on by one record and the line is computed from
  a well-formed histogram with an exact total each of whose bins holds the sum (saturated at
  \<open>u64::MAX\<close>) of that bin over these records. Otherwise the round fails and tells the file, the record
  number and the two names. (A record that is not in step is merged all the same:
  \<open>distant_record_merged\<close>.)
\<close>

theorem print_step_merges:
  assumes "new_with_bounds lo hi sf = (Ok t :: (creation_error, u64 histogram) res)"
    and "capacity t < 2 ^ 64" and "min_by_time (next_times ws) = Some (w, t0)"
    and "elapsed_as_i64 (elapsed (records w ! ri w)) = Some ns" and "add_ns t0 ns = Some t1"
    and "\<forall>r \<in> set (current_records ws). fits t r \<and> corresponds ms t0 t1 r"
  shows "let name = rec_name (records w ! ri w); rs = current_records ws in
    if list_all (\<lambda>r. rec_name r = name) rs
    then \<exists>summary row. merged t rs summary \<and>
      summary_row t0 name (elapsed (records w ! ri w)) (length rs) summary = Ok row \<and>
      print_step ms add_ns ws = Ok (Some (List.map advance ws, row))
    else \<exists>v \<in> set ws. ri v < length (records v) \<and> rec_name (records v ! ri v) \<noteq> name \<and>
      print_step ms add_ns ws = Err (UnexpectedName (label v) (ri v + 1) name (rec_name (records v ! ri v)))"
proof (cases "list_all (\<lambda>r. rec_name r = rec_name (records w ! ri w)) (current_records ws)")
  case True
  then have "\<forall>r \<in> set (current_records ws). fits t r \<and> rec_name r = rec_name (records w ! ri w)"
    using assms(6) by (simp add: list_all_iff)
  from print_step_fits [where add_ns = add_ns and ms = ms, OF assms(1-3) this assms(4,5)] True show ?thesis
    unfolding Let_def by metis
next
  case False
  have "\<forall>r \<in> set (current_records ws). corresponds ms t0 t1 r" using assms(6) by simp
  from eat_all_unexpected [OF this] False obtain v where v: "v \<in> set ws"
    "ri v < length (records v) \<and> rec_name (records v ! ri v) \<noteq> rec_name (records w ! ri w)"
    "eat_all ms ws t0 t1 (rec_name (records w ! ri w)) = Err (UnexpectedName (label v) (ri v + 1)
      (rec_name (records w ! ri w)) (rec_name (records v ! ri v)))"
    unfolding list_all_iff by blast
  have "ri w < length (records w)" using min_by_time_Some [OF assms(3)] by (simp add: set_next_times)
  then have "print_step ms add_ns ws = Err (UnexpectedName (label v) (ri v + 1)
      (rec_name (records w ! ri w)) (rec_name (records v ! ri v)))"
    using assms(3-5) v(3) by (simp add: print_step_def peek_record_def)
  then show ?thesis using v(1,2) False unfolding Let_def by auto
qed

theorem print_step_merges_witness:
  "\<exists>summary row. merged sample (current_records two_files) summary \<and>
    summary_row 0 ''read'' 1000000000 2 summary = Ok row \<and>
    print_step ms_int add_ns_int two_files = Ok (Some (List.map advance two_files, row))"
proof -
  have c: "current_records two_files = [a_record ''read'' 0, a_record ''read'' 3]"
    by (simp add: current_records_def two_files_def)
  have m: "min_by_time (next_times two_files) = Some (two_files ! 0, 0)"
    by (simp add: two_files_def next_times_def List.map_filter_simps peek_next_time_def a_record_def)
  have r: "records (two_files ! 0) ! ri (two_files ! 0) = a_record ''read'' 0"
    by (simp add: two_files_def)
  have e: "elapsed_as_i64 (elapsed (records (two_files ! 0) ! ri (two_files ! 0))) = Some 1000000000"
    unfolding r by (simp add: elapsed_as_i64_def a_record_def)
  have n: "rec_name (a_record s u) = s" "elapsed (a_record s u) = 1000000000" for s u
    by (simp_all add: a_record_def)
  have f: "\<forall>x \<in> set (current_records two_files). fits sample x \<and> corresponds ms_int 0 1000 x"
    unfolding c using fits_a_record by (simp add: corresponds_def ms_int_def a_record_def)
  have a: "add_ns_int 0 1000000000 = Some 1000" by (simp add: add_ns_int_def)
  have l: "length (current_records two_files) = 2" "list_all (\<lambda>x. rec_name x = ''read'') (current_records two_files)"
    unfolding c by (simp_all add: n)
  show ?thesis
    using print_step_merges [where add_ns = add_ns_int and ms = ms_int, OF new_with_bounds_sample capacity_sample_less m e a f]
    by (simp add: r n l Let_def)
qed

text \<open>
  The code takes a record of every file whatever its time: here the second file's is 5 seconds after
  the round, whose interval is 1 second, and is merged into its line.
\<close>

lemma distant_record_merged:
  defines "ws \<equiv> [\<lparr>label = ''a'', records = [a_record ''read'' 0], ri = 0\<rparr>,
                 \<lparr>label = ''b'', records = [a_record ''read'' 5000], ri = 0\<rparr>]"
  shows "\<exists>row. print_step ms_int add_ns_int ws = Ok (Some (List.map advance ws, row)) \<and> row_time row = 0 \<and>
    row_files row = 2 \<and> \<not> corresponds ms_int 0 1000 (a_record ''read'' 5000)"
proof -
  let ?w = "ws ! 0"
  have c: "current_records ws = [a_record ''read'' 0, a_record ''read'' 5000]" by (simp add: ws_def current_records_def)
  have m: "min_by_time (next_times ws) = Some (?w, 0)"
    by (simp add: ws_def next_times_def List.map_filter_simps peek_next_time_def a_record_def)
  have r: "records ?w ! ri ?w = a_record ''read'' 0" by (simp add: ws_def)
  have n: "\<forall>x \<in> set (current_records ws). fits sample x \<and> rec_name x = rec_name (records ?w ! ri ?w)"
    unfolding c r using fits_a_record by (simp add: a_record_def)
  have e: "elapsed_as_i64 (elapsed (records ?w ! ri ?w)) = Some 1000000000"
    unfolding r by (simp add: elapsed_as_i64_def a_record_def)
  have a: "add_ns_int 0 1000000000 = Some 1000" by (simp add: add_ns_int_def)
  obtain row where row: "print_step ms_int add_ns_int ws = Ok (Some (List.map advance ws, row))"
    and s: "\<exists>summary. summary_row 0 (rec_name (records ?w ! ri ?w)) (elapsed (records ?w ! ri ?w))
      (length (current_records ws)) summary = Ok row"
    using print_step_fits [where ms = ms_int and add_ns = add_ns_int, OF new_with_bounds_sample capacity_sample_less m n e a]
    by metis
  have "row_time row = 0 \<and> row_files row = 2"
    using s by (auto simp: summary_row_def bind_res_eq_Ok Let_def c)
  then show ?thesis using row by (auto simp: corresponds_def ms_int_def a_record_def)
qed

text \<open>
  C26. The summary of a non-empty file never panics, and prints exactly these lines: the number of
  records, the names up to the first that repeats, for each record a warning if its time is not
  that of the first record of its group and one if its name is not the one at its place in the
  group (numbered one higher than the record), the first time, and, when a name repeats, the
  number of complete groups, the mean interval and the second and last times.
\<close>

theorem do_summarize_lines:
  fixes recs :: "'t hist_record list"
  assumes "recs \<noteq> []"
  shows "\<exists>n. 0 < n \<and> n \<le> length recs \<and> distinct (List.map rec_name (take n recs)) \<and>
    (n = length recs \<or> rec_name (recs ! n) \<in> rec_name ` set (take n recs)) \<and>
    do_summarize ms recs = (Ok (
        [TotalRecords (length recs), DistinctNames (List.map rec_name (take n recs))]
        @ concat (List.map (warnings_for (List.map rec_name (take n recs)) recs) [0..<length recs])
        @ [InitialTimestamp (now (recs ! 0))]
        @ (if n < length recs
           then [ExpectedTimestamps (length recs div n),
                 ExpectedInterval (ms (now (recs ! (length recs - 1))) (now (recs ! 0)) sdiv int (length recs div n)),
                 SecondTimestamp (now (recs ! n)) (ms (now (recs ! n)) (now (recs ! 0))),
                 FinalTimestamp (now (recs ! (length recs - 1)))
                   (ms (now (recs ! (length recs - 1))) (now (recs ! 0)))]
           else [])) :: (unit, 't summary_line list) res)"
  by (rule do_summarize_eq [OF assms])

theorem do_summarize_lines_witness:
  "\<exists>n. 0 < n \<and> n \<le> 1 \<and> do_summarize ms_int [a_record ''read'' 5] = (Ok (
     [TotalRecords 1, DistinctNames (List.map rec_name (take n [a_record ''read'' 5]))]
     @ warnings_for (List.map rec_name (take n [a_record ''read'' 5])) [a_record ''read'' 5] 0
     @ [InitialTimestamp 5]) :: (unit, int summary_line list) res)"
  using do_summarize_lines [of "[a_record ''read'' 5]" ms_int] by (auto simp: a_record_def simp del: One_nat_def)

lemma warnings_for_nil:
  "warnings_for (List.map rec_name (take n recs)) recs i = [] \<longleftrightarrow>
    now (recs ! i) = now (recs ! (i - i mod n)) \<and> rec_name (recs ! i) = rec_name (recs ! (i mod n))"
  if "0 < n" and "n \<le> length recs"
  using that mod_less_divisor [of n i] by (auto simp: warnings_for_def Let_def simp del: mod_less_divisor)

lemma is_warning_warnings_for: "l \<in> set (warnings_for names recs i) \<Longrightarrow> is_warning l"
  by (auto simp: warnings_for_def is_warning_def Let_def split: if_splits)

text \<open>
  C27. The summary of a file has no warning exactly when the file is a sequence of groups with the
  same names in the same order, each group with one time.
\<close>

theorem no_warning_iff_periodic:
  assumes "do_summarize ms recs = (Ok ls :: (unit, 't summary_line list) res)" and "recs \<noteq> []"
  shows "(\<exists>l \<in> set ls. is_warning l) \<longleftrightarrow>
    \<not> (\<forall>i < length recs.
        rec_name (recs ! i) = rec_name (recs ! (i mod length (distinct_names {} [] recs))) \<and>
        now (recs ! i) = now (recs ! (i - i mod length (distinct_names {} [] recs))))"
proof -
  obtain n where n: "distinct_names {} [] recs = List.map rec_name (take n recs)" "0 < n" "n \<le> length recs"
    using summary_names [OF assms(2)] by blast
  let ?names = "List.map rec_name (take n recs)"
  have len: "length ?names = n" using n(3) by simp
  have ne: "?names \<noteq> []" using n(2,3) assms(2) by simp
  have "check_records ?names 0 None (drop 0 recs)
    = (Ok (concat (List.map (warnings_for ?names recs) [0..<length recs])) :: (unit, 't summary_line list) res)"
    by (rule check_records_eq [OF ne]) simp_all
  then obtain rest where "ls = [TotalRecords (length recs), DistinctNames ?names]
      @ concat (List.map (warnings_for ?names recs) [0..<length recs]) @ rest" "\<not> (\<exists>l \<in> set rest. is_warning l)"
    using assms n(1) ne by (auto simp: do_summarize_def Let_def split: if_splits)
  then have "(\<exists>l \<in> set ls. is_warning l) \<longleftrightarrow>
      (\<exists>i \<in> set [0..<length recs]. \<exists>l \<in> set (warnings_for ?names recs i). is_warning l)"
    by (simp only: set_append set_concat bex_Un set_map) simp
  also have "\<dots> \<longleftrightarrow> (\<exists>i < length recs. \<exists>l \<in> set (warnings_for ?names recs i). is_warning l)"
    by auto
  also have "\<dots> \<longleftrightarrow> (\<exists>i < length recs. warnings_for ?names recs i \<noteq> [])"
    using is_warning_warnings_for by (metis list.set_sel(1) empty_iff list.set(1))
  also have "\<dots> \<longleftrightarrow> \<not> (\<forall>i < length recs. rec_name (recs ! i) = rec_name (recs ! (i mod n)) \<and>
      now (recs ! i) = now (recs ! (i - i mod n)))"
    unfolding warnings_for_nil [OF n(2,3)] by blast
  finally show ?thesis unfolding n(1) len .
qed

theorem no_warning_iff_periodic_witness:
  "\<exists>ls. do_summarize ms_int [a_record ''read'' 5, a_record ''write'' 6] = (Ok ls :: (unit, int summary_line list) res) \<and>
    (\<exists>l \<in> set ls. is_warning l)"
proof -
  let ?r = "[a_record ''read'' 5, a_record ''write'' 6]"
  obtain ls where ls: "do_summarize ms_int ?r = (Ok ls :: (unit, int summary_line list) res)"
    using do_summarize_eq [of ?r ms_int, where 'e = unit] by blast
  have "distinct_names {} [] ?r = [''read'', ''write'']" by (simp add: a_record_def)
  then have "\<not> (\<forall>i < length ?r. rec_name (?r ! i) = rec_name (?r ! (i mod length (distinct_names {} [] ?r))) \<and>
        now (?r ! i) = now (?r ! (i - i mod length (distinct_names {} [] ?r))))"
    by (intro notI) (drule spec [of _ 1], simp add: a_record_def)
  then show ?thesis using no_warning_iff_periodic [OF ls] ls by blast
qed

text \<open>
  The record at hand is taken even when it is not closer to the round's time than to the next
  one, under whatever name: only the check of the name depends on the distance.
\<close>

theorem distant_record_is_taken:
  assumes "ri w < length (records w)"
    and "\<not> \<bar>ms (now (records w ! ri w)) t1\<bar> < \<bar>ms (now (records w ! ri w)) t2\<bar>"
  shows "maybe_eat_record_time_name ms w t1 t2 name = Ok (w\<lparr>ri := ri w + 1\<rparr>, Some (records w ! ri w))"
  using assms by (simp add: maybe_eat_record_time_name_def Let_def)

theorem distant_record_is_taken_witness:
  "maybe_eat_record_time_name ms_int \<lparr>label = ''a'', records = [a_record ''write'' 9000], ri = 0\<rparr>
     0 1000 ''read'' = Ok (\<lparr>label = ''a'', records = [a_record ''write'' 9000], ri = 1\<rparr>,
       Some (a_record ''write'' 9000))"
  using distant_record_is_taken [of "\<lparr>label = ''a'', records = [a_record ''write'' 9000], ri = 0\<rparr>" ms_int 0 1000]
  by (simp add: ms_int_def a_record_def)

end
