(* ===== verification/Text.thy ===== *)
theory Text
  imports Prelude Double
begin

text \<open>
  Text as bytes, as far as the standard library is concerned with it in the interval log: ASCII
  literals, \<open>str::from_utf8\<close>, \<open>from_str\<close> of unsigned integers, \<open>split\<close> at a character, decimal
  digits, and in the programs: padding. A \<open>str\<close> is its bytes.
\<close>

section \<open>Literals and characters\<close>

definition ascii :: "string \<Rightarrow> u8 list" where
  "ascii s = map (\<lambda>c. of_nat (of_char c)) s"

lemma ascii_simps [simp]: "ascii [] = []" "ascii (c # s) = of_nat (of_char c) # ascii s"
  by (simp_all add: ascii_def)

definition is_digit :: "u8 \<Rightarrow> bool" where
  "is_digit b \<longleftrightarrow> 48 \<le> b \<and> b \<le> 57"

fun split_at :: "u8 \<Rightarrow> u8 list \<Rightarrow> u8 list list" where
  "split_at c [] = [[]]"
| "split_at c (b # bs) =
     (if b = c then [] # split_at c bs
      else case split_at c bs of [] \<Rightarrow> [[b]] | l # ls \<Rightarrow> (b # l) # ls)"

section \<open>UTF-8\<close>

definition continues :: "u8 \<Rightarrow> u8 \<Rightarrow> u8 \<Rightarrow> bool" where
  "continues lo hi b \<longleftrightarrow> lo \<le> b \<and> b \<le> hi"

text \<open>
  The length of the sequence a first byte opens and the range of its second byte; the others are
  \<open>80..BF\<close>.
\<close>

fun utf8 :: "u8 list \<Rightarrow> bool" where
  "utf8 [] \<longleftrightarrow> True"
| "utf8 (a # bs) \<longleftrightarrow>
     (if a < 0x80 then utf8 bs
      else case bs of
        [] \<Rightarrow> False
      | b # cs \<Rightarrow>
          if continues 0xC2 0xDF a then continues 0x80 0xBF b \<and> utf8 cs
          else case cs of
            [] \<Rightarrow> False
          | c # ds \<Rightarrow>
              if continues 0xE0 0xEF a then
                continues (if a = 0xE0 then 0xA0 else 0x80) (if a = 0xED then 0x9F else 0xBF) b
                \<and> continues 0x80 0xBF c \<and> utf8 ds
              else case ds of
                [] \<Rightarrow> False
              | d # es \<Rightarrow>
                  continues 0xF0 0xF4 a
                  \<and> continues (if a = 0xF0 then 0x90 else 0x80) (if a = 0xF4 then 0x8F else 0xBF) b
                  \<and> continues 0x80 0xBF c \<and> continues 0x80 0xBF d \<and> utf8 es)"

definition from_utf8 :: "u8 list \<Rightarrow> u8 list option" where
  "from_utf8 bs = (if utf8 bs then Some bs else None)"

lemma utf8_ascii: "\<forall>b \<in> set bs. b < 0x80 \<Longrightarrow> utf8 bs"
  by (induction bs) simp_all

lemma from_utf8_ascii: "\<forall>b \<in> set bs. b < 0x80 \<Longrightarrow> from_utf8 bs = Some bs"
  by (simp add: from_utf8_def utf8_ascii)

section \<open>Numbers\<close>

definition digit_value :: "u8 \<Rightarrow> nat" where
  "digit_value b = unat b - 48"

definition digits_value :: "u8 list \<Rightarrow> nat" where
  "digits_value ds = foldl (\<lambda>n b. 10 * n + digit_value b) 0 ds"

text \<open>\<open>from_str\<close> of an unsigned type with \<open>limit\<close> values: an optional sign, at least one digit, no overflow.\<close>

definition parse_uint :: "nat \<Rightarrow> u8 list \<Rightarrow> nat option" where
  "parse_uint limit bs =
     (let ds = (case bs of [] \<Rightarrow> [] | b # r \<Rightarrow> if b = 43 then r else bs)
      in if ds \<noteq> [] \<and> list_all is_digit ds \<and> digits_value ds < limit then Some (digits_value ds) else None)"

definition parse_u64 :: "u8 list \<Rightarrow> u64 option" where
  "parse_u64 bs = map_option of_nat (parse_uint (2 ^ 64) bs)"

definition parse_u32 :: "u8 list \<Rightarrow> u32 option" where
  "parse_u32 bs = map_option of_nat (parse_uint (2 ^ 32) bs)"

text \<open>An unsigned integer in decimal, as \<open>Display\<close> writes it.\<close>

fun decimal :: "nat \<Rightarrow> u8 list" where
  "decimal n = (if n < 10 then [of_nat (48 + n)] else decimal (n div 10) @ [of_nat (48 + n mod 10)])"

declare decimal.simps [simp del]

lemma digit_less_10:
  assumes "d < 10"
  shows "is_digit (of_nat (48 + d))" and "digit_value (of_nat (48 + d)) = d"
    and "(of_nat (48 + d) :: u8) < 0x80"
proof -
  have u: "unat (of_nat (48 + d) :: u8) = 48 + d" using assms by (intro unat_of_nat_less) simp
  then show "is_digit (of_nat (48 + d))" "(of_nat (48 + d) :: u8) < 0x80"
    using assms by (simp_all add: is_digit_def word_le_nat_alt word_less_nat_alt del: of_nat_add)
  show "digit_value (of_nat (48 + d)) = d" using u by (simp add: digit_value_def del: of_nat_add)
qed

lemma digits_value_snoc: "digits_value (ds @ [b]) = 10 * digits_value ds + digit_value b"
  by (simp add: digits_value_def)

lemma decimal_facts:
  "list_all is_digit (decimal n) \<and> digits_value (decimal n) = n \<and> decimal n \<noteq> [] \<and> (\<forall>b \<in> set (decimal n). b < 0x80)"
proof (induction n rule: decimal.induct)
  case (1 n)
  show ?case
  proof (cases "n < 10")
    case True
    then show ?thesis using digit_less_10 [of n] by (simp add: decimal.simps [of n] digits_value_def)
  next
    case False
    have "n mod 10 < 10" by simp
    note d = digit_less_10 [OF this]
    show ?thesis
      using 1 [OF False] False d by (simp add: decimal.simps [of n] digits_value_snoc del: of_nat_add)
  qed
qed

lemma is_digit_not_sign: "is_digit b \<Longrightarrow> b \<noteq> 43"
  by (auto simp: is_digit_def)

lemma parse_uint_digits:
  assumes "list_all is_digit ds" and "ds \<noteq> []" and "digits_value ds < limit"
  shows "parse_uint limit ds = Some (digits_value ds)"
proof -
  have "(case ds of [] \<Rightarrow> [] | b # r \<Rightarrow> if b = 43 then r else ds) = ds"
    using assms(1) is_digit_not_sign by (cases ds) auto
  then show ?thesis using assms by (simp add: parse_uint_def)
qed

lemma parse_uint_decimal: "n < limit \<Longrightarrow> parse_uint limit (decimal n) = Some n"
  using parse_uint_digits [of "decimal n" limit] decimal_facts [of n] by simp

text \<open>Three digits, padded with zeros.\<close>

definition three_digits :: "nat \<Rightarrow> u8 list" where
  "three_digits m = [of_nat (48 + m div 100), of_nat (48 + m div 10 mod 10), of_nat (48 + m mod 10)]"

lemma three_digits_facts:
  assumes "m < 1000"
  shows "list_all is_digit (three_digits m)" and "digits_value (three_digits m) = m"
    and "\<forall>b \<in> set (three_digits m). b < 0x80" and "length (three_digits m) = 3"
proof -
  have "m div 100 < 10" and "m div 10 mod 10 < 10" and "m mod 10 < 10" using assms by auto
  note d = this [THEN digit_less_10(1)] this [THEN digit_less_10(2)] this [THEN digit_less_10(3)]
  show "list_all is_digit (three_digits m)" "\<forall>b \<in> set (three_digits m). b < 0x80" "length (three_digits m) = 3"
    using d by (simp_all add: three_digits_def del: of_nat_add)
  have "m div 100 = m div 10 div 10" by (simp add: div_mult2_eq [symmetric])
  then show "digits_value (three_digits m) = m"
    using d(4-6) by (simp add: three_digits_def digits_value_def del: of_nat_add)
qed

section \<open>Splitting into lines\<close>

lemma split_at_not_Nil [simp]: "split_at c bs \<noteq> []"
  by (induction bs) (auto split: list.splits)

lemma split_at_lines: "l \<in> set (split_at c bs) \<Longrightarrow> c \<notin> set l"
proof (induction bs arbitrary: l)
  case (Cons b bs)
  then show ?case by (auto split: if_splits list.splits)
qed simp

text \<open>A text of lines falls apart into these lines, and nothing after the last.\<close>

lemma split_at_line: "c \<notin> set l \<Longrightarrow> split_at c (l @ c # bs) = l # split_at c bs"
  by (induction l) (auto split: list.splits)

lemma split_at_concat:
  "\<forall>l \<in> set ls. c \<notin> set l \<Longrightarrow> split_at c (concat (map (\<lambda>l. l @ [c]) ls)) = ls @ [[]]"
  by (induction ls) (simp_all add: split_at_line)

section \<open>Padding\<close>

text \<open>
  Texts are padded to a number of characters on the left (\<open>{:>w}\<close>, and numbers) or on the right
  (\<open>{:w}\<close>); a character is a byte that does not continue another. How doubles are formatted, with a
  width and a number of decimals, is an argument of what prints them.
\<close>

definition char_count :: "u8 list \<Rightarrow> nat" where
  "char_count s = length (filter (\<lambda>b. b < 0x80 \<or> 0xC0 \<le> b) s)"

definition pad_left :: "nat \<Rightarrow> u8 list \<Rightarrow> u8 list" where
  "pad_left w s = replicate (w - char_count s) 32 @ s"

definition pad_right :: "nat \<Rightarrow> u8 list \<Rightarrow> u8 list" where
  "pad_right w s = s @ replicate (w - char_count s) 32"

type_synonym fmt_f64 = "nat \<Rightarrow> nat \<Rightarrow> f64 \<Rightarrow> u8 list"

lemma char_count_simps [simp]:
  "char_count [] = 0"
  "char_count (b # bs) = (if b < 0x80 \<or> 0xC0 \<le> b then Suc (char_count bs) else char_count bs)"
  "char_count (xs @ ys) = char_count xs + char_count ys"
  by (simp_all add: char_count_def)

lemma char_count_ascii: "\<forall>b \<in> set s. b < 0x80 \<Longrightarrow> char_count s = length s"
  by (induction s) auto

lemma char_count_pad [simp]:
  "char_count (pad_left w s) = max w (char_count s)"
  "char_count (pad_right w s) = max w (char_count s)"
  by (simp_all add: pad_left_def pad_right_def char_count_ascii)

end
