(* ===== verification/Chist_Text.thy ===== *)
theory Chist_Text
  imports Chist Text
begin

text \<open>
  What \<open>chist\<close> (\<open>src/tools/chist/src/main.rs\<close>) writes, as bytes: the lines of the summary, the table
  that \<open>print\<close> makes of its rows, the usage message and the exit status. How the calendar writes a time
  (\<open>Display\<close>, \<open>to_rfc3339\<close>, \<open>to_rfc3339_opts\<close> with milliseconds) and how doubles are formatted are
  arguments; a \<open>string\<close> holds the bytes of its text.
\<close>

section \<open>Lines\<close>

record 't time_texts =
  display_time :: "'t \<Rightarrow> u8 list"
  to_rfc3339 :: "'t \<Rightarrow> u8 list"
  to_rfc3339_millis :: "'t \<Rightarrow> u8 list"

definition decimal_int :: "int \<Rightarrow> u8 list" where
  "decimal_int i = (if i < 0 then ascii ''-'' @ decimal (nat (- i)) else decimal (nat i))"

fun joined :: "u8 list \<Rightarrow> u8 list list \<Rightarrow> u8 list" where
  "joined sep [] = []"
| "joined sep [x] = x"
| "joined sep (x # y # ys) = x @ sep @ joined sep (y # ys)"

text \<open>The format strings of the table: fields of fixed width with a space between them.\<close>

definition title_fields :: "u8 list list" where
  "title_fields =
     [pad_right 24 (ascii ''TIME''), pad_left 5 (ascii ''OPNAM''), pad_left 2 (ascii ''#''),
      pad_left 7 (ascii ''OPS/SEC''), pad_left 7 (ascii ''p50(ms)''), pad_left 7 (ascii ''p95(ms)''),
      pad_left 7 (ascii ''p99(ms)''), pad_left 7 (ascii ''pMax'')]"

definition row_fields :: "'t time_texts \<Rightarrow> fmt_f64 \<Rightarrow> 't row \<Rightarrow> u8 list list" where
  "row_fields tt fmt r =
     [pad_right 24 (to_rfc3339_millis tt (row_time r)), pad_left 5 (ascii (row_name r)),
      pad_left 2 (decimal (row_files r)), fmt 7 1 (throughput r), fmt 7 1 (p50 r), fmt 7 1 (p95 r),
      fmt 7 1 (p99 r), fmt 7 1 (pmax r)]"

fun summary_line_text :: "'t time_texts \<Rightarrow> 't summary_line \<Rightarrow> u8 list" where
  "summary_line_text tt (TotalRecords n) = ascii ''total records: '' @ decimal n"
| "summary_line_text tt (DistinctNames names) =
     ascii ''found distinct names: '' @ joined (ascii '', '') (List.map ascii names)"
| "summary_line_text tt (TimestampWarning n expected found) =
     ascii ''warning: record '' @ decimal n @ ascii '': expected timestamp '' @ display_time tt expected
     @ ascii '', found '' @ display_time tt found"
| "summary_line_text tt (NameWarning n expected found) =
     ascii ''warning: record '' @ decimal n @ ascii '': expected record with name \"'' @ ascii expected
     @ ascii ''\", found \"'' @ ascii found @ ascii ''\"''"
| "summary_line_text tt (InitialTimestamp t) = ascii ''initial timestamp: '' @ to_rfc3339 tt t"
| "summary_line_text tt (ExpectedTimestamps n) = ascii ''expected distinct timestamps:     '' @ decimal n"
| "summary_line_text tt (ExpectedInterval ms) =
     ascii ''expected time between timestamps: '' @ decimal_int ms @ ascii '' ms''"
| "summary_line_text tt (SecondTimestamp t ms) =
     ascii ''second  timestamp: '' @ to_rfc3339 tt t @ ascii '' ('' @ decimal_int ms @ ascii '' ms later)''"
| "summary_line_text tt (FinalTimestamp t ms) =
     ascii ''final   timestamp: '' @ to_rfc3339 tt t @ ascii '' ('' @ decimal_int ms @ ascii '' ms since start)''"

fun printed_text :: "'t time_texts \<Rightarrow> fmt_f64 \<Rightarrow> 't printed \<Rightarrow> u8 list" where
  "printed_text tt fmt (FileLine filename) = ascii ''file: '' @ ascii filename"
| "printed_text tt fmt (SummaryLine l) = summary_line_text tt l"
| "printed_text tt fmt BlankLine = []"
| "printed_text tt fmt TitleLine = joined [32] title_fields"
| "printed_text tt fmt (RowLine r) = joined [32] (row_fields tt fmt r)"

definition stdout_text :: "'t time_texts \<Rightarrow> fmt_f64 \<Rightarrow> 't printed list \<Rightarrow> u8 list" where
  "stdout_text tt fmt out = concat (List.map (\<lambda>l. l @ [10]) (List.map (printed_text tt fmt) out))"

section \<open>Messages and exit status\<close>

definition usage_message :: "u8 list" where
  "usage_message =
     joined [10]
       [ascii ''usage: chist summarize FILE...'', ascii ''       chist print FILE...'', [],
        ascii ''All input files are histogram files from `cockroachdb workload`.'']"

text \<open>
  The message of an error without its causes; what went wrong in reading a file is in its own message.
  A panic exits with 101, an error that \<open>main\<close> returns with 1.
\<close>

fun error_message :: "chist_error \<Rightarrow> u8 list" where
  "error_message (UnexpectedName l n expected found) =
     ascii l @ ascii '': record '' @ decimal n @ ascii '': expected name \"'' @ ascii expected
     @ ascii ''\", found \"'' @ ascii found @ ascii ''\"''"
| "error_message (LoadingHistogram e) = ascii ''loading histogram''"
| "error_message (AddingHistograms e) = ascii ''adding histograms''"
| "error_message (ReadFailed m) = ascii m"

primrec exit_status :: "exit_with \<Rightarrow> nat" where
  "exit_status Success = 0"
| "exit_status Usage = 2"
| "exit_status (Failure e) = 1"
| "exit_status Panicked = 101"

section \<open>The lines are lines, the table is a table\<close>

text \<open>What is printed reads line by line as it was printed, where no text of a line breaks it.\<close>

lemma stdout_lines:
  assumes "list_all (\<lambda>p. 10 \<notin> set (printed_text tt fmt p)) out"
  shows "split_at 10 (stdout_text tt fmt out) = List.map (printed_text tt fmt) out @ [[]]"
  unfolding stdout_text_def using assms by (intro split_at_concat) (auto simp: list_all_iff)

text \<open>
  The columns of the table: a row whose time, name and number of files fit their columns, with numbers
  that take seven characters, has every column where the title has it.
\<close>

definition widths :: "nat list" where
  "widths = [24, 5, 2, 7, 7, 7, 7, 7]"

definition row_fits :: "'t time_texts \<Rightarrow> fmt_f64 \<Rightarrow> 't row \<Rightarrow> bool" where
  "row_fits tt fmt r \<longleftrightarrow> char_count (to_rfc3339_millis tt (row_time r)) \<le> 24 \<and>
     char_count (ascii (row_name r)) \<le> 5 \<and> row_files r < 100 \<and>
     list_all (\<lambda>x. char_count (fmt 7 1 x) = 7) [throughput r, p50 r, p95 r, p99 r, pmax r]"

lemma title_widths: "List.map char_count title_fields = widths"
  by (simp add: title_fields_def widths_def)

lemma char_count_decimal: "n < 100 \<Longrightarrow> char_count (decimal n) \<le> 2"
proof -
  assume "n < 100"
  then have "n div 10 < 10" by simp
  then have "length (decimal n) \<le> 2" by (simp add: decimal.simps [of n] decimal.simps [of "n div 10"])
  moreover have "char_count (decimal n) \<le> length (decimal n)" by (simp add: char_count_def)
  ultimately show ?thesis by simp
qed

lemma row_widths: "row_fits tt fmt r \<Longrightarrow> List.map char_count (row_fields tt fmt r) = widths"
  using char_count_decimal [of "row_files r"] by (simp add: row_fits_def row_fields_def widths_def max_absorb1)

text \<open>Fields of the same widths begin at the same places.\<close>

lemma joined_append:
  "xs \<noteq> [] \<Longrightarrow> ys \<noteq> [] \<Longrightarrow> joined sep (xs @ ys) = joined sep xs @ sep @ joined sep ys"
proof (induction sep xs rule: joined.induct)
  case (2 sep x)
  then show ?case by (cases ys) simp_all
qed simp_all

lemma char_count_joined:
  "char_count (joined sep xs) = sum_list (List.map char_count xs) + (length xs - 1) * char_count sep"
  by (induction sep xs rule: joined.induct) simp_all

lemma columns_aligned:
  assumes "row_fits tt fmt r" and "0 < k" and "k < 8"
  obtains before after before' after' where
    "joined [32] title_fields = before @ [32] @ title_fields ! k @ after"
    and "joined [32] (row_fields tt fmt r) = before' @ [32] @ row_fields tt fmt r ! k @ after'"
    and "char_count before = char_count before'"
    and "char_count (title_fields ! k) = char_count (row_fields tt fmt r ! k)"
proof -
  have split: "\<exists>after. joined [32] fs = joined [32] (take k fs) @ [32] @ fs ! k @ after"
    if "length fs = 8" for fs :: "u8 list list"
  proof -
    have "fs = take k fs @ fs ! k # drop (Suc k) fs" using that assms(3) by (simp add: id_take_nth_drop)
    moreover have "\<exists>after. joined [32] (fs ! k # drop (Suc k) fs) = fs ! k @ after"
      by (cases "drop (Suc k) fs") auto
    ultimately show ?thesis
      using joined_append [of "take k fs" "fs ! k # drop (Suc k) fs" "[32]"] that assms(2) by fastforce
  qed
  have len: "length title_fields = 8" "length (row_fields tt fmt r) = 8"
    by (simp_all add: title_fields_def row_fields_def)
  have w: "List.map char_count title_fields = List.map char_count (row_fields tt fmt r)"
    by (simp add: title_widths row_widths [OF assms(1)])
  then have "List.map char_count (take k title_fields) = List.map char_count (take k (row_fields tt fmt r))"
    by (simp flip: take_map)
  then have "char_count (joined [32] (take k title_fields)) = char_count (joined [32] (take k (row_fields tt fmt r)))"
    by (simp add: char_count_joined len)
  moreover have "char_count (title_fields ! k) = char_count (row_fields tt fmt r ! k)"
    using arg_cong [OF w, of "\<lambda>xs. xs ! k"] len assms(3) by simp
  ultimately show thesis using split [OF len(1)] split [OF len(2)] that by metis
qed

section \<open>Reading the files, and the program\<close>

text \<open>
  A file is opened and its records are deserialized one after the other, up to the first that fails.
  Opening a file and the JSON reader are arguments; an item that is not a record is \<open>None\<close>.
\<close>

definition read_hist_file ::
  "(string \<Rightarrow> 'f option) \<Rightarrow> ('f \<Rightarrow> 't hist_record option list) \<Rightarrow> string
    \<Rightarrow> (chist_error, 't hist_record list) res" where
  "read_hist_file open_file json_items filename =
     (case open_file filename of
        None \<Rightarrow> Err (ReadFailed (''open \"'' @ filename @ ''\"''))
      | Some reader \<Rightarrow>
          (case those (json_items reader) of
             None \<Rightarrow> Err (ReadFailed ''deserializing records'')
           | Some recs \<Rightarrow> Ok recs))"

lemma those_map_Some [simp]: "those (List.map Some xs) = Some xs"
  by (induction xs) simp_all

text \<open>The program: what it writes to its output, and its exit status.\<close>

definition chist ::
  "'t::linorder time_texts \<Rightarrow> fmt_f64 \<Rightarrow> (string \<Rightarrow> 'f option) \<Rightarrow> ('f \<Rightarrow> 't hist_record option list)
    \<Rightarrow> ('t \<Rightarrow> 't \<Rightarrow> int) \<Rightarrow> ('t \<Rightarrow> int \<Rightarrow> 't option) \<Rightarrow> string list \<Rightarrow> u8 list \<times> nat" where
  "chist tt fmt open_file json_items ms add_ns argv =
     (case main (read_hist_file open_file json_items) ms add_ns argv of
        (out, e) \<Rightarrow> (stdout_text tt fmt out, exit_status e))"

text \<open>No line of the table breaks.\<close>

lemma decimal_no_newline: "10 \<notin> set (decimal n)"
  using decimal_facts(1) [of n] by (auto simp: list_all_iff is_digit_def)

lemma pad_no_newline: "10 \<notin> set s \<Longrightarrow> 10 \<notin> set (pad_left w s)" "10 \<notin> set s \<Longrightarrow> 10 \<notin> set (pad_right w s)"
  by (auto simp: pad_left_def pad_right_def)

lemma joined_no_newline: "10 \<notin> set sep \<Longrightarrow> \<forall>x \<in> set xs. 10 \<notin> set x \<Longrightarrow> 10 \<notin> set (joined sep xs)"
  by (induction sep xs rule: joined.induct) auto

lemma title_no_newline: "10 \<notin> set (joined [32] title_fields)"
  by (rule joined_no_newline) (simp_all add: title_fields_def pad_no_newline)

lemma row_no_newline:
  assumes "10 \<notin> set (to_rfc3339_millis tt (row_time r))" and "10 \<notin> set (ascii (row_name r))"
    and "\<forall>x. 10 \<notin> set (fmt 7 1 x)"
  shows "10 \<notin> set (joined [32] (row_fields tt fmt r))"
  using assms by (intro joined_no_newline) (simp_all add: row_fields_def pad_no_newline decimal_no_newline)

section \<open>Properties\<close>


definition two_files_open :: "string \<Rightarrow> int hist_record list option" where
  "two_files_open f = Some (if f = ''a'' then [a_record ''read'' 0, a_record ''read'' 1000] else [a_record ''read'' 3])"

definition plain_times :: "int time_texts" where
  "plain_times = \<lparr>display_time = decimal_int, to_rfc3339 = decimal_int,
     to_rfc3339_millis = (\<lambda>t. ascii ''2020-10-01T12:34:56.789Z'')\<rparr>"

definition plain_doubles :: fmt_f64 where
  "plain_doubles w p x = pad_left w (ascii ''0.0'')"

text \<open>An instance of the addition of times that, as chrono's, is not defined beyond a last time.\<close>

definition add_ns_bounded :: "int \<Rightarrow> int \<Rightarrow> int option" where
  "add_ns_bounded t n = (if t + n div 1000000 < 253402300800000 then Some (t + n div 1000000) else None)"


end
