(* ===== verification/Ticks.thy ===== *)
theory Ticks
  imports Iterators
begin

unbundle bit_operations_syntax

text \<open>
  The iterator by quantile ticks (\<open>iterators/quantile.rs\<close>). The logarithm is an argument: what is
  relied on is that it is exact to the integer below, on the doubles it is called with
  (\<open>log2_documented\<close>).
\<close>

section \<open>The picker\<close>

record 'c quantile_iter =
  q_hist :: "'c histogram"
  ticks_per_half_distance :: u32
  quantile_to_iterate_to :: f64
  reached_end :: bool

definition quantile_new :: "'c::len word histogram \<Rightarrow> u32 \<Rightarrow> (unit, 'c word quantile_iter) res" where
  "quantile_new h ticks =
     bind_res (assert_that (ticks > 0)) (\<lambda>_.
       Ok \<lparr>q_hist = h, ticks_per_half_distance = ticks, quantile_to_iterate_to = Fin 0, reached_end = False\<rparr>)"

text \<open>The cast truncates and saturates; the checked operations are those of \<open>u64\<close>.\<close>

fun f64_as_u32 :: "f64 \<Rightarrow> u32" where
  "f64_as_u32 (Fin x) = (if x < 1 then 0 else if 4294967295 \<le> x then - 1 else of_nat (nat \<lfloor>x\<rfloor>))"
| "f64_as_u32 PosInf = - 1"
| "f64_as_u32 NegInf = 0"
| "f64_as_u32 NaN = 0"

definition checked_shl :: "u64 \<Rightarrow> u32 \<Rightarrow> u64 option" where
  "checked_shl x k = (if unat k < 64 then Some (push_bit (unat k) x) else None)"

definition checked_mul :: "u64 \<Rightarrow> u64 \<Rightarrow> u64 option" where
  "checked_mul x y = (if unat x * unat y < 2 ^ 64 then Some (x * y) else None)"

definition quantile_pick :: "(f64 \<Rightarrow> f64) \<Rightarrow> ('c::len, 'c word quantile_iter) pick_fn" where
  "quantile_pick log2 p index running_total count =
     (if count = 0 then Ok (p, None)
      else let current_quantile = f64_div (u64_as_f64 running_total) (u64_as_f64 (len (q_hist p)))
      in if f64_lt current_quantile (quantile_to_iterate_to p) then Ok (p, None)
      else if reached_end p then Ok (p, None)
      else if f64_eq (quantile_to_iterate_to p) (Fin 1)
      then Ok (p\<lparr>reached_end := True\<rparr>, Some (pick_metadata_new (Some (Fin 1)) None))
      else let num_halvings = f64_as_u32 (log2 (f64_div (Fin 1) (f64_sub (Fin 1) (quantile_to_iterate_to p))))
      in bind_res (expect (checked_shl 1 (num_halvings + 1))) (\<lambda>slices.
         bind_res (expect (checked_mul (ucast (ticks_per_half_distance p)) slices)) (\<lambda>total_ticks.
           let increment_size = f64_div (Fin 1) (u64_as_f64 total_ticks);
               metadata = pick_metadata_new (Some (quantile_to_iterate_to p)) None;
               sum = f64_add (quantile_to_iterate_to p) increment_size
           in Ok (p\<lparr>quantile_to_iterate_to :=
                      (if f64_eq sum (quantile_to_iterate_to p) then Fin 1 else sum)\<rparr>, Some metadata))))"

definition quantile_more :: "'c quantile_iter more_fn" where
  "quantile_more p index =
     (if reached_end p then Ok (p, False) else Ok (p\<lparr>quantile_to_iterate_to := Fin 1\<rparr>, True))"

definition iter_quantiles ::
  "(f64 \<Rightarrow> f64) \<Rightarrow> 'c::len word histogram \<Rightarrow> u32 \<Rightarrow> (unit, 'c word iteration_value list) res option" where
  "iter_quantiles log2 h ticks =
     (case bind_res (quantile_new h ticks) (iterator_new h) of
        Ok it \<Rightarrow> iterator_collect (quantile_pick log2) quantile_more it []
      | Err e \<Rightarrow> Some (Err e)
      | Panic \<Rightarrow> Some Panic)"

section \<open>Doubles between 0 and 1\<close>

text \<open>The doubles that are not tiny: rounding leaves them alone.\<close>

definition double :: "rat \<Rightarrow> bool" where
  "double x \<longleftrightarrow> x = 0 \<or> 2 powi (- 100) \<le> x \<and> x < 2 ^ 100 \<and> round_val x = x"

lemma round_val_power_bounds:
  assumes "0 < x" and "- 1000 \<le> e"
  shows "2 powi e \<le> x \<Longrightarrow> 2 powi e \<le> round_val x" and "x \<le> 2 powi e \<Longrightarrow> round_val x \<le> 2 powi e"
proof -
  assume "2 powi e \<le> x"
  then have "e \<le> flog2 x" using flog2_bounds(2) [OF assms(1)] powi_less_imp_less [of e "flog2 x + 1"] by simp
  then have "(2::rat) powi e \<le> 2 powi flog2 x" by (intro power_int_increasing) simp_all
  also have "\<dots> \<le> round_val x"
    using flog2_bounds(1) [OF assms(1)] \<open>e \<le> flog2 x\<close> assms by (intro round_val_ge) simp_all
  finally show "2 powi e \<le> round_val x" .
next
  assume le: "x \<le> 2 powi e"
  then have "2 powi flog2 x \<le> (2::rat) powi e" using flog2_bounds(1) [OF assms(1)] by simp
  then have "flog2 x < e + 1"
    using power_int_strict_increasing [of e "e + 1" "2::rat"] by (intro powi_less_imp_less) simp
  then show "round_val x \<le> 2 powi e" using le assms by (intro round_val_le) simp_all
qed

lemma round_val_multiple_of:
  assumes "0 < x" and "- 1000 \<le> flog2 x"
  shows "round_val (round_val x) = round_val x"
proof -
  let ?f = "flog2 x" and ?s = "round_val x"
  have b: "2 powi ?f \<le> ?s" "?s \<le> 2 powi (?f + 1)"
    using round_val_power_bounds [OF assms] round_val_power_bounds(2) [OF assms(1), of "?f + 1"] flog2_bounds [OF assms(1)] assms(2)
    by simp_all
  have s: "0 < ?s" using b(1) by (rule less_le_trans [rotated]) simp
  have q: "quantum x = 2 powi (?f - 52)" using assms(2) by (simp add: quantum_def max_def)
  show ?thesis
  proof (cases "?s = 2 powi (?f + 1)")
    case True
    have "flog2 ?s = ?f + 1" by (rule flog2_eqI [OF s]) (simp_all add: True power_int_strict_increasing)
    then have qs: "quantum ?s = 2 powi (?f - 51)" using assms(2) by (simp add: quantum_def max_def)
    have "(2::rat) powi (?f + 1) = 2 powi 52 * 2 powi (?f - 51)"
      by (subst power_int_add [symmetric]) (simp_all add: add.commute)
    then have "?s = of_int (2 ^ 52) * quantum ?s" unfolding qs using True by simp
    then show ?thesis by (rule round_val_multiple)
  next
    case False
    then have "flog2 ?s = ?f" using b by (intro flog2_eqI [OF s]) simp_all
    then have "quantum ?s = quantum x" by (simp only: quantum_def)
    then have "?s = of_int (rne_rat (x / quantum x)) * quantum ?s" by (simp add: round_val_def)
    then show ?thesis by (rule round_val_multiple)
  qed
qed


text \<open>Rounding of what is neither tiny nor huge: a double, near by, on the same side of every double.\<close>

definition rounds :: "rat \<Rightarrow> rat \<Rightarrow> bool" where
  "rounds x y \<longleftrightarrow> f64_round x = Fin y \<and> double y \<and> 0 < y \<and>
     (\<forall>z. double z \<longrightarrow> (z \<le> x \<longrightarrow> z \<le> y) \<and> (x \<le> z \<longrightarrow> y \<le> z)) \<and>
     (\<forall>e \<ge> - 1000. (2 powi e \<le> x \<longrightarrow> 2 powi e \<le> y) \<and> (x \<le> 2 powi e \<longrightarrow> y \<le> 2 powi e))"

lemma roundsD:
  assumes "rounds x y"
  shows "f64_round x = Fin y" and "double y" and "0 < y"
    and "double z \<Longrightarrow> z \<le> x \<Longrightarrow> z \<le> y" and "double z \<Longrightarrow> x \<le> z \<Longrightarrow> y \<le> z"
    and "- 1000 \<le> e \<Longrightarrow> 2 powi e \<le> x \<Longrightarrow> 2 powi e \<le> y" and "- 1000 \<le> e \<Longrightarrow> x \<le> 2 powi e \<Longrightarrow> y \<le> 2 powi e"
  using assms unfolding rounds_def by blast+

lemma rounds_exists:
  assumes "2 powi (- 100) \<le> x" and "x < 2 ^ 99"
  shows "\<exists>y. rounds x y"
proof -
  have x: "0 < x" using assms(1) by (rule less_le_trans [rotated]) simp
  note b = round_val_power_bounds [OF x]
  have low: "2 powi (- 100) \<le> round_val x" using b(1) [of "- 100"] assms(1) by simp
  have up: "round_val x \<le> 2 powi 99" using b(2) [of 99] assms(2) by simp
  have "(2::rat) powi 99 < 2 ^ 100" "(2::rat) ^ 100 < 2 ^ 1024" by simp_all
  then have fin: "f64_round x = Fin (round_val x)" and less: "round_val x < 2 ^ 100"
    using up by (simp_all add: f64_round_pos [OF x])
  have "- 100 < flog2 x + 1"
    using flog2_bounds(2) [OF x] assms(1) powi_less_imp_less [of "- 100" "flog2 x + 1"] by simp
  then have "round_val (round_val x) = round_val x" by (intro round_val_multiple_of [OF x]) simp
  then have d: "double (round_val x)" using low less by (simp add: double_def)
  have pos: "0 < round_val x" using low by (rule less_le_trans [rotated]) simp
  have "z \<le> round_val x" if "double z" "z \<le> x" for z
  proof (cases "z = 0")
    case False
    then have "0 < z" using that(1) unfolding double_def by (auto intro: less_le_trans [rotated])
    from round_val_mono [OF this that(2)] that(1) False show ?thesis by (simp add: double_def)
  qed (use pos in simp)
  moreover have "round_val x \<le> z" if "double z" "x \<le> z" for z
    using round_val_mono [OF x that(2)] that x by (auto simp: double_def)
  ultimately show ?thesis using fin d pos b unfolding rounds_def by blast
qed

lemma double_1: "double 1"
proof -
  have "round_val 1 = 1" using round_val_power_bounds [of 1 0] by simp
  then show ?thesis by (simp add: double_def)
qed

lemma double_0: "double 0"
  by (simp add: double_def)

text \<open>A double below 1 is at least an ulp below it.\<close>

lemma double_below_1:
  assumes "double y" and "y < 1"
  shows "2 powi (- 53) \<le> 1 - y"
proof (cases "1 / 2 \<le> y")
  case True
  then have "0 < y" by simp
  have "flog2 y = - 1" using True assms(2) by (intro flog2_eqI [OF \<open>0 < y\<close>]) (simp_all add: power_int_def)
  then have "quantum y = 2 powi (- 53)" by (simp add: quantum_def)
  moreover have "y = of_int (rne_rat (y / quantum y)) * quantum y"
    using assms(1) \<open>0 < y\<close> by (simp add: double_def round_val_def)
  ultimately obtain n where n: "y = of_int n * 2 powi (- 53)" by metis
  have one: "(1::rat) = of_int (2 ^ 53) * 2 powi (- 53)" by (simp add: power_int_def power_divide)
  have "of_int n * 2 powi (- 53) < (of_int (2 ^ 53) * 2 powi (- 53) :: rat)" using n one assms(2) by simp
  then have "of_int n < (of_int (2 ^ 53) :: rat)" by (rule mult_right_less_imp_less) simp
  then have "n + 1 \<le> 2 ^ 53" by linarith
  then have "of_int (n + 1) \<le> (of_int (2 ^ 53) :: rat)" by (simp only: of_int_le_iff)
  then have "of_int (n + 1) * 2 powi (- 53) \<le> (of_int (2 ^ 53) * 2 powi (- 53) :: rat)" by (rule mult_right_mono) simp
  then show ?thesis using n one by (simp add: algebra_simps)
next
  case False
  have "(2::rat) powi (- 53) \<le> 1 / 2" by (simp add: power_int_def power_divide)
  then show ?thesis using False by simp
qed


section \<open>The logarithm\<close>

text \<open>\<open>log2\<close> does not fall below the integer part, nor rise above the next power of two.\<close>

definition log2_documented :: "(f64 \<Rightarrow> f64) \<Rightarrow> bool" where
  "log2_documented log2 \<longleftrightarrow>
     (\<forall>x. 1 \<le> x \<and> x \<le> 2 ^ 53 \<longrightarrow>
        (\<exists>l. log2 (Fin x) = Fin l \<and> 0 \<le> l \<and> l \<le> 53 \<and> x < 2 ^ (nat \<lfloor>l\<rfloor> + 1)))"

lemma f64_as_u32_small:
  assumes "0 \<le> l" and "l \<le> 53"
  shows "unat (f64_as_u32 (Fin l)) = nat \<lfloor>l\<rfloor>" and "nat \<lfloor>l\<rfloor> \<le> 53"
proof -
  show k: "nat \<lfloor>l\<rfloor> \<le> 53" using assms(2) by (simp add: nat_le_iff floor_le_iff)
  show "unat (f64_as_u32 (Fin l)) = nat \<lfloor>l\<rfloor>"
  proof (cases "l < 1")
    case True
    then have "\<lfloor>l\<rfloor> = 0" using assms(1) by (simp add: floor_eq_iff)
    then show ?thesis using True by simp
  next
    case False
    have "unat (of_nat (nat \<lfloor>l\<rfloor>) :: u32) = nat \<lfloor>l\<rfloor>" using k by (intro unat_of_nat_less) simp
    then show ?thesis using False assms(2) by simp
  qed
qed

lemma power_inverse:
  fixes x :: rat
  assumes "0 < x"
  shows "2 powi e \<le> x \<Longrightarrow> 1 / x \<le> 2 powi (- e)" and "x \<le> 2 powi e \<Longrightarrow> 2 powi (- e) \<le> 1 / x"
  using assms by (simp_all add: power_int_minus field_simps)

text \<open>How many halves of the distance to 1 lie before a quantile.\<close>

lemma num_halvings:
  assumes "log2_documented log2" and "double y" and "0 \<le> y" and "y < 1"
  obtains n where "unat (f64_as_u32 (log2 (f64_div (Fin 1) (f64_sub (Fin 1) (Fin y))))) = n" and "n \<le> 53"
    and "2 powi (- (int n + 1)) \<le> 1 - y"
proof -
  have low: "2 powi (- 53) \<le> 1 - y" by (rule double_below_1 [OF assms(2,4)])
  have "(2::rat) powi (- 100) \<le> 2 powi (- 53)" by (intro power_int_increasing) simp_all
  then have a: "2 powi (- 100) \<le> 1 - y" "1 - y < 2 ^ 99" using low assms(3) by (auto intro: order_trans)
  obtain d where "rounds (1 - y) d" using rounds_exists [OF a] by blast
  note d = roundsD [OF this]
  have d1: "2 powi (- 53) \<le> d" "d \<le> 1" using d(6) [where e = "- 53"] d(7) [where e = 0] low assms(3) by simp_all
  have x: "1 \<le> 1 / d" "1 / d \<le> 2 powi 53"
    using d1 d(3) by (simp_all add: power_int_minus field_simps)
  have "(2::rat) powi (- 100) \<le> 2 powi 0" by (intro power_int_increasing) simp_all
  then have "(2::rat) powi (- 100) \<le> 1" by simp
  moreover have "(2::rat) powi 53 < 2 ^ 99" by simp
  ultimately have b: "2 powi (- 100) \<le> 1 / d" "1 / d < 2 ^ 99" using x by (auto intro: order_trans le_less_trans)
  obtain X where "rounds (1 / d) X" using rounds_exists [OF b] by blast
  note X = roundsD [OF this]
  have "1 \<le> X" "X \<le> 2 ^ 53" using X(6) [where e = 0] X(7) [where e = 53] x by simp_all
  then obtain l where l: "log2 (Fin X) = Fin l" "0 \<le> l" "l \<le> 53" "X < 2 ^ (nat \<lfloor>l\<rfloor> + 1)"
    using assms(1) by (auto simp: log2_documented_def)
  define n where "n = nat \<lfloor>l\<rfloor>"
  note n = f64_as_u32_small [OF l(2,3), folded n_def]
  have gap: "2 powi (- (int n + 1)) \<le> 1 - y"
  proof (rule ccontr)
    assume "\<not> ?thesis"
    moreover have "- 1000 \<le> - (int n + 1)" using n(2) by linarith
    ultimately have "d \<le> 2 powi (- (int n + 1))" by (intro d(7)) simp_all
    from power_inverse(2) [OF d(3) this] have "2 powi (int n + 1) \<le> 1 / d" by (simp only: minus_minus)
    then have "2 powi (int n + 1) \<le> X" by (intro X(6)) simp_all
    moreover have "(2::rat) powi (int n + 1) = 2 ^ (n + 1)" by (metis of_nat_1 of_nat_add power_int_of_nat)
    ultimately show False using l(4) by (simp add: n_def)
  qed
  have "f64_div (Fin 1) (f64_sub (Fin 1) (Fin y)) = Fin X"
    using d(1,3) X(1) by (simp add: f64_sub_def)
  then show thesis using n gap l(1) by (intro that [of n]) simp_all
qed


section \<open>One tick\<close>

lemma total_ticks:
  assumes "unat (ticks :: u32) < 1024" and "0 < ticks" and "unat (k :: u32) = n" and "n \<le> 53"
  obtains slices total where "checked_shl 1 (k + 1) = Some slices"
    and "checked_mul (ucast ticks) slices = Some total" and "2 ^ (n + 1) \<le> unat total"
proof -
  let ?slices = "push_bit (n + 1) (1 :: u64)"
  have k: "unat (k + 1) = n + 1" using assms(3,4) by (subst unat_add_nat) simp_all
  have less: "(2::nat) ^ (n + 1) \<le> 2 ^ 54" using assms(4) by (intro power_increasing) simp_all
  then have u: "unat ?slices = 2 ^ (n + 1)" by (subst unat_push_bit) simp
  have t: "unat (ucast ticks :: u64) = unat ticks" using assms(1) by (intro unat_ucast_nat) simp
  have "unat ticks * 2 ^ (n + 1) \<le> 1023 * 2 ^ 54" using assms(1) less by (intro mult_le_mono) simp_all
  then have m: "unat ticks * 2 ^ (n + 1) < 2 ^ 64" by simp
  have "unat (ucast ticks * ?slices) = unat ticks * 2 ^ (n + 1)"
    using m by (simp only: unat_word_ariths t u) simp
  moreover have "1 \<le> unat ticks" using assms(2) by (simp add: word_less_nat_alt Suc_le_eq)
  then have "1 * 2 ^ (n + 1) \<le> unat ticks * 2 ^ (n + 1)" by (rule mult_le_mono1)
  ultimately show thesis
    using k m assms(4) t u
    by (intro that [of ?slices "ucast ticks * ?slices"]) (simp_all add: checked_shl_def checked_mul_def del: push_bit_Suc)
qed

lemma next_tick:
  assumes "log2_documented log2" and "double y" and "0 \<le> y" and "y < 1"
    and "0 < ticks_per_half_distance p" and "unat (ticks_per_half_distance p) < 1024"
    and "quantile_to_iterate_to p = Fin y" and "\<not> reached_end p" and "c \<noteq> 0"
    and "\<not> f64_lt (f64_div (u64_as_f64 r) (u64_as_f64 (len (q_hist p)))) (Fin y)"
  obtains s where "quantile_pick log2 p i r c = Ok (p\<lparr>quantile_to_iterate_to := Fin s\<rparr>, Some (pick_metadata_new (Some (Fin y)) None))"
    and "double s" and "y < s" and "s \<le> 1"
proof -
  let ?k = "f64_as_u32 (log2 (f64_div (Fin 1) (f64_sub (Fin 1) (Fin y))))"
  obtain n where n: "unat ?k = n" "n \<le> 53" "2 powi (- (int n + 1)) \<le> 1 - y"
    by (rule num_halvings [OF assms(1-4)])
  obtain slices total where t: "checked_shl 1 (?k + 1) = Some slices"
    "checked_mul (ucast (ticks_per_half_distance p)) slices = Some total" "2 ^ (n + 1) \<le> unat total"
    by (rule total_ticks [OF assms(6,5) n(1,2)])
  let ?T = "of_nat (nat_as_f64 (unat total)) :: rat"
  have "n + 1 \<le> bit_len (unat total) - 1" using t(3) less_bit_len_iff [of "n + 1" "unat total"] by simp
  then have "2 ^ (n + 1) \<le> nat_as_f64 (unat total)" using t(3) by (intro nat_as_f64_ge)
  then have "of_nat (2 ^ (n + 1)) \<le> ?T" by (simp only: of_nat_le_iff)
  then have T1: "2 powi (int n + 1) \<le> ?T" by (metis of_nat_1 of_nat_add of_nat_numeral of_nat_power power_int_of_nat)
  have "nat_as_f64 (unat total) \<le> 2 ^ 64" using unat_u64_less [of total] by (intro nat_as_f64_le) simp
  then have T2: "?T \<le> 2 powi 64" by (metis of_nat_le_iff of_nat_numeral of_nat_power power_int_numeral)
  have pos: "0 < ?T" using T1 by (rule less_le_trans [rotated]) simp
  have inc: "2 powi (- 64) \<le> 1 / ?T" "1 / ?T \<le> 2 powi (- (int n + 1))"
    using power_inverse [OF pos] T1 T2 by blast+
  have "(2::rat) powi (- 100) \<le> 2 powi (- 64)" "(2::rat) powi (- (int n + 1)) \<le> 2 powi 0" by (intro power_int_increasing; simp)+
  then have a: "2 powi (- 100) \<le> 1 / ?T" "1 / ?T \<le> 1" using inc by (simp_all only: power_int_0_right)
  have "1 / ?T < 2 ^ 99" using a(2) by (rule le_less_trans) simp
  with a(1) obtain i' where "rounds (1 / ?T) i'" using rounds_exists by blast
  note inc' = roundsD [OF this]
  have i1: "2 powi (- 64) \<le> i'" "i' \<le> 2 powi (- (int n + 1))"
    using inc'(6) [where e = "- 64"] inc'(7) [where e = "- (int n + 1)"] inc n(2) by simp_all
  have "(2::rat) powi (- 100) \<le> 2 powi (- 64)" by (intro power_int_increasing) simp_all
  then have sum: "2 powi (- 100) \<le> y + i'" "y + i' \<le> 1" using i1 n(3) assms(3) by linarith+
  then have "y + i' < 2 ^ 99" by simp
  then obtain s where "rounds (y + i') s" using rounds_exists [OF sum(1)] by blast
  note s = roundsD [OF this]
  have s1: "y \<le> s" "s \<le> 1" using s(4) [OF assms(2)] s(5) [OF double_1] sum(2) inc'(3) by simp_all
  let ?s = "if s = y then 1 else s"
  show thesis
  proof (rule that [of ?s])
    show "double ?s" using s(2) double_1 by simp
    show "y < ?s" "?s \<le> 1" using s1 assms(4) by auto
    have "f64_add (Fin y) (f64_div (Fin 1) (u64_as_f64 total)) = Fin s"
      using pos inc'(1) s(1) by (simp add: u64_as_f64_def)
    then show "quantile_pick log2 p i r c = Ok (p\<lparr>quantile_to_iterate_to := Fin ?s\<rparr>, Some (pick_metadata_new (Some (Fin y)) None))"
      using assms(4,8-10) t(1,2) unfolding quantile_pick_def assms(7)
      by (simp add: Let_def del: f64_add.simps f64_div.simps)
  qed
qed


text \<open>Doubles lie on a grid, so there are finitely many ticks.\<close>

lemma double_grid:
  assumes "double y"
  shows "\<exists>n. y = of_int n * 2 powi (- 152)"
proof (cases "y = 0")
  case True
  then show ?thesis by (intro exI [of _ 0]) simp
next
  case False
  then have y: "2 powi (- 100) \<le> y" "round_val y = y" using assms by (auto simp: double_def)
  then have pos: "0 < y" by (auto intro: less_le_trans [rotated])
  have f: "- 100 \<le> flog2 y"
    using y(1) flog2_bounds(2) [OF pos] powi_less_imp_less [of "- 100" "flog2 y + 1"] by simp
  let ?k = "nat (flog2 y + 100)"
  have "quantum y = 2 powi (int ?k + (- 152))" using f by (simp add: quantum_def max_def)
  also have "\<dots> = 2 powi int ?k * 2 powi (- 152)" by (rule power_int_add) simp
  also have "2 powi int ?k = (of_int (2 ^ ?k) :: rat)" unfolding power_int_of_nat by simp
  finally have q: "quantum y = of_int (2 ^ ?k) * 2 powi (- 152)" .
  have "y = of_int (rne_rat (y / quantum y)) * quantum y" using y(2) by (simp add: round_val_def)
  also have "\<dots> = of_int (rne_rat (y / quantum y) * 2 ^ ?k) * 2 powi (- 152)"
    by (subst (2) q) simp
  finally show ?thesis by blast
qed

definition ticks_left :: "rat \<Rightarrow> nat" where
  "ticks_left y = nat \<lfloor>(1 - y) * 2 ^ 152\<rfloor>"

lemma ticks_left_less:
  assumes "double y" and "double s" and "y < s" and "s \<le> 1"
  shows "ticks_left s < ticks_left y"
proof -
  obtain n k where n: "y = of_int n * 2 powi (- 152)" and k: "s = of_int k * 2 powi (- 152)"
    using double_grid assms(1,2) by metis
  have e: "(1 - of_int j * 2 powi (- 152)) * 2 ^ 152 = (of_int (2 ^ 152 - j) :: rat)" for j
    by (simp add: power_int_def field_simps power_divide)
  have "of_int n * 2 powi (- 152) < (of_int k * 2 powi (- 152) :: rat)" using assms(3) n k by simp
  then have "of_int n < (of_int k :: rat)" by (rule mult_right_less_imp_less) simp
  then have "n < k" by simp
  have "of_int k * 2 powi (- 152) * 2 ^ 152 \<le> (1 * 2 ^ 152 :: rat)" using assms(4) k by (intro mult_right_mono) simp_all
  then have "of_int k \<le> (of_int (2 ^ 152) :: rat)" by (simp add: power_int_def power_divide)
  then have "k \<le> 2 ^ 152" by (simp only: of_int_le_iff)
  with \<open>n < k\<close> show ?thesis unfolding ticks_left_def n k e floor_of_int by simp
qed

section \<open>Rounds of the iteration\<close>

lemma collect_round:
  assumes "\<not> ended it"
  shows "iterator_round pick more_of it = Ok (Inl it') \<Longrightarrow> iterator_collect pick more_of it acc = iterator_collect pick more_of it' acc"
    and "iterator_round pick more_of it = Ok (Inr (it', Some v)) \<Longrightarrow> iterator_collect pick more_of it acc = iterator_collect pick more_of it' (v # acc)"
    and "iterator_round pick more_of it = Ok (Inr (it', None)) \<Longrightarrow> iterator_collect pick more_of it acc = Some (Ok (rev acc))"
proof -
  assume "iterator_round pick more_of it = Ok (Inl it')"
  then have "iterator_next pick more_of it = iterator_next pick more_of it'"
    using assms by (subst iterator_next.simps) simp
  then show "iterator_collect pick more_of it acc = iterator_collect pick more_of it' acc"
    by (subst (1 2) iterator_collect.simps) simp
next
  assume "iterator_round pick more_of it = Ok (Inr (it', Some v))"
  then have "iterator_next pick more_of it = Some (Ok (it', Some v))"
    using assms by (subst iterator_next.simps) simp
  then show "iterator_collect pick more_of it acc = iterator_collect pick more_of it' (v # acc)"
    by (subst iterator_collect.simps) simp
next
  assume "iterator_round pick more_of it = Ok (Inr (it', None))"
  then have "iterator_next pick more_of it = Some (Ok (it', None))"
    using assms by (subst iterator_next.simps) simp
  then show "iterator_collect pick more_of it acc = Some (Ok (rev acc))"
    by (subst iterator_collect.simps) simp
qed

text \<open>An iterator whose index has been counted, and what one round makes of it.\<close>

definition counted ::
  "'c::len word histogram \<Rightarrow> nat \<Rightarrow> nat \<Rightarrow> nat \<Rightarrow> 'p \<Rightarrow> ('c word, 'p) histogram_iterator \<Rightarrow> bool" where
  "counted h m lp i p it \<longleftrightarrow> hist it = h \<and> max_value_index it = m \<and> \<not> ended it \<and> current_index it = i \<and>
     last_picked_index it = lp \<and> picker it = p \<and> \<not> fresh_index it \<and>
     total_count_to_index it = running h (Suc i) \<and> count_at_idx it = counts h ! i"

definition uncounted ::
  "'c::len word histogram \<Rightarrow> nat \<Rightarrow> nat \<Rightarrow> nat \<Rightarrow> 'p \<Rightarrow> ('c word, 'p) histogram_iterator \<Rightarrow> bool" where
  "uncounted h m lp i p it \<longleftrightarrow> hist it = h \<and> max_value_index it = m \<and> \<not> ended it \<and> current_index it = i \<and>
     last_picked_index it = lp \<and> picker it = p \<and> fresh_index it \<and> total_count_to_index it = running h i"

lemma take_counted:
  fixes h :: "'c::len word histogram"
  assumes "counted h m lp i p it \<or> uncounted h m lp i p it" and "lp < m" and "i < length (counts h)" and "LENGTH('c) \<le> 64"
  shows "\<exists>it'. take_index more_of it = Ok (it', True) \<and> counted h m lp i p it'"
  using assms(1)
proof
  assume "counted h m lp i p it"
  then show ?thesis using assms(2,3) by (auto simp: counted_def take_index_def distinct_values_def)
next
  assume "uncounted h m lp i p it"
  then show ?thesis
    using assms(2,3) running_Suc [OF assms(4,3)]
    by (auto simp: counted_def uncounted_def take_index_def distinct_values_def count_at_index_def)
qed

lemma pick_counted:
  fixes h :: "'c::len word histogram"
  assumes "counted h m lp i p it" and "i < length (counts h)" and "bins_ok h"
  shows "pick p i (running h (Suc i)) (counts h ! i) = Ok (p', None)
      \<Longrightarrow> \<exists>it'. pick_index pick it = Ok (Inl it') \<and> uncounted h m lp (Suc i) p' it'"
    and "pick p i (running h (Suc i)) (counts h ! i) = Ok (p', Some (pick_metadata_new (Some q) None))
      \<Longrightarrow> \<exists>it' v. pick_index pick it = Ok (Inr (it', Some v)) \<and> counted h m i i p' it' \<and> quantile_iterated_to v = q \<and>
        quantile v = f64_div (u64_as_f64 (running h (Suc i))) (u64_as_f64 (len h))"
  using assms(1,2)
  by (auto simp: counted_def uncounted_def pick_index_def Let_def pick_metadata_new_def count_at_index_def
      value_for_bins(4) [OF assms(3,2)])

lemma round_counted:
  assumes "current_index it < length (counts (hist it))" and "take_index more_of it = Ok (it', True)"
  shows "iterator_round pick more_of it = pick_index pick it'"
  using assms by (simp add: iterator_round_def distinct_values_def)


section \<open>Once the end is reached\<close>

lemma quantile_pick_ended:
  "reached_end p \<Longrightarrow> quantile_pick log2 p i r c = Ok (p, None)"
  by (simp add: quantile_pick_def Let_def)

lemma collect_ended:
  fixes h :: "'c::len word histogram"
  assumes "bins_ok h" and "LENGTH('c) \<le> 64"
  shows "counted h m lp i p it \<or> uncounted h m lp i p it \<Longrightarrow> reached_end p \<Longrightarrow> i \<le> length (counts h)
    \<Longrightarrow> iterator_collect (quantile_pick log2) quantile_more it acc = Some (Ok (rev acc))"
proof (induction "length (counts h) - i" arbitrary: i it rule: less_induct)
  case less
  have it: "hist it = h" "current_index it = i" "picker it = p" "\<not> ended it" "last_picked_index it = lp" "max_value_index it = m"
    using less.prems(1) by (auto simp: counted_def uncounted_def)
  show ?case
  proof (cases "i = length (counts h) \<or> m \<le> lp")
    case True
    then have "\<exists>it'. iterator_round (quantile_pick log2) quantile_more it = Ok (Inr (it', None))"
      using it less.prems(2) by (auto simp: iterator_round_def distinct_values_def take_index_def quantile_more_def)
    then show ?thesis using collect_round(3) [OF it(4)] by blast
  next
    case False
    then have i: "i < length (counts h)" and lp: "lp < m" using less.prems(3) by auto
    obtain it1 where 1: "take_index quantile_more it = Ok (it1, True)" "counted h m lp i p it1"
      using take_counted [OF less.prems(1) lp i assms(2)] by blast
    obtain it2 where 2: "pick_index (quantile_pick log2) it1 = Ok (Inl it2)" "uncounted h m lp (Suc i) p it2"
      using pick_counted(1) [where pick = "quantile_pick log2", OF 1(2) i assms(1) quantile_pick_ended [OF less.prems(2)]] by blast
    have "iterator_collect (quantile_pick log2) quantile_more it acc = iterator_collect (quantile_pick log2) quantile_more it2 acc"
      using round_counted [of it, OF _ 1(1)] it(1,2) i 2(1) by (intro collect_round(1) [OF it(4)]) simp
    then show ?thesis using less.hyps [of "Suc i" it2] 2(2) i less.prems(2) by simp
  qed
qed

section \<open>The last bin that counts\<close>

lemma sum_counts_zero: "\<forall>c \<in> set cs. c = 0 \<Longrightarrow> sum_counts cs = 0"
  by (induction cs) simp_all

lemma sum_counts_eq_0: "sum_counts (cs :: 'c::len word list) = 0 \<longleftrightarrow> (\<forall>c \<in> set cs. c = 0)"
  by (induction cs) (simp_all add: word_unat_eq_iff)

lemma last_nonzero:
  fixes h :: "'c::len word histogram"
  assumes "wf h" and "exact h" and "total_count h \<noteq> 0" and "LENGTH('c) \<le> 64"
  obtains z where "z \<le> h_index h (unat (max_value h))" and "z < length (counts h)" and "counts h ! z \<noteq> 0"
    and "running h (Suc z) = total_count h"
proof -
  let ?nz = "{i. i < length (counts h) \<and> counts h ! i \<noteq> 0}"
  have fin: "finite ?nz" by simp
  have "0 < unat (total_count h)" using assms(3) by (simp add: unat_gt_0)
  then have "0 < sum_counts (counts h)" using assms(2) by (simp add: exact_def)
  moreover have "sum_counts (counts h) = 0" if "\<forall>c \<in> set (counts h). c = 0" using that by (rule sum_counts_zero)
  ultimately have "\<exists>c \<in> set (counts h). c \<noteq> 0" by fastforce
  then have ne: "?nz \<noteq> {}" by (auto simp: in_set_conv_nth)
  define z where "z = Max ?nz"
  have z: "z < length (counts h)" "counts h ! z \<noteq> 0" using Max_in [OF fin ne] by (simp_all add: z_def)
  have above: "counts h ! j = 0" if "z < j" "j < length (counts h)" for j
  proof (rule ccontr)
    assume "counts h ! j \<noteq> 0"
    then have "j \<in> ?nz" using that(2) by simp
    then have "j \<le> z" unfolding z_def by (rule Max_ge [OF fin])
    then show False using that(1) by simp
  qed
  have "sum_counts (drop (Suc z) (counts h)) = 0"
  proof -
    have "\<forall>c \<in> set (drop (Suc z) (counts h)). c = 0"
      using above by (auto simp: in_set_conv_nth)
    then show ?thesis by (rule sum_counts_zero)
  qed
  then have "sum_counts (take (Suc z) (counts h)) = sum_counts (counts h)"
    by (metis add.right_neutral append_take_drop_id sum_counts_append)
  then have "unat (running h (Suc z)) = unat (total_count h)"
    using assms(2) by (simp add: unat_running exact_def)
  then have "running h (Suc z) = total_count h" by (simp add: word_unat_eq_iff)
  moreover have "z \<le> h_index h (unat (max_value h))"
    using zero_beyond_max [OF assms(1)] z by (meson linorder_not_le)
  ultimately show thesis using z by (intro that [of z])
qed

lemma full_quantile:
  "total_count h \<noteq> 0 \<Longrightarrow> f64_div (u64_as_f64 (total_count h)) (u64_as_f64 (len h)) = Fin 1"
proof -
  assume "total_count h \<noteq> 0"
  then have "0 < nat_as_f64 (unat (total_count h))" by (intro nat_as_f64_pos) (simp add: unat_gt_0)
  moreover have "f64_round 1 = Fin 1" using f64_round_nat [of 1] by simp
  ultimately show ?thesis by (simp add: len_def u64_as_f64_def)
qed


section \<open>The whole iteration\<close>

text \<open>What the items must satisfy: strictly growing iteration quantiles, none above the quantile of its value.\<close>

definition tick_item :: "'c iteration_value \<Rightarrow> bool" where
  "tick_item v \<longleftrightarrow> \<not> f64_lt (quantile v) (quantile_iterated_to v)"

definition growing :: "'c iteration_value list \<Rightarrow> bool" where
  "growing vs \<longleftrightarrow> sorted_wrt (\<lambda>v w. f64_lt (quantile_iterated_to v) (quantile_iterated_to w)) vs"

text \<open>An iteration under way that has yielded \<open>rev acc\<close>, all below the quantile \<open>y\<close>.\<close>

definition below :: "rat \<Rightarrow> 'c iteration_value list \<Rightarrow> bool" where
  "below y acc \<longleftrightarrow> (\<forall>v \<in> set acc. tick_item v \<and> (\<exists>a < y. quantile_iterated_to v = Fin a)) \<and> growing (rev acc)"

lemma below_step:
  assumes "below y acc" and "tick_item v" and "quantile_iterated_to v = Fin y" and "y < s"
  shows "below s (v # acc)"
  using assms by (fastforce simp: below_def growing_def sorted_wrt_append)

lemma below_final:
  assumes "below 1 acc" and "tick_item v" and "quantile_iterated_to v = Fin 1"
  shows "(\<forall>v \<in> set (rev (v # acc)). tick_item v) \<and> growing (rev (v # acc)) \<and>
    rev (v # acc) \<noteq> [] \<and> quantile_iterated_to (last (rev (v # acc))) = Fin 1"
  using assms by (auto simp: below_def growing_def sorted_wrt_append)

lemma below_mono: "below y acc \<Longrightarrow> y \<le> s \<Longrightarrow> below s acc"
  by (fastforce simp: below_def)

text \<open>What is fixed during the iteration: \<open>z\<close> is the last bin that is not empty.\<close>

definition ticking :: "'c::len word histogram \<Rightarrow> nat \<Rightarrow> nat \<Rightarrow> (f64 \<Rightarrow> f64) \<Rightarrow> u32 \<Rightarrow> bool" where
  "ticking h m z log2 ticks \<longleftrightarrow> wf h \<and> LENGTH('c) \<le> 64 \<and> log2_documented log2 \<and> 0 < ticks \<and> unat ticks < 1024 \<and>
     z \<le> m \<and> z < length (counts h) \<and> counts h ! z \<noteq> 0 \<and> running h (Suc z) = total_count h \<and> total_count h \<noteq> 0"

text \<open>The picker when it iterates to \<open>y\<close>.\<close>

definition aiming :: "'c::len word histogram \<Rightarrow> u32 \<Rightarrow> rat \<Rightarrow> 'c word quantile_iter" where
  "aiming h ticks y = \<lparr>q_hist = h, ticks_per_half_distance = ticks, quantile_to_iterate_to = Fin y, reached_end = False\<rparr>"

definition bin_quantile :: "'c::len word histogram \<Rightarrow> nat \<Rightarrow> f64" where
  "bin_quantile h i = f64_div (u64_as_f64 (running h (Suc i))) (u64_as_f64 (len h))"

lemma quantile_pick_cases:
  fixes h :: "'c::len word histogram" and i :: nat
  assumes "ticking h m z log2 ticks" and "double y" and "0 \<le> y" and "y \<le> 1"
  defines "r \<equiv> quantile_pick log2 (aiming h ticks y) i (running h (Suc i)) (counts h ! i)"
  obtains (passed) "r = Ok (aiming h ticks y, None)" and "counts h ! i = 0 \<or> f64_lt (bin_quantile h i) (Fin y)"
    | (last) "y = 1" and "r = Ok ((aiming h ticks y)\<lparr>reached_end := True\<rparr>, Some (pick_metadata_new (Some (Fin 1)) None))"
      and "\<not> f64_lt (bin_quantile h i) (Fin y)"
    | (tick) s where "r = Ok (aiming h ticks s, Some (pick_metadata_new (Some (Fin y)) None))"
      and "\<not> f64_lt (bin_quantile h i) (Fin y)" and "double s" and "y < s" and "s \<le> 1"
proof (cases "counts h ! i = 0 \<or> f64_lt (bin_quantile h i) (Fin y)")
  case True
  then show thesis
    by (intro passed) (auto simp: r_def quantile_pick_def aiming_def bin_quantile_def)
next
  case False
  show thesis
  proof (cases "y = 1")
    case True
    then show thesis using False
      by (intro last) (auto simp: r_def quantile_pick_def aiming_def bin_quantile_def)
  next
    case False2: False
    let ?p = "aiming h ticks y"
    have p: "quantile_to_iterate_to ?p = Fin y" "\<not> reached_end ?p" "ticks_per_half_distance ?p = ticks" "q_hist ?p = h"
      by (simp_all add: aiming_def)
    have t: "log2_documented log2" "y < 1" "0 < ticks_per_half_distance ?p" "unat (ticks_per_half_distance ?p) < 1024"
      using assms(1,4) False2 unfolding p(3) by (simp_all add: ticking_def)
    have "\<not> f64_lt (f64_div (u64_as_f64 (running h (Suc i))) (u64_as_f64 (len (q_hist ?p)))) (Fin y)" "counts h ! i \<noteq> 0"
      using False unfolding p(4) by (simp_all add: bin_quantile_def)
    then obtain s where "r = Ok (?p\<lparr>quantile_to_iterate_to := Fin s\<rparr>, Some (pick_metadata_new (Some (Fin y)) None))"
      "double s" "y < s" "s \<le> 1"
      unfolding r_def by - (rule next_tick [OF t(1) assms(2,3) t(2-4) p(1,2)])
    then show thesis using False by (intro tick [of s]) (simp_all add: aiming_def)
  qed
qed


text \<open>A successful outcome of the whole iteration.\<close>

definition ticked :: "(unit, 'c iteration_value list) res option \<Rightarrow> bool" where
  "ticked r \<longleftrightarrow> (\<exists>vs. r = Some (Ok vs) \<and> (\<forall>v \<in> set vs. tick_item v) \<and> growing vs \<and> vs \<noteq> [] \<and>
     quantile_iterated_to (last vs) = Fin 1)"

lemma tickingD:
  fixes h :: "'c::len word histogram"
  assumes "ticking h m z log2 ticks"
  shows "bins_ok h" and "LENGTH('c) \<le> 64" and "z \<le> m" and "z < length (counts h)" and "counts h ! z \<noteq> 0"
    and "bin_quantile h z = Fin 1"
  using assms wfD(3) full_quantile by (auto simp: ticking_def bin_quantile_def)

text \<open>The round that yields the quantile 1.0 is the last that yields anything.\<close>

lemma last_tick:
  fixes h :: "'c::len word histogram"
  assumes "ticking h m z log2 ticks" and "counted h m lp i p it1" and "i < length (counts h)"
    and "iterator_round (quantile_pick log2) quantile_more it = pick_index (quantile_pick log2) it1" and "\<not> ended it"
    and "quantile_pick log2 p i (running h (Suc i)) (counts h ! i) = Ok (p', Some (pick_metadata_new (Some (Fin 1)) None))"
    and "\<not> f64_lt (bin_quantile h i) (Fin 1)" and "reached_end p'" and "below 1 acc"
  shows "ticked (iterator_collect (quantile_pick log2) quantile_more it acc)"
proof -
  note t = tickingD [OF assms(1)]
  obtain it' v where v: "pick_index (quantile_pick log2) it1 = Ok (Inr (it', Some v))" "counted h m i i p' it'"
    "quantile_iterated_to v = Fin 1" "quantile v = bin_quantile h i"
    using pick_counted(2) [where pick = "quantile_pick log2", OF assms(2,3) t(1) assms(6)] unfolding bin_quantile_def by blast
  have "iterator_collect (quantile_pick log2) quantile_more it acc = iterator_collect (quantile_pick log2) quantile_more it' (v # acc)"
    by (rule collect_round(2) [OF assms(5)]) (simp only: assms(4) v(1))
  also have "\<dots> = Some (Ok (rev (v # acc)))"
    using v(2) assms(3,8) by (intro collect_ended [OF t(1,2)]) (auto intro: less_imp_le)
  finally have c: "iterator_collect (quantile_pick log2) quantile_more it acc = Some (Ok (rev (v # acc)))" .
  have "tick_item v" using v(3,4) assms(7) by (simp add: tick_item_def)
  from below_final [OF assms(9) this v(3)] show ?thesis unfolding ticked_def c by blast
qed

text \<open>Beyond the last recorded index, the picker is sent to the quantile 1.0.\<close>

lemma collect_jump:
  fixes h :: "'c::len word histogram"
  assumes "ticking h m z log2 ticks" and "counted h m lp z (aiming h ticks y) it" and "m \<le> lp"
    and "y \<le> 1" and "below y acc"
  shows "ticked (iterator_collect (quantile_pick log2) quantile_more it acc)"
proof -
  note t = tickingD [OF assms(1)]
  let ?it = "it\<lparr>picker := aiming h ticks 1\<rparr>"
  have f: "hist it = h" "current_index it = z" "\<not> ended it" "take_index quantile_more it = Ok (?it, True)"
    using assms(2,3) by (auto simp: counted_def take_index_def quantile_more_def aiming_def)
  have c: "counted h m lp z (aiming h ticks 1) ?it" using assms(2) by (auto simp: counted_def)
  have "iterator_round (quantile_pick log2) quantile_more it = pick_index (quantile_pick log2) ?it"
    using f t(4) by (intro round_counted) simp_all
  moreover have "quantile_pick log2 (aiming h ticks 1) z (running h (Suc z)) (counts h ! z)
    = Ok ((aiming h ticks 1)\<lparr>reached_end := True\<rparr>, Some (pick_metadata_new (Some (Fin 1)) None))"
    by (rule quantile_pick_cases [OF assms(1) double_1, of z]) (use t(5,6) in auto)
  moreover have "reached_end ((aiming h ticks 1)\<lparr>reached_end := True\<rparr>)" by simp
  ultimately show ?thesis
    using f(3) t(4,6) below_mono [OF assms(5,4)]
    by (intro last_tick [where p' = "(aiming h ticks 1)\<lparr>reached_end := True\<rparr>", OF assms(1) c]) simp_all
qed

lemma collect_ticks:
  fixes h :: "'c::len word histogram"
  assumes "ticking h m z log2 ticks"
  shows "counted h m lp i (aiming h ticks y) it \<and> (lp < m \<or> i = z) \<or> uncounted h m lp i (aiming h ticks y) it \<and> lp < m
    \<Longrightarrow> i \<le> z \<Longrightarrow> double y \<Longrightarrow> 0 \<le> y \<Longrightarrow> y \<le> 1 \<Longrightarrow> below y acc
    \<Longrightarrow> ticked (iterator_collect (quantile_pick log2) quantile_more it acc)"
proof (induction "(z - i) * Suc (ticks_left 0) + ticks_left y" arbitrary: i lp y it acc rule: less_induct)
  case less
  note t = tickingD [OF assms]
  have it: "hist it = h" "current_index it = i" "\<not> ended it"
    using less.prems(1) by (auto simp: counted_def uncounted_def)
  have i: "i < length (counts h)" using less.prems(2) t(4) by simp
  show ?case
  proof (cases "lp < m")
    case False
    then have "counted h m lp z (aiming h ticks y) it" "m \<le> lp" using less.prems(1) by auto
    then show ?thesis using less.prems(5,6) by (intro collect_jump [OF assms])
  next
    case lp: True
    obtain it1 where it1: "take_index quantile_more it = Ok (it1, True)" "counted h m lp i (aiming h ticks y) it1"
      using take_counted [OF _ lp i t(2), of "aiming h ticks y" it] less.prems(1) by blast
    have r: "iterator_round (quantile_pick log2) quantile_more it = pick_index (quantile_pick log2) it1"
      using it(1,2) i by (intro round_counted [OF _ it1(1)]) simp
    show ?thesis
    proof (rule quantile_pick_cases [OF assms less.prems(3-5), of i])
      assume p: "quantile_pick log2 (aiming h ticks y) i (running h (Suc i)) (counts h ! i) = Ok (aiming h ticks y, None)"
        and "counts h ! i = 0 \<or> f64_lt (bin_quantile h i) (Fin y)"
      then have "i \<noteq> z" using t(5,6) less.prems(5) by auto
      then have iz: "i < z" using less.prems(2) by simp
      obtain it' where it': "pick_index (quantile_pick log2) it1 = Ok (Inl it')" "uncounted h m lp (Suc i) (aiming h ticks y) it'"
        using pick_counted(1) [where pick = "quantile_pick log2", OF it1(2) i t(1) p] by blast
      have "(z - Suc i) * Suc (ticks_left 0) < (z - i) * Suc (ticks_left 0)" using iz by (intro mult_strict_right_mono) simp_all
      then have "ticked (iterator_collect (quantile_pick log2) quantile_more it' acc)"
        using it'(2) lp iz less.prems(3-6) by (intro less.hyps [of "Suc i" y lp]) simp_all
      then show ?thesis using collect_round(1) [OF it(3)] r it'(1) by simp
    next
      assume "y = 1" and "\<not> f64_lt (bin_quantile h i) (Fin y)" and p: "quantile_pick log2 (aiming h ticks y) i (running h (Suc i)) (counts h ! i)
          = Ok ((aiming h ticks y)\<lparr>reached_end := True\<rparr>, Some (pick_metadata_new (Some (Fin 1)) None))"
      then show ?thesis using less.prems(6) by (intro last_tick [OF assms it1(2) i r it(3) p]) simp_all
    next
      fix s assume p: "quantile_pick log2 (aiming h ticks y) i (running h (Suc i)) (counts h ! i)
          = Ok (aiming h ticks s, Some (pick_metadata_new (Some (Fin y)) None))"
        and q: "\<not> f64_lt (bin_quantile h i) (Fin y)" and s: "double s" "y < s" "s \<le> 1"
      obtain it' v where v: "pick_index (quantile_pick log2) it1 = Ok (Inr (it', Some v))" "counted h m i i (aiming h ticks s) it'"
        "quantile_iterated_to v = Fin y" "quantile v = bin_quantile h i"
        using pick_counted(2) [where pick = "quantile_pick log2", OF it1(2) i t(1) p] unfolding bin_quantile_def by blast
      have "tick_item v" using v(3,4) q by (simp add: tick_item_def)
      from below_step [OF less.prems(6) this v(3) s(2)] have b: "below s (v # acc)" .
      have "ticks_left s < ticks_left y" by (rule ticks_left_less [OF less.prems(3) s])
      moreover have "i < m \<or> i = z" using less.prems(2) t(3) by auto
      ultimately have "ticked (iterator_collect (quantile_pick log2) quantile_more it' (v # acc))"
        using v(2) less.prems(2,4) s b by (intro less.hyps [of i s i]) simp_all
      then show ?thesis using collect_round(2) [OF it(3)] r v(1) by simp
    qed
  qed
qed


lemma iter_quantiles_ticked:
  fixes h :: "'c::len word histogram"
  assumes "wf h" and "exact h" and "LENGTH('c) \<le> 64" and "total_count h \<noteq> 0" and "0 < h_index h (unat (hist_max h))"
    and "0 < ticks" and "unat ticks < 1024" and "log2_documented log2"
  shows "ticked (iter_quantiles log2 h ticks)"
proof -
  let ?m = "h_index h (unat (max_value h))" and ?p = "aiming h ticks 0"
  obtain z where z: "z \<le> ?m" "z < length (counts h)" "counts h ! z \<noteq> 0" "running h (Suc z) = total_count h"
    by (rule last_nonzero [OF assms(1,2,4,3)])
  have t: "ticking h ?m z log2 ticks" using assms z by (simp add: ticking_def)
  have m: "0 < ?m" using assms(5) h_index_hist_max [OF wfD(2) [OF assms(1)]] by simp
  let ?it = "scan_state h ?m 0 ?p 0 (running h 0) 0 True"
  have "uncounted h ?m 0 0 ?p ?it" by (simp add: uncounted_def scan_state_def)
  then have "ticked (iterator_collect (quantile_pick log2) quantile_more ?it [])"
    using m by (intro collect_ticks [where lp = 0 and i = 0, OF t _ _ double_0]) (simp_all add: below_def growing_def)
  moreover have "iter_quantiles log2 h ticks = iterator_collect (quantile_pick log2) quantile_more ?it []"
    using assms(6) by (simp add: iter_quantiles_def quantile_new_def aiming_def iterator_new_scan [OF assms(1)])
  ultimately show ?thesis by simp
qed

section \<open>Where nothing is yielded\<close>

text \<open>The picker passes over empty bins, and the counts of bin 0 are not taken in if it is the last recorded one.\<close>

lemma collect_nothing:
  fixes h :: "'c::len word histogram"
  assumes "list_all (\<lambda>c. c = 0) (counts h) \<or> m \<le> lp"
  shows "hist it = h \<Longrightarrow> current_index it = i \<Longrightarrow> \<not> ended it \<Longrightarrow> last_picked_index it = lp \<Longrightarrow> max_value_index it = m
    \<Longrightarrow> count_at_idx it = 0 \<Longrightarrow> i \<le> length (counts h)
    \<Longrightarrow> iterator_collect (quantile_pick log2) quantile_more it acc = Some (Ok (rev acc))"
proof (induction "length (counts h) - i" arbitrary: i it rule: less_induct)
  case less
  note it = less.prems
  show ?case
  proof (cases "i = length (counts h)")
    case True
    then have "iterator_round (quantile_pick log2) quantile_more it = Ok (Inr (it\<lparr>ended := True\<rparr>, None))"
      using it by (simp add: iterator_round_def distinct_values_def)
    then show ?thesis by (rule collect_round(3) [OF it(3)])
  next
    case False
    then have i: "i < length (counts h)" using it(7) by simp
    then have z: "lp < m \<Longrightarrow> counts h ! i = 0" using assms by (auto simp: list_all_length)
    obtain it1 b where 1: "take_index quantile_more it = (Ok (it1, b) :: (unit, _) res)"
      "hist it1 = h" "current_index it1 = i" "\<not> ended it1" "last_picked_index it1 = lp" "max_value_index it1 = m"
      "count_at_idx it1 = 0"
    proof (cases "m \<le> lp")
      case True
      then show thesis using it that by (cases "reached_end (picker it)") (simp_all add: take_index_def quantile_more_def)
    next
      case False
      then show thesis using it that i z
        by (cases "fresh_index it") (simp_all add: take_index_def distinct_values_def count_at_index_def)
    qed
    have rnd: "iterator_round (quantile_pick log2) quantile_more it =
        (if b then pick_index (quantile_pick log2) it1 else Ok (Inr (it1\<lparr>ended := True\<rparr>, None)))"
      using it i 1(1) by (simp add: iterator_round_def distinct_values_def)
    show ?thesis
    proof (cases b)
      case True
      let ?it2 = "it1\<lparr>current_index := i + 1, fresh_index := True\<rparr>"
      have "pick_index (quantile_pick log2) it1 = Ok (Inl ?it2)"
        using 1(3,7) by (simp add: pick_index_def quantile_pick_def Let_def)
      then have "iterator_collect (quantile_pick log2) quantile_more it acc = iterator_collect (quantile_pick log2) quantile_more ?it2 acc"
        using rnd True by (intro collect_round(1) [OF it(3)]) simp
      then show ?thesis using less.hyps [of "i + 1" ?it2] 1 i by simp
    qed (use rnd collect_round(3) [OF it(3)] in auto)
  qed
qed

lemma iter_quantiles_nothing:
  fixes h :: "'c::len word histogram"
  assumes "wf h" and "exact h" and "0 < ticks" and "total_count h = 0 \<or> h_index h (unat (hist_max h)) = 0"
  shows "iter_quantiles log2 h ticks = Some (Ok [])"
proof -
  let ?m = "h_index h (unat (max_value h))" and ?p = "aiming h ticks 0"
  let ?it = "scan_state h ?m 0 ?p 0 (running h 0) 0 True"
  have "list_all (\<lambda>c. c = 0) (counts h) \<or> ?m \<le> 0"
  proof (cases "total_count h = 0")
    case True
    then have "sum_counts (counts h) = 0" using assms(2) by (simp add: exact_def u64_max_def min_def split: if_splits)
    then show ?thesis by (simp add: sum_counts_eq_0 list_all_iff)
  qed (use assms(4) h_index_hist_max [OF wfD(2) [OF assms(1)]] in simp)
  then have "iterator_collect (quantile_pick log2) quantile_more ?it [] = Some (Ok (rev []))"
    by (rule collect_nothing [where i = 0]) (simp_all add: scan_state_def)
  moreover have "iter_quantiles log2 h ticks = iterator_collect (quantile_pick log2) quantile_more ?it []"
    using assms(3) by (simp add: iter_quantiles_def quantile_new_def aiming_def iterator_new_scan [OF assms(1)])
  ultimately show ?thesis by simp
qed

section \<open>Properties\<close>

text \<open>
  C16. The iterator by quantiles with fewer than 1024 ticks per half distance, on a well-formed histogram
  whose total is the (saturated) sum of its counts, with a logarithm whose integer part is right
  (\<open>log2_documented\<close>). With 0 ticks the assertion of its constructor panics.
  Otherwise it ends and does not panic. If the histogram holds a sample and its largest lies above bin 0,
  the items have strictly growing iteration quantiles, the last of them 1.0, none above the quantile of
  the value it is yielded for. A histogram that is empty, or whose samples all lie in bin 0, yields
  nothing. (More ticks than that are not covered.)
\<close>

theorem iter_quantiles_reaches_1:
  fixes h :: "'c::len word histogram"
  assumes "wf h" and "exact h" and "LENGTH('c) \<le> 64" and "unat ticks < 1024" and "log2_documented log2"
  shows "if ticks = 0 then iter_quantiles log2 h ticks = Some Panic
    else if total_count h = 0 \<or> h_index h (unat (hist_max h)) = 0 then iter_quantiles log2 h ticks = Some (Ok [])
    else \<exists>vs. iter_quantiles log2 h ticks = Some (Ok vs) \<and>
      sorted_wrt (\<lambda>v w. f64_lt (quantile_iterated_to v) (quantile_iterated_to w)) vs \<and>
      list_all (\<lambda>v. \<not> f64_lt (quantile v) (quantile_iterated_to v)) vs \<and>
      vs \<noteq> [] \<and> quantile_iterated_to (last vs) = Fin 1"
proof -
  have "ticks = 0 \<Longrightarrow> iter_quantiles log2 h ticks = Some Panic"
    by (simp add: iter_quantiles_def quantile_new_def assert_that_def)
  then show ?thesis
    using iter_quantiles_nothing [OF assms(1,2)] iter_quantiles_ticked [OF assms(1-3) _ _ _ assms(4,5)]
    by (auto simp: ticked_def growing_def tick_item_def list_all_iff word_gt_0)
qed

text \<open>A logarithm that is exact to the integer below.\<close>

definition floor_log2 :: "f64 \<Rightarrow> f64" where
  "floor_log2 x = (case x of Fin y \<Rightarrow> Fin (of_int (flog2 y)) | _ \<Rightarrow> NaN)"

lemma floor_log2_documented: "log2_documented floor_log2"
  unfolding log2_documented_def
proof (intro allI impI)
  fix x :: rat assume x: "1 \<le> x \<and> x \<le> 2 ^ 53"
  then have pos: "0 < x" by simp
  note b = flog2_bounds [OF pos]
  have "(2::rat) powi 0 < 2 powi (flog2 x + 1)" using b(2) x by simp
  then have low: "0 \<le> flog2 x" using powi_less_imp_less [of 0 "flog2 x + 1"] by simp
  have "2 powi flog2 x \<le> (2 powi 53 :: rat)" using b(1) x by simp
  also have "\<dots> < 2 powi 54" by simp
  finally have "flog2 x < 54" by (rule powi_less_imp_less)
  moreover have "x < 2 ^ (nat (flog2 x) + 1)"
    using b(2) low by (metis Suc_eq_plus1 add.commute nat_0_le of_nat_Suc power_int_of_nat)
  ultimately show "\<exists>l. floor_log2 (Fin x) = Fin l \<and> 0 \<le> l \<and> l \<le> 53 \<and> x < 2 ^ (nat \<lfloor>l\<rfloor> + 1)"
    using low by (intro exI [of _ "of_int (flog2 x)"]) (simp add: floor_log2_def)
qed

theorem iter_quantiles_reaches_1_witness:
  "\<exists>vs. iter_quantiles floor_log2 loaded 5 = Some (Ok vs) \<and>
    sorted_wrt (\<lambda>v w. f64_lt (quantile_iterated_to v) (quantile_iterated_to w)) vs \<and>
    list_all (\<lambda>v. \<not> f64_lt (quantile v) (quantile_iterated_to v)) vs \<and>
    vs \<noteq> [] \<and> quantile_iterated_to (last vs) = Fin 1"
  using iter_quantiles_reaches_1 [OF loaded_facts(1,2) _ _ floor_log2_documented, of 5] h_index_hist_max_loaded loaded_facts(3)
  by (auto simp: word_unat_eq_iff)

end
