(* ===== verification/Linear.thy ===== *)
theory Linear
  imports Ticks
begin

text \<open>
  The iteration by linear steps (\<open>iterators/linear.rs\<close> with \<open>HistogramIterator::next\<close>): it cuts the
  samples into consecutive ranges of the given width, as far as bins can tell them apart.
\<close>

definition iter_linear :: "'c::len word histogram \<Rightarrow> u64 \<Rightarrow> (unit, 'c word iteration_value list) res option" where
  "iter_linear h step =
     (case bind_res (linear_new h step) (iterator_new h) of
        Ok it \<Rightarrow> iterator_collect linear_pick linear_more it []
      | Err e \<Rightarrow> Some (Err e)
      | Panic \<Rightarrow> Some Panic)"

section \<open>Bins and values, beyond the capacity too\<close>

lemma bin_value_le_iff: "bin_value u k i \<le> v \<longleftrightarrow> i \<le> bin_index u k v"
proof
  assume "bin_value u k i \<le> v"
  from bin_index_mono [OF this, of u k] show "i \<le> bin_index u k v" by (simp add: bin_index_value)
next
  assume i: "i \<le> bin_index u k v"
  show "bin_value u k i \<le> v"
  proof (rule ccontr)
    assume "\<not> bin_value u k i \<le> v"
    then have "bin_index u k v \<le> i" using bin_index_mono [of v "bin_value u k i" u k] by (simp add: bin_index_value)
    then have "bin_value u k i = bin_low u k v" using i bin_value_index [of u k v] by simp
    then show False using bin_low_le [of u k v] \<open>\<not> bin_value u k i \<le> v\<close> by simp
  qed
qed

lemma value_for_next:
  assumes "bins_ok h" and "i \<le> length (counts h)" and "2 * capacity h \<le> 2 ^ 64"
  shows "value_for h i = Ok (of_nat (bin_value (um h) (hm h) i))" and "bin_value (um h) (hm h) i < 2 ^ 64"
proof -
  note b = bins_okD [OF assms(1)]
  have "length (counts h) < (bc h + 1 + 1) * 2 ^ hm h" using b by simp
  then have "bin_value (um h) (hm h) i < 2 ^ (um h + hm h + (bc h + 1))"
    using assms(2) bin_value_less_iff [of "bc h + 1" "um h" "hm h" i] by simp
  also have "\<dots> = 2 * capacity h" by (simp add: capacity_def)
  finally show "bin_value (um h) (hm h) i < 2 ^ 64" using assms(3) by simp
  then show "value_for h i = Ok (of_nat (bin_value (um h) (hm h) i))"
    using assms(2) length_counts_less [OF assms(1)] by (intro value_for_eq b(1)) simp_all
qed

section \<open>The picker\<close>

text \<open>The picker before its \<open>j\<close>th item (from 1): the step ends at \<open>j * step - 1\<close>.\<close>

definition step_end :: "u64 \<Rightarrow> nat \<Rightarrow> nat" where
  "step_end step j = unat step * j - 1"

definition linear_at :: "'c::len word histogram \<Rightarrow> u64 \<Rightarrow> nat \<Rightarrow> 'c word linear_iter" where
  "linear_at h step j = \<lparr>lin_hist = h, value_units_per_bucket = step, lin_highest = of_nat (step_end step j),
     lin_lowest = lowest_equivalent h (of_nat (step_end step j))\<rparr>"

definition end_bin :: "'c::len word histogram \<Rightarrow> u64 \<Rightarrow> nat \<Rightarrow> nat" where
  "end_bin h step j = bin_index (um h) (hm h) (step_end step j)"

lemma step_end_Suc: "0 < step \<Longrightarrow> 0 < j \<Longrightarrow> step_end step (Suc j) = step_end step j + unat step"
proof -
  assume "0 < step" and "0 < j"
  then have "0 < unat step * j" by (simp add: unat_gt_0)
  then show ?thesis by (simp add: step_end_def)
qed

lemma linear_pick_at:
  fixes h :: "'c::len word histogram"
  assumes "bins_ok h" and "i < length (counts h)" and "0 < step" and "0 < j" and "step_end step (Suc j) < 2 ^ 64"
  shows "linear_pick (linear_at h step j) i r c =
    (if end_bin h step j \<le> i \<or> i = length (counts h) - 1
     then Ok (linear_at h step (Suc j), Some (pick_metadata_new None (Some (of_nat (step_end step j)))))
     else Ok (linear_at h step j, None))"
proof -
  note l = bins_okD(1) [OF assms(1)]
  have u: "unat (of_nat (step_end step j) :: u64) = step_end step j"
    using assms(5) step_end_Suc [OF assms(3,4)] by (intro unat_of_nat_less) simp
  have "unat (of_nat (bin_value (um h) (hm h) i) :: u64) = bin_value (um h) (hm h) i"
    using value_for_bins(2) [OF assms(1,2)] by (intro unat_of_nat_less) simp
  moreover have "bin_low (um h) (hm h) (step_end step j) \<le> bin_value (um h) (hm h) i \<longleftrightarrow> end_bin h step j \<le> i"
    unfolding end_bin_def bin_value_index [symmetric] bin_value_le_iff by (simp add: bin_index_value)
  ultimately have cmp: "lowest_equivalent h (of_nat (step_end step j)) \<le> of_nat (bin_value (um h) (hm h) i) \<longleftrightarrow> end_bin h step j \<le> i"
    by (simp add: word_le_nat_alt unat_lowest_equivalent [OF l] u)
  have hi: "of_nat (step_end step j) + step = (of_nat (step_end step (Suc j)) :: u64)"
    by (simp add: step_end_Suc [OF assms(3,4)])
  have last: "last_index h = (Ok (length (counts h) - 1) :: (unit, nat) res)"
    using length_counts_pos [OF assms(1)] by (simp add: last_index_def distinct_values_def)
  show ?thesis
    by (simp add: linear_pick_def linear_at_def value_for_bins(1) [OF assms(1,2)] cmp hi last Let_def)
qed

lemma linear_more_at:
  fixes h :: "'c::len word histogram"
  assumes "bins_ok h" and "i < length (counts h)" and "2 * capacity h \<le> 2 ^ 64" and "step_end step j < 2 ^ 64"
  shows "linear_more (linear_at h step j) i = Ok (linear_at h step j, end_bin h step j \<le> i)"
proof -
  have i: "Suc i \<le> length (counts h)" using assms(2) by simp
  note v = value_for_next [OF assms(1) i assms(3)]
  have u: "unat (of_nat (step_end step j) :: u64) = step_end step j"
    "unat (of_nat (bin_value (um h) (hm h) (Suc i)) :: u64) = bin_value (um h) (hm h) (Suc i)"
    using assms(4) v(2) by (simp_all add: unat_of_nat_less)
  have "step_end step j < bin_value (um h) (hm h) (Suc i) \<longleftrightarrow> end_bin h step j \<le> i"
    using bin_value_le_iff [of "um h" "hm h" "Suc i" "step_end step j"] unfolding end_bin_def by linarith
  moreover have "checked_add_usize i 1 = Some (Suc i)"
    using assms(2) length_counts_less [OF assms(1)] by (simp add: checked_add_usize_def usize_max_def)
  ultimately show ?thesis
    by (simp add: linear_more_def linear_at_def v(1) word_less_nat_alt u)
qed


section \<open>Counting on the way\<close>

text \<open>
  An iteration with what it has counted since the last item, when the items so far have counted \<open>n\<close>:
  at an index that is counted, and at one that is not.
\<close>

definition up_to :: "'c::len word histogram \<Rightarrow> nat \<Rightarrow> nat" where
  "up_to h i = sum_counts (take (Suc i) (counts h))"

definition tallied ::
  "'c::len word histogram \<Rightarrow> nat \<Rightarrow> nat \<Rightarrow> nat \<Rightarrow> 'p \<Rightarrow> nat \<Rightarrow> ('c word, 'p) histogram_iterator \<Rightarrow> bool" where
  "tallied h m lp i p n it \<longleftrightarrow> counted h m lp i p it \<and> unat (count_since_last_iteration it) + n = up_to h i"

definition untallied ::
  "'c::len word histogram \<Rightarrow> nat \<Rightarrow> nat \<Rightarrow> nat \<Rightarrow> 'p \<Rightarrow> nat \<Rightarrow> ('c word, 'p) histogram_iterator \<Rightarrow> bool" where
  "untallied h m lp i p n it \<longleftrightarrow> uncounted h m lp i p it \<and>
     unat (count_since_last_iteration it) + n = sum_counts (take i (counts h))"

lemma take_tallied:
  fixes h :: "'c::len word histogram"
  assumes "tallied h m lp i p n it \<or> untallied h m lp i p n it" and "lp < m" and "i < length (counts h)"
    and "LENGTH('c) \<le> 64" and "sum_counts (counts h) < 2 ^ 64"
  shows "\<exists>it'. take_index more_of it = Ok (it', True) \<and> tallied h m lp i p n it'"
  using assms(1)
proof
  assume "tallied h m lp i p n it"
  then show ?thesis using assms(2,3) by (auto simp: tallied_def counted_def take_index_def distinct_values_def)
next
  assume a: "untallied h m lp i p n it"
  let ?since = "count_since_last_iteration it" and ?c = "ucast (counts h ! i) :: u64"
  have c: "unat ?c = unat (counts h ! i)" by (rule unat_ucast_count [OF assms(4)])
  have u: "up_to h i = sum_counts (take i (counts h)) + unat (counts h ! i)"
    by (simp add: up_to_def sum_counts_take_Suc [OF assms(3)])
  have "up_to h i < 2 ^ 64" using sum_counts_take_le [of "Suc i" "counts h"] assms(5) unfolding up_to_def by linarith
  then have "unat (saturating_add ?since ?c) = unat ?since + unat (counts h ! i)"
    using a u unfolding untallied_def by (simp add: unat_saturating_add_u64 u64_max_def c)
  then have "unat (saturating_add ?since ?c) + n = up_to h i"
    using a u unfolding untallied_def by simp
  then show ?thesis
    using a assms(2,3) running_Suc [OF assms(4,3)]
    by (auto simp: untallied_def tallied_def counted_def uncounted_def take_index_def distinct_values_def count_at_index_def)
qed

section \<open>The items\<close>

text \<open>The \<open>j\<close>th item is yielded at the bin of the end of its step, or at the last bin, and counts the bins since the one before.\<close>

definition item_bin :: "'c::len word histogram \<Rightarrow> u64 \<Rightarrow> nat \<Rightarrow> nat" where
  "item_bin h step j = min (end_bin h step j) (length (counts h) - 1)"

definition before :: "'c::len word histogram \<Rightarrow> u64 \<Rightarrow> nat \<Rightarrow> nat" where
  "before h step j = (if j \<le> 1 then 0 else up_to h (item_bin h step (j - 1)))"

definition linear_item :: "'c::len word histogram \<Rightarrow> u64 \<Rightarrow> nat \<Rightarrow> 'c word iteration_value" where
  "linear_item h step j =
     (let i = item_bin h step j
      in \<lparr>value_iterated_to = of_nat (step_end step j), quantile = bin_quantile h i, quantile_iterated_to = bin_quantile h i,
          count_at_value = counts h ! i, count_since_last = of_nat (up_to h i - before h step j)\<rparr>)"

lemma end_bin_mono: "j \<le> k \<Longrightarrow> end_bin h step j \<le> end_bin h step k"
  unfolding end_bin_def step_end_def by (intro bin_index_mono diff_le_mono mult_le_mono2)

lemma up_to_mono: "i \<le> j \<Longrightarrow> up_to h i \<le> up_to h j"
  unfolding up_to_def by (intro sum_counts_take_mono) simp

lemma before_Suc: "0 < j \<Longrightarrow> before h step (Suc j) = up_to h (item_bin h step j)"
  by (simp add: before_def)

section \<open>One round\<close>

text \<open>An iteration before its \<open>j\<close>th item, with what it has counted since the item before.\<close>

definition stepping ::
  "'c::len word histogram \<Rightarrow> nat \<Rightarrow> u64 \<Rightarrow> nat \<Rightarrow> nat \<Rightarrow> nat \<Rightarrow> ('c word, 'c word linear_iter) histogram_iterator \<Rightarrow> bool" where
  "stepping h m step lp i j it \<longleftrightarrow> tallied h m lp i (linear_at h step j) (before h step j) it"

definition arriving ::
  "'c::len word histogram \<Rightarrow> nat \<Rightarrow> u64 \<Rightarrow> nat \<Rightarrow> nat \<Rightarrow> nat \<Rightarrow> ('c word, 'c word linear_iter) histogram_iterator \<Rightarrow> bool" where
  "arriving h m step lp i j it \<longleftrightarrow> untallied h m lp i (linear_at h step j) (before h step j) it"

lemmas stepping_simps = stepping_def arriving_def tallied_def untallied_def counted_def uncounted_def

lemma take_stepping:
  fixes h :: "'c::len word histogram"
  assumes "stepping h m step lp i j it \<or> arriving h m step lp i j it" and "lp < m" and "i < length (counts h)"
    and "LENGTH('c) \<le> 64" and "sum_counts (counts h) < 2 ^ 64"
  shows "\<exists>it'. take_index linear_more it = Ok (it', True) \<and> stepping h m step lp i j it'"
  using assms unfolding stepping_def arriving_def by (rule take_tallied)

lemma pick_stepping:
  fixes h :: "'c::len word histogram"
  assumes "stepping h m step lp i j it" and "bins_ok h" and "i < length (counts h)" and "0 < step" and "0 < j"
    and "step_end step (Suc j) < 2 ^ 64" and "i \<le> end_bin h step j"
  shows "end_bin h step j \<le> i \<or> i = length (counts h) - 1 \<Longrightarrow>
      \<exists>it'. pick_index linear_pick it = Ok (Inr (it', Some (linear_item h step j))) \<and> stepping h m step i i (Suc j) it'"
    and "\<not> (end_bin h step j \<le> i \<or> i = length (counts h) - 1) \<Longrightarrow>
      \<exists>it'. pick_index linear_pick it = Ok (Inl it') \<and> arriving h m step lp (Suc i) j it'"
proof -
  note p = linear_pick_at [OF assms(2-6)]
  have s: "counted h m lp i (linear_at h step j) it" "unat (count_since_last_iteration it) + before h step j = up_to h i"
    using assms(1) by (simp_all add: stepping_def tallied_def)
  have since: "count_since_last_iteration it = of_nat (up_to h i - before h step j)"
    by (rule eq_of_nat_unat) (use s(2) in simp)
  show "\<exists>it'. pick_index linear_pick it = Ok (Inr (it', Some (linear_item h step j))) \<and> stepping h m step i i (Suc j) it'"
    if e: "end_bin h step j \<le> i \<or> i = length (counts h) - 1"
  proof -
    have i: "item_bin h step j = i" using e assms(3,7) by (auto simp: item_bin_def)
    show ?thesis
      using s(1) e assms(3) p
      by (simp add: counted_def stepping_def tallied_def pick_index_def Let_def pick_metadata_new_def count_at_index_def
          linear_item_def i since bin_quantile_def before_Suc [OF assms(5)] up_to_def)
  qed
  show "\<exists>it'. pick_index linear_pick it = Ok (Inl it') \<and> arriving h m step lp (Suc i) j it'"
    if e: "\<not> (end_bin h step j \<le> i \<or> i = length (counts h) - 1)"
    using s e p by (simp add: counted_def uncounted_def arriving_def untallied_def pick_index_def up_to_def)
qed


section \<open>The whole iteration\<close>

definition linear_ok :: "'c::len word histogram \<Rightarrow> nat \<Rightarrow> u64 \<Rightarrow> bool" where
  "linear_ok h m step \<longleftrightarrow> bins_ok h \<and> LENGTH('c) \<le> 64 \<and> m < length (counts h) \<and> 0 < step \<and>
     sum_counts (counts h) < 2 ^ 64 \<and> 2 * capacity h \<le> 2 ^ 64 \<and> capacity h + 2 * unat step \<le> 2 ^ 64"

text \<open>The items from the \<open>j\<close>th on, up to the one that goes past the last recorded bin and ends its range.\<close>

definition remaining ::
  "'c::len word histogram \<Rightarrow> nat \<Rightarrow> u64 \<Rightarrow> nat \<Rightarrow> 'c word iteration_value list
    \<Rightarrow> (unit, 'c word iteration_value list) res option \<Rightarrow> bool" where
  "remaining h m step j acc r \<longleftrightarrow>
     (\<exists>n. j \<le> Suc n \<and> r = Some (Ok (rev acc @ map (linear_item h step) [j..<Suc n])) \<and>
          m \<le> item_bin h step n \<and> item_bin h step n < end_bin h step (Suc n))"

lemma remaining_step:
  assumes "remaining h m step (Suc j) (linear_item h step j # acc) r"
  shows "remaining h m step j acc r"
proof -
  obtain n where n: "Suc j \<le> Suc n" "r = Some (Ok (rev (linear_item h step j # acc) @ map (linear_item h step) [Suc j..<Suc n]))"
    "m \<le> item_bin h step n" "item_bin h step n < end_bin h step (Suc n)"
    using assms unfolding remaining_def by blast
  have "[j..<Suc n] = j # [Suc j..<Suc n]" using n(1) by (intro upt_conv_Cons) simp
  then show ?thesis using n unfolding remaining_def by (intro exI [of _ n]) simp
qed

lemma end_bin_less: "bins_ok h \<Longrightarrow> end_bin h step j < length (counts h) \<longleftrightarrow> step_end step j < capacity h"
  unfolding end_bin_def by (rule bin_index_less_length)

text \<open>After the last recorded bin.\<close>

lemma collect_linear_after:
  fixes h :: "'c::len word histogram"
  assumes "linear_ok h m step"
  shows "stepping h m step i i j it \<Longrightarrow> m \<le> i \<Longrightarrow> i < length (counts h) \<Longrightarrow> 1 < j \<Longrightarrow> i = item_bin h step (j - 1)
    \<Longrightarrow> step_end step j < 2 ^ 64 \<Longrightarrow> remaining h m step j acc (iterator_collect linear_pick linear_more it acc)"
proof (induction "2 ^ 64 - step_end step j" arbitrary: j it acc rule: less_induct)
  case less
  have k: "bins_ok h" "0 < step" "2 * capacity h \<le> 2 ^ 64" "capacity h + 2 * unat step \<le> 2 ^ 64"
    using assms by (simp_all add: linear_ok_def)
  have it: "hist it = h" "current_index it = i" "last_picked_index it = i" "max_value_index it = m" "\<not> ended it"
    "picker it = linear_at h step j"
    using less.prems(1) by (auto simp: stepping_simps)
  have j: "0 < j" "Suc (j - 1) = j" using less.prems(4) by simp_all
  have same: "it\<lparr>picker := linear_at h step j\<rparr> = it" using it(6) by simp
  have take: "take_index linear_more it = Ok (it, end_bin h step j \<le> i)"
    using it less.prems(2) linear_more_at [OF k(1) less.prems(3) k(3) less.prems(6)] same by (simp add: take_index_def)
  have le: "i \<le> end_bin h step j"
    using less.prems(5) end_bin_mono [of "j - 1" j h step] by (simp add: item_bin_def)
  show ?case
  proof (cases "end_bin h step j \<le> i")
    case False
    then have "iterator_round linear_pick linear_more it = Ok (Inr (it\<lparr>ended := True\<rparr>, None))"
      using it(1,2) less.prems(3) take by (simp add: iterator_round_def distinct_values_def)
    then have "iterator_collect linear_pick linear_more it acc = Some (Ok (rev acc))" by (rule collect_round(3) [OF it(5)])
    then show ?thesis
      unfolding remaining_def using less.prems(2,5) False j by (intro exI [of _ "j - 1"]) simp
  next
    case True
    then have "step_end step j < capacity h" using less.prems(3) end_bin_less [OF k(1)] by (metis le_less_trans)
    then have next_end: "step_end step (Suc j) < 2 ^ 64" "step_end step j < step_end step (Suc j)"
      using k(2,4) step_end_Suc [OF k(2) j(1)] by (simp_all add: unat_gt_0)
    obtain it' where it': "pick_index linear_pick it = Ok (Inr (it', Some (linear_item h step j)))" "stepping h m step i i (Suc j) it'"
      using pick_stepping(1) [OF less.prems(1) k(1) less.prems(3) k(2) j(1) next_end(1) le] True by blast
    have i: "i = item_bin h step (Suc j - 1)" using True le less.prems(3) by (simp add: item_bin_def)
    have "iterator_round linear_pick linear_more it = pick_index linear_pick it"
      using it(1,2) less.prems(3) take True by (intro round_counted) simp_all
    then have "iterator_collect linear_pick linear_more it acc = iterator_collect linear_pick linear_more it' (linear_item h step j # acc)"
      using it'(1) by (intro collect_round(2) [OF it(5)]) simp
    moreover have "remaining h m step (Suc j) (linear_item h step j # acc) (iterator_collect linear_pick linear_more it' (linear_item h step j # acc))"
      using next_end j(1) less.prems(6) by (intro less.hyps [OF _ it'(2) less.prems(2,3) _ i]) simp_all
    ultimately show ?thesis using remaining_step by metis
  qed
qed

lemma collect_linear:
  fixes h :: "'c::len word histogram"
  assumes "linear_ok h m step"
  shows "stepping h m step lp i j it \<or> arriving h m step lp i j it \<Longrightarrow> lp < m \<Longrightarrow> i < length (counts h) \<Longrightarrow> 0 < j
    \<Longrightarrow> i \<le> end_bin h step j \<Longrightarrow> step_end step j < capacity h + unat step
    \<Longrightarrow> remaining h m step j acc (iterator_collect linear_pick linear_more it acc)"
proof (induction "(length (counts h) - i) + (2 ^ 64 - step_end step j)" arbitrary: lp i j it acc rule: less_induct)
  case less
  have k: "bins_ok h" "LENGTH('c) \<le> 64" "m < length (counts h)" "0 < step" "sum_counts (counts h) < 2 ^ 64" "capacity h + 2 * unat step \<le> 2 ^ 64"
    using assms by (simp_all add: linear_ok_def)
  have it: "hist it = h" "current_index it = i" "\<not> ended it"
    using less.prems(1) by (auto simp: stepping_simps)
  have next_end: "step_end step (Suc j) < 2 ^ 64" "step_end step j < step_end step (Suc j)"
    using k(4,6) less.prems(6) step_end_Suc [OF k(4) less.prems(4)] by (simp_all add: unat_gt_0)
  obtain it1 where it1: "take_index linear_more it = Ok (it1, True)" "stepping h m step lp i j it1"
    using take_stepping [OF less.prems(1-3) k(2,5)] by blast
  have r: "iterator_round linear_pick linear_more it = pick_index linear_pick it1"
    using it(1,2) less.prems(3) by (intro round_counted [OF _ it1(1)]) simp
  note pick = pick_stepping [OF it1(2) k(1) less.prems(3) k(4) less.prems(4) next_end(1) less.prems(5)]
  show ?case
  proof (cases "end_bin h step j \<le> i \<or> i = length (counts h) - 1")
    case False
    obtain it' where it': "pick_index linear_pick it1 = Ok (Inl it')" "arriving h m step lp (Suc i) j it'"
      using pick(2) [OF False] by blast
    have "Suc i < length (counts h)" "Suc i \<le> end_bin h step j" using False less.prems(3) by auto
    then have "remaining h m step j acc (iterator_collect linear_pick linear_more it' acc)"
      using it'(2) less.prems(2,4,6) by (intro less.hyps) simp_all
    then show ?thesis using collect_round(1) [OF it(3), of linear_pick linear_more it' acc] r it'(1) by simp
  next
    case True
    obtain it' where it': "pick_index linear_pick it1 = Ok (Inr (it', Some (linear_item h step j)))" "stepping h m step i i (Suc j) it'"
      using pick(1) [OF True] by blast
    have i: "i = item_bin h step j" using True less.prems(3,5) by (auto simp: item_bin_def)
    have le: "i \<le> end_bin h step (Suc j)" using less.prems(5) end_bin_mono [of j "Suc j" h step] by simp
    have c: "iterator_collect linear_pick linear_more it acc = iterator_collect linear_pick linear_more it' (linear_item h step j # acc)"
      using r it'(1) by (intro collect_round(2) [OF it(3)]) simp
    have "remaining h m step (Suc j) (linear_item h step j # acc) (iterator_collect linear_pick linear_more it' (linear_item h step j # acc))"
    proof (cases "m \<le> i")
      case True
      then show ?thesis using it'(2) less.prems(3,4) i next_end(1) by (intro collect_linear_after [OF assms]) simp_all
    next
      case False
      then have "end_bin h step j \<le> i" using True k(3) by auto
      then have "step_end step j < capacity h" using less.prems(3) end_bin_less [OF k(1)] by (metis le_less_trans)
      then have "step_end step (Suc j) < capacity h + unat step" using step_end_Suc [OF k(4) less.prems(4)] by simp
      then show ?thesis
        using it'(2) False less.prems(3) le next_end by (intro less.hyps [of i "Suc j" i]) simp_all
    qed
    then show ?thesis unfolding c by (rule remaining_step)
  qed
qed


lemma item_bin_mono: "j \<le> k \<Longrightarrow> item_bin h step j \<le> item_bin h step k"
  unfolding item_bin_def using end_bin_mono [of j k h step] by (intro min.mono) simp_all

lemma sum_linear_items:
  fixes h :: "'c::len word histogram"
  assumes "sum_counts (counts h) < 2 ^ 64"
  shows "sum_list (map (\<lambda>j. unat (count_since_last (linear_item h step j))) [1..<Suc n])
    = (if n = 0 then 0 else up_to h (item_bin h step n))"
proof (induction n)
  case (Suc n)
  have u: "unat (count_since_last (linear_item h step (Suc n))) = up_to h (item_bin h step (Suc n)) - before h step (Suc n)"
  proof -
    have "up_to h (item_bin h step (Suc n)) < 2 ^ 64"
      using sum_counts_take_le [of _ "counts h"] assms unfolding up_to_def by (rule le_less_trans)
    then show ?thesis by (simp add: linear_item_def Let_def unat_of_nat_less del: of_nat_diff)
  qed
  have le: "up_to h (item_bin h step n) \<le> up_to h (item_bin h step (Suc n))"
    by (intro up_to_mono item_bin_mono) simp
  have "sum_list (map (\<lambda>j. unat (count_since_last (linear_item h step j))) [1..<Suc (Suc n)])
    = (if n = 0 then 0 else up_to h (item_bin h step n)) + (up_to h (item_bin h step (Suc n)) - before h step (Suc n))"
    using Suc.IH u by simp
  then show ?case using le by (simp add: before_def)
qed simp

lemma up_to_all:
  assumes "wf h" and "h_index h (unat (max_value h)) \<le> i"
  shows "up_to h i = sum_counts (counts h)"
proof -
  have "\<forall>c \<in> set (drop (Suc i) (counts h)). c = 0"
    using zero_beyond_max [OF assms(1)] assms(2) by (auto simp: in_set_conv_nth)
  then have "sum_counts (drop (Suc i) (counts h)) = 0" by (rule sum_counts_zero)
  then show ?thesis unfolding up_to_def by (metis add.right_neutral append_take_drop_id sum_counts_append)
qed

lemma linear_new_at: "0 < step \<Longrightarrow> linear_new h step = Ok (linear_at h step 1)"
proof -
  assume "0 < step"
  then have "1 \<le> step" by (simp add: word_one_le_iff word_gt_0)
  then have "of_nat (unat step - 1) = step - 1"
    by (metis of_nat_unat ucast_id unat_1 unat_sub_nat)
  then show ?thesis using \<open>0 < step\<close> by (simp add: linear_new_def linear_at_def step_end_def)
qed

section \<open>Properties\<close>

text \<open>
  C35. \<open>iter_linear\<close> with a step of at least 1, on a well-formed histogram with a sample above bin 0 and
  fewer than \<open>u64::MAX\<close> samples, the total being the sum of the counts, where no end of a step overflows:
  the range of the histogram ends in the lower half of \<open>u64\<close>, and two steps above it end by
  \<open>2 ^ 64\<close> (so not for a range up to \<open>u64::MAX\<close>). It ends, does not panic, and cuts the samples into steps:
  its \<open>j\<close>th item ends at the value \<open>j * step - 1\<close>, with the quantile of the samples up to the bin of that
  value and the count of the bins since the item before; the items go on until the last recorded bin is
  covered, and their counts add up to the total. (If all samples lie in bin 0 none of them is counted: the
  iterator takes that bin for picked.)
\<close>

theorem iter_linear_steps:
  fixes h :: "'c::len word histogram"
  assumes "wf h" and "exact h" and "LENGTH('c) \<le> 64" and "total_count h \<noteq> - 1" and "0 < h_index h (unat (hist_max h))"
    and "0 < step" and "2 * capacity h \<le> 2 ^ 64" and "capacity h + 2 * unat step \<le> 2 ^ 64"
  shows "\<exists>n. iter_linear h step = Some (Ok (map (linear_item h step) [1..<Suc n])) \<and>
    h_index h (unat (hist_max h)) \<le> item_bin h step n \<and> item_bin h step n < end_bin h step (Suc n) \<and>
    sum_list (map (\<lambda>j. unat (count_since_last (linear_item h step j))) [1..<Suc n]) = unat (total_count h)"
proof -
  let ?m = "h_index h (unat (max_value h))"
  note b = wfD(3) [OF assms(1)] and hm = h_index_hist_max [OF wfD(2) [OF assms(1)]]
  have "unat (total_count h) < u64_max"
    using assms(4) unat_le_u64_max [of "total_count h"] by (simp add: eq_minus_1_iff)
  then have total: "unat (total_count h) = sum_counts (counts h)" "sum_counts (counts h) < 2 ^ 64"
    using assms(2) by (auto simp: exact_def u64_max_def min_def split: if_splits)
  have m: "?m < length (counts h)" using wfD(5) [OF assms(1)] b by (intro bins.index_less)
  have ok: "linear_ok h ?m step" using b assms(3,6-8) m total(2) by (simp add: linear_ok_def)
  let ?it = "scan_state h ?m 0 (linear_at h step 1) 0 (running h 0) 0 True"
  have "arriving h ?m step 0 0 1 ?it" by (simp add: arriving_def untallied_def uncounted_def scan_state_def before_def)
  moreover have "step_end step 1 < capacity h + unat step"
  proof -
    have "0 < unat step" using assms(6) by (simp add: word_less_nat_alt)
    then show ?thesis unfolding step_end_def by linarith
  qed
  ultimately have "remaining h ?m step 1 [] (iterator_collect linear_pick linear_more ?it [])"
    using assms(5) m hm by (intro collect_linear [where lp = 0 and i = 0, OF ok]) auto
  moreover have "iter_linear h step = iterator_collect linear_pick linear_more ?it []"
    by (simp add: iter_linear_def linear_new_at [OF assms(6)] iterator_new_scan [OF assms(1)])
  ultimately obtain n where n: "iter_linear h step = Some (Ok (map (linear_item h step) [1..<Suc n]))"
    "?m \<le> item_bin h step n" "item_bin h step n < end_bin h step (Suc n)"
    unfolding remaining_def by auto
  have "n \<noteq> 0" using n(2) assms(5) hm by (cases n) (auto simp: item_bin_def end_bin_def step_end_def bin_index_def bin_bucket_def bin_sub_def)
  then have "sum_list (map (\<lambda>j. unat (count_since_last (linear_item h step j))) [1..<Suc n]) = unat (total_count h)"
    unfolding sum_linear_items [OF total(2)] using up_to_all [OF assms(1) n(2)] total(1) by simp
  then show ?thesis using n hm by auto
qed

theorem iter_linear_steps_witness:
  "\<exists>n. iter_linear loaded 7 = Some (Ok (map (linear_item loaded 7) [1..<Suc n])) \<and>
    h_index loaded (unat (hist_max loaded)) \<le> item_bin loaded 7 n \<and> item_bin loaded 7 n < end_bin loaded 7 (Suc n) \<and>
    sum_list (map (\<lambda>j. unat (count_since_last (linear_item loaded 7 j))) [1..<Suc n]) = unat (total_count loaded)"
proof -
  have "total_count loaded \<noteq> - 1" using loaded_facts(3) by (auto simp: u64_max_def)
  then show ?thesis
    by (intro iter_linear_steps [OF loaded_facts(1,2) _ _ h_index_hist_max_loaded]) (simp_all add: loaded_facts(4))
qed

end
