(* ===== verification/Logarithmic.thy ===== *)
theory Logarithmic
  imports Linear
begin

text \<open>
  The iteration by logarithmic steps (\<open>iterators/log.rs\<close> with \<open>HistogramIterator::next\<close>): the ends of
  the ranges grow by a factor, as doubles.
\<close>

definition iter_log :: "'c::len word histogram \<Rightarrow> u64 \<Rightarrow> f64 \<Rightarrow> (unit, 'c word iteration_value list) res option" where
  "iter_log h start base =
     (case bind_res (log_new h start base) (iterator_new h) of
        Ok it \<Rightarrow> iterator_collect log_pick log_more it []
      | Err e \<Rightarrow> Some (Err e)
      | Panic \<Rightarrow> Some Panic)"

section \<open>The levels\<close>

text \<open>
  A level is a double of at least 1. Below \<open>2 ^ 64\<close> there are finitely many of them; above, the end of
  the range has saturated.
\<close>

definition level :: "f64 \<Rightarrow> bool" where
  "level L \<longleftrightarrow> (case L of Fin x \<Rightarrow> 1 \<le> x \<and> (double x \<or> 2 ^ 64 \<le> x) | PosInf \<Rightarrow> True | _ \<Rightarrow> False)"

definition levels_left :: "f64 \<Rightarrow> nat" where
  "levels_left L = (case L of Fin x \<Rightarrow> if x < 2 ^ 64 then Suc (nat \<lfloor>(2 ^ 64 - x) * 2 ^ 152\<rfloor>) else 0 | _ \<Rightarrow> 0)"

lemma double_grows:
  assumes "double x" and "1 \<le> x" and "1 + 2 powi (- 52) \<le> b" and "rounds (x * b) y"
  shows "x < y"
proof (rule ccontr)
  assume "\<not> x < y"
  have x: "0 < x" and b: "0 < b" and "x * 1 \<le> x * b"
    using assms(2,3) by (auto intro: less_le_trans [rotated] mult_left_mono order_trans [rotated])
  then have "x \<le> y" using roundsD(4) [OF assms(4,1)] by simp
  with \<open>\<not> x < y\<close> have y: "y = x" by simp
  let ?e = "flog2 x"
  note f = flog2_bounds [OF x]
  have e: "0 \<le> ?e" using f(2) assms(2) powi_less_imp_less [of 0 "?e + 1"] by simp
  show False
  proof (cases "2 powi (?e + 1) \<le> x * b")
    case True
    then have "2 powi (?e + 1) \<le> y" using roundsD(6) [OF assms(4), of "?e + 1"] e by simp
    then show False using f(2) y by simp
  next
    case False
    have xb: "0 < x * b" using x b by simp
    have "flog2 (x * b) = ?e" using False f(1) \<open>x * 1 \<le> x * b\<close> by (intro flog2_eqI [OF xb]) simp_all
    then have q: "quantum (x * b) = quantum x" by (simp only: quantum_def)
    let ?q = "quantum x"
    have q1: "?q = 2 powi (?e - 52)" using e by (simp add: quantum_def max_def)
    have "x = of_int (rne_rat (x / ?q)) * ?q" using assms(1) x by (simp add: double_def round_val_def)
    then obtain n where n: "x = of_int n * ?q" by blast
    have "2 powi (?e - 52) = 2 powi ?e * (2 powi (- 52) :: rat)"
      by (subst power_int_add [symmetric]) simp_all
    also have "\<dots> \<le> x * 2 powi (- 52)" using f(1) by (rule mult_right_mono) simp
    also have "\<dots> \<le> x * (b - 1)" using assms(3) x by (intro mult_left_mono) simp_all
    finally have "?q \<le> x * b - x" by (simp add: q1 algebra_simps)
    then have "of_int (n + 1) * ?q \<le> x * b" using n by (simp add: algebra_simps)
    then have "of_int (n + 1) \<le> x * b / ?q" by (simp add: le_divide_eq)
    then have "n + 1 \<le> rne_rat (x * b / ?q)" using rne_rat_mono rne_rat_of_int by metis
    then have "of_int (n + 1) * ?q \<le> round_val (x * b)"
      unfolding round_val_def q by (intro mult_right_mono) (simp_all only: of_int_le_iff less_imp_le quantum_pos)
    moreover have "round_val (x * b) = y"
      using roundsD(1) [OF assms(4)] by (simp add: f64_round_pos [OF xb] split: if_splits)
    ultimately have "of_int (n + 1) * ?q \<le> x" using y by simp
    then show False using n quantum_pos [of x] by (simp add: algebra_simps)
  qed
qed

lemma levels_left_less:
  assumes "double x" and "double y" and "x < y" and "y < 2 ^ 64"
  shows "levels_left (Fin y) < levels_left (Fin x)"
proof -
  obtain n k where n: "x = of_int n * 2 powi (- 152)" and k: "y = of_int k * 2 powi (- 152)"
    using double_grid assms(1,2) by metis
  have e: "(2 ^ 64 - of_int j * 2 powi (- 152)) * 2 ^ 152 = (of_int (2 ^ 216 - j) :: rat)" for j
    by (simp add: power_int_def field_simps power_divide)
  have "of_int n * 2 powi (- 152) < (of_int k * 2 powi (- 152) :: rat)" using assms(3) n k by simp
  then have "of_int n < (of_int k :: rat)" by (rule mult_right_less_imp_less) simp
  then have "n < k" by simp
  have "of_int k * 2 powi (- 152) * 2 ^ 152 \<le> (2 ^ 64 * 2 ^ 152 :: rat)" using assms(4) k by (intro mult_right_mono) simp_all
  then have "of_int k \<le> (of_int (2 ^ 216) :: rat)" by (simp add: power_int_def power_divide)
  then have "k \<le> 2 ^ 216" by (simp only: of_int_le_iff)
  with \<open>n < k\<close> have "nat (2 ^ 216 - k) < nat (2 ^ 216 - n)" by simp
  then show ?thesis using assms(3,4) unfolding levels_left_def n k f64.case e floor_of_int by simp
qed

lemma f64_as_u64_mono:
  assumes "0 \<le> x" and "x \<le> y"
  shows "f64_as_u64 (Fin x) \<le> f64_as_u64 (Fin y)"
proof -
  have y: "0 \<le> y" using assms by simp
  have "nat \<lfloor>x\<rfloor> \<le> nat \<lfloor>y\<rfloor>" using assms(2) by (intro nat_mono floor_mono)
  moreover have "nat \<lfloor>x\<rfloor> \<le> u64_max" if "x < of_nat u64_max" using that by linarith
  ultimately show ?thesis
    using assms(2) unfolding word_le_nat_alt unat_f64_as_u64_Fin [OF assms(1)] unat_f64_as_u64_Fin [OF y] by auto
qed

lemma f64_as_u64_huge: "level L \<Longrightarrow> levels_left L = 0 \<Longrightarrow> f64_as_u64 L = - 1"
proof -
  assume L: "level L" "levels_left L = 0"
  have "of_nat u64_max \<le> (2 ^ 64 :: rat)" by (simp add: u64_max_def)
  moreover have "(1 :: rat) < 2 ^ 64" by simp
  ultimately show ?thesis using L by (cases L) (auto simp: levels_left_def level_def not_less split: if_splits)
qed

lemma level_pos: "level L \<Longrightarrow> 1 \<le> unat (f64_as_u64 L)"
proof (cases L)
  case (Fin x)
  assume "level L"
  then have "f64_as_u64 (Fin 1) \<le> f64_as_u64 (Fin x)" using Fin by (intro f64_as_u64_mono) (simp_all add: level_def)
  moreover have "f64_as_u64 (Fin 1) = 1" by (simp add: u64_max_def)
  ultimately show ?thesis using Fin by (simp add: word_le_nat_alt)
qed (simp_all add: level_def u64_max_def)

lemma next_level:
  assumes "level L" and "1 + 2 powi (- 52) \<le> b"
  defines "L' \<equiv> f64_mul L (Fin b)"
  shows "level L'" and "levels_left L' < levels_left L \<or> levels_left L = 0 \<and> levels_left L' = 0"
    and "f64_as_u64 L \<le> f64_as_u64 L'"
proof -
  have b: "1 \<le> b" using assms(2) by (rule order_trans [rotated]) simp
  have "level L' \<and> (levels_left L' < levels_left L \<or> levels_left L = 0 \<and> levels_left L' = 0) \<and> f64_as_u64 L \<le> f64_as_u64 L'"
  proof (cases L)
    case (Fin x)
    then have x: "1 \<le> x" "double x \<or> 2 ^ 64 \<le> x" using assms(1) by (simp_all add: level_def)
    have "x * 1 \<le> x * b" using b x(1) by (intro mult_left_mono) simp_all
    then have xb: "x \<le> x * b" "0 < x * b" "1 \<le> x * b" using x(1) by linarith+
    have L': "L' = (if 2 ^ 1024 \<le> round_val (x * b) then PosInf else Fin (round_val (x * b)))"
      using Fin xb(2) by (simp add: L'_def f64_round_pos)
    show ?thesis
    proof (cases "2 ^ 64 \<le> x * b")
      case True
      then have "2 ^ 64 \<le> round_val (x * b)" using round_val_power_bounds(1) [OF xb(2), of 64] by simp
      then have huge: "level L'" "levels_left L' = 0" using L' by (auto simp: level_def levels_left_def intro: order_trans [rotated])
      then show ?thesis using f64_as_u64_huge [OF huge] by (auto simp: gr0_conv_Suc)
    next
      case False
      then have less: "x * b < 2 ^ 64" "x < 2 ^ 64" using xb(1) by linarith+
      have "2 powi (- 100) \<le> (1 :: rat)" by (simp add: power_int_def power_divide)
      then have "2 powi (- 100) \<le> x * b" using xb(3) by linarith
      moreover have "x * b < 2 ^ 99" using less(1) by (rule less_le_trans) simp
      ultimately obtain y where y: "rounds (x * b) y" using rounds_exists by blast
      note r = roundsD [OF y]
      have dx: "double x" using x(2) less(2) by simp
      have grow: "x < y" by (rule double_grows [OF dx x(1) assms(2) y])
      have Ly: "L' = Fin y" using Fin r(1) by (simp add: L'_def)
      have "level L'" using Ly grow x(1) r(2) by (simp add: level_def)
      moreover have "levels_left L' < levels_left L"
      proof (cases "y < 2 ^ 64")
        case True
        then show ?thesis using levels_left_less [OF dx r(2) grow] Fin Ly by simp
      next
        case False
        then show ?thesis using less(2) Fin Ly by (simp add: levels_left_def)
      qed
      moreover have "f64_as_u64 L \<le> f64_as_u64 L'"
        unfolding Fin Ly using grow x(1) by (intro f64_as_u64_mono) simp_all
      ultimately show ?thesis by blast
    qed
  qed (use assms(1) b in \<open>auto simp: level_def levels_left_def L'_def f64_sign_def\<close>)
  then show "level L'" "levels_left L' < levels_left L \<or> levels_left L = 0 \<and> levels_left L' = 0"
    "f64_as_u64 L \<le> f64_as_u64 L'" by blast+
qed

section \<open>The picker at a level\<close>

definition log_at :: "'c::len word histogram \<Rightarrow> rat \<Rightarrow> f64 \<Rightarrow> 'c word log_iter" where
  "log_at h b L = \<lparr>log_hist = h, next_value_reporting_level = L, log_base = Fin b,
     log_lowest = lowest_equivalent h (f64_as_u64 L - 1), log_highest = f64_as_u64 L - 1\<rparr>"

definition level_bin :: "'c::len word histogram \<Rightarrow> f64 \<Rightarrow> nat" where
  "level_bin h L = h_index h (unat (f64_as_u64 L - 1))"

lemma lowest_equivalent_cmp:
  fixes h :: "'c::len word histogram"
  assumes "bins_ok h" and "i < length (counts h)"
  shows "lowest_equivalent h v \<le> of_nat (bin_value (um h) (hm h) i) \<longleftrightarrow> h_index h (unat v) \<le> i"
    and "lowest_equivalent h v < of_nat (bin_value (um h) (hm h) i) \<longleftrightarrow> h_index h (unat v) < i"
proof -
  note l = bins_okD(1) [OF assms(1)]
  have u: "unat (of_nat (bin_value (um h) (hm h) i) :: u64) = bin_value (um h) (hm h) i"
    using value_for_bins(2) [OF assms] by (intro unat_of_nat_less) simp
  have le: "bin_low (um h) (hm h) (unat v) \<le> bin_value (um h) (hm h) i \<longleftrightarrow> bin_index (um h) (hm h) (unat v) \<le> i"
    unfolding bin_value_index [symmetric] bin_value_le_iff by (simp add: bin_index_value)
  have less: "bin_low (um h) (hm h) (unat v) < bin_value (um h) (hm h) i \<longleftrightarrow> bin_index (um h) (hm h) (unat v) < i"
    unfolding bin_value_index [symmetric] not_le [symmetric] bin_value_le_iff by (simp add: bin_index_value)
  show "lowest_equivalent h v \<le> of_nat (bin_value (um h) (hm h) i) \<longleftrightarrow> h_index h (unat v) \<le> i"
    using le by (simp add: word_le_nat_alt unat_lowest_equivalent [OF l] u h_index_eq [OF l unat_u64_less])
  show "lowest_equivalent h v < of_nat (bin_value (um h) (hm h) i) \<longleftrightarrow> h_index h (unat v) < i"
    using less by (simp add: word_less_nat_alt unat_lowest_equivalent [OF l] u h_index_eq [OF l unat_u64_less])
qed

lemma log_pick_at:
  fixes h :: "'c::len word histogram"
  assumes "bins_ok h" and "i < length (counts h)"
  shows "log_pick (log_at h b L) i r c =
    (if level_bin h L \<le> i \<or> i = length (counts h) - 1
     then Ok (log_at h b (f64_mul L (Fin b)), Some (pick_metadata_new None (Some (f64_as_u64 L - 1))))
     else Ok (log_at h b L, None))"
proof -
  have last: "last_index h = (Ok (length (counts h) - 1) :: (unit, nat) res)"
    using length_counts_pos [OF assms(1)] by (simp add: last_index_def distinct_values_def)
  show ?thesis
    by (simp add: log_pick_def log_at_def value_for_bins(1) [OF assms] lowest_equivalent_cmp(1) [OF assms] level_bin_def last Let_def)
qed

lemma log_more_at:
  fixes h :: "'c::len word histogram"
  assumes "bins_ok h" and "i < length (counts h)"
  shows "log_more (log_at h b L) i = Ok (log_at h b L, h_index h (unat (f64_as_u64 L)) < i)"
  by (simp add: log_more_def log_at_def value_for_bins(1) [OF assms] lowest_equivalent_cmp(2) [OF assms])

text \<open>The two greatest values of \<open>u64\<close> share a bin, so that a saturated range ends in the last possible bin.\<close>

lemma top_bin:
  assumes "layout_ok h"
  shows "h_index h (unat (v :: u64)) \<le> h_index h (unat (- 2 :: u64))"
proof -
  note l = layout_okD [OF assms]
  let ?i = "bin_index (um h) (hm h) u64_max"
  have "bit_len u64_max \<le> 64" "63 < bit_len u64_max"
    unfolding bit_len_le_iff less_bit_len_iff by (simp_all add: u64_max_def)
  then have "bit_len u64_max = 64" by simp
  then have "bin_width (um h) (hm h) u64_max = 2 ^ (63 - hm h)"
    using l(1,2) by (simp add: bin_width_def bin_bucket_def)
  also have "63 - hm h = Suc (62 - hm h)" using l(1) by simp
  finally have "even (bin_low (um h) (hm h) u64_max)" by (simp add: bin_low_def)
  moreover have "odd u64_max" by (simp add: u64_max_def)
  ultimately have "bin_low (um h) (hm h) u64_max \<noteq> u64_max" by metis
  then have "bin_low (um h) (hm h) u64_max \<le> u64_max - 1" using bin_low_le [of "um h" "hm h" u64_max] by simp
  then have "?i \<le> bin_index (um h) (hm h) (u64_max - 1)" unfolding bin_value_index [symmetric] bin_value_le_iff .
  moreover have "bin_index (um h) (hm h) (unat v) \<le> ?i" by (intro bin_index_mono unat_le_u64_max)
  moreover have u: "unat (- 2 :: u64) = u64_max - 1" by (simp add: u64_max_def)
  have "h_index h (unat (- 2 :: u64)) = bin_index (um h) (hm h) (u64_max - 1)"
    unfolding u [symmetric] by (rule h_index_eq [OF assms unat_u64_less])
  ultimately show ?thesis unfolding h_index_eq [OF assms unat_u64_less, of v] by linarith
qed

section \<open>The whole iteration\<close>

definition log_ok :: "'c::len word histogram \<Rightarrow> nat \<Rightarrow> rat \<Rightarrow> bool" where
  "log_ok h m b \<longleftrightarrow> bins_ok h \<and> LENGTH('c) \<le> 64 \<and> m < length (counts h) \<and> (\<exists>v. m = h_index h (unat (v :: u64))) \<and>
     sum_counts (counts h) < 2 ^ 64 \<and> (\<forall>i \<ge> m. up_to h i = sum_counts (counts h)) \<and> 1 + 2 powi (- 52) \<le> b"

text \<open>
  The items still to come, when those so far have counted \<open>n\<close> and the next range ends at \<open>v\<close> or beyond:
  their ends do not go down, and they count what is left.
\<close>

definition completes ::
  "'c::len word histogram \<Rightarrow> nat \<Rightarrow> u64 \<Rightarrow> 'c word iteration_value list
    \<Rightarrow> (unit, 'c word iteration_value list) res option \<Rightarrow> bool" where
  "completes h n v acc r \<longleftrightarrow>
     (\<exists>vs. r = Some (Ok (rev acc @ vs)) \<and> sorted (v # map value_iterated_to vs) \<and>
        n + sum_list (map (\<lambda>v. unat (count_since_last v)) vs) = sum_counts (counts h))"

lemma completes_step:
  assumes "completes h (n + unat (count_since_last x)) w (x # acc) r" and "value_iterated_to x = v" and "v \<le> w"
  shows "completes h n v acc r"
proof -
  obtain vs where "r = Some (Ok (rev (x # acc) @ vs))" "sorted (w # map value_iterated_to vs)"
    "n + unat (count_since_last x) + sum_list (map (\<lambda>v. unat (count_since_last v)) vs) = sum_counts (counts h)"
    using assms(1) unfolding completes_def by blast
  then show ?thesis
    unfolding completes_def using assms(2,3) by (intro exI [of _ "x # vs"]) (auto intro: order_trans)
qed

lemma log_ends_step: "level L \<Longrightarrow> f64_as_u64 L \<le> f64_as_u64 L' \<Longrightarrow> f64_as_u64 L - 1 \<le> f64_as_u64 L' - 1"
proof -
  assume "level L" and le: "f64_as_u64 L \<le> f64_as_u64 L'"
  then have "1 \<le> unat (f64_as_u64 L)" "1 \<le> unat (f64_as_u64 L')"
    using level_pos order_trans by (auto simp: word_le_nat_alt)
  then show ?thesis
    using le by (simp add: word_le_nat_alt unat_sub_nat word_one_le_iff)
qed

text \<open>One pick: the item, and the iteration at the next level.\<close>

lemma pick_log:
  fixes h :: "'c::len word histogram"
  assumes "tallied h m lp i (log_at h b L) n it" and "bins_ok h" and "i < length (counts h)"
  shows "level_bin h L \<le> i \<or> i = length (counts h) - 1 \<Longrightarrow>
      \<exists>it' x. pick_index log_pick it = Ok (Inr (it', Some x)) \<and> value_iterated_to x = f64_as_u64 L - 1 \<and>
        n + unat (count_since_last x) = up_to h i \<and> tallied h m i i (log_at h b (f64_mul L (Fin b))) (up_to h i) it'"
    and "\<not> (level_bin h L \<le> i \<or> i = length (counts h) - 1) \<Longrightarrow>
      \<exists>it'. pick_index log_pick it = Ok (Inl it') \<and> untallied h m lp (Suc i) (log_at h b L) n it'"
proof -
  note p = log_pick_at [OF assms(2,3)]
  have s: "counted h m lp i (log_at h b L) it" "unat (count_since_last_iteration it) + n = up_to h i"
    using assms(1) by (simp_all add: tallied_def)
  show "\<exists>it' x. pick_index log_pick it = Ok (Inr (it', Some x)) \<and> value_iterated_to x = f64_as_u64 L - 1 \<and>
        n + unat (count_since_last x) = up_to h i \<and> tallied h m i i (log_at h b (f64_mul L (Fin b))) (up_to h i) it'"
    if e: "level_bin h L \<le> i \<or> i = length (counts h) - 1"
    using s e assms(3) p
    by (auto simp: counted_def tallied_def pick_index_def Let_def pick_metadata_new_def count_at_index_def)
  show "\<exists>it'. pick_index log_pick it = Ok (Inl it') \<and> untallied h m lp (Suc i) (log_at h b L) n it'"
    if e: "\<not> (level_bin h L \<le> i \<or> i = length (counts h) - 1)"
    using s e p by (auto simp: counted_def uncounted_def untallied_def pick_index_def up_to_def)
qed

lemma index_le_top:
  fixes h :: "'c::len word histogram"
  assumes "bins_ok h" and "i < length (counts h)"
  shows "i \<le> h_index h (unat (- 1 :: u64))"
proof -
  note l = bins_okD(1) [OF assms(1)]
  let ?v = "of_nat (bin_value (um h) (hm h) i) :: u64"
  have u: "unat ?v = bin_value (um h) (hm h) i" using value_for_bins(2) [OF assms] by (intro unat_of_nat_less) simp
  have "h_index h (unat ?v) = i" using h_index_eq [OF l unat_u64_less, of ?v] by (simp only: u bin_index_value)
  moreover have "h_index h (unat ?v) \<le> h_index h (unat (- 1 :: u64))" by (rule h_index_u64_mono [OF l]) simp
  ultimately show ?thesis by simp
qed

text \<open>At the last recorded bin or beyond, with nothing more to yield.\<close>

lemma collect_log_end:
  fixes h :: "'c::len word histogram"
  assumes "log_ok h m b" and "tallied h m i i (log_at h b L) n it" and "count_since_last_iteration it = 0" and "m \<le> i"
    and "i < length (counts h)" and "\<not> h_index h (unat (f64_as_u64 L)) < i"
  shows "completes h n v acc (iterator_collect log_pick log_more it acc)"
proof -
  have k: "bins_ok h" and all: "up_to h i = sum_counts (counts h)" using assms(1,4) by (auto simp: log_ok_def)
  have it: "hist it = h" "current_index it = i" "\<not> ended it" "last_picked_index it = i" "max_value_index it = m"
    "picker it = log_at h b L" "n = up_to h i"
    using assms(2,3) by (auto simp: tallied_def counted_def)
  have "take_index log_more it = Ok (it, False)"
    using it assms(4,6) log_more_at [OF k assms(5)] by (simp add: take_index_def)
  then have "iterator_round log_pick log_more it = Ok (Inr (it\<lparr>ended := True\<rparr>, None))"
    using it(1,2) assms(5) by (simp add: iterator_round_def distinct_values_def)
  then show ?thesis
    using collect_round(3) [OF it(3)] it(7) all unfolding completes_def by (intro exI [of _ "[]"]) simp
qed

text \<open>A pick above the representable levels is the last one.\<close>

lemma last_pick_log:
  fixes h :: "'c::len word histogram"
  assumes "log_ok h m b" and "level L" and "levels_left L = 0" and "i < length (counts h)"
    and "level_bin h L \<le> i \<or> i = length (counts h) - 1"
  shows "m \<le> i" and "\<not> h_index h (unat (f64_as_u64 (f64_mul L (Fin b)))) < i"
proof -
  have k: "bins_ok h" "m < length (counts h)" "1 + 2 powi (- 52) \<le> b" using assms(1) by (auto simp: log_ok_def)
  obtain v :: u64 where m: "m = h_index h (unat v)" using assms(1) by (auto simp: log_ok_def)
  have "level_bin h L = h_index h (unat (- 2 :: u64))"
    using f64_as_u64_huge [OF assms(2,3)] by (simp add: level_bin_def)
  then have "m \<le> level_bin h L" using top_bin [OF bins_okD(1) [OF k(1)], of v] m by simp
  then show "m \<le> i" using assms(5) k(2) by auto
  note nxt = next_level [OF assms(2) k(3)]
  have "f64_as_u64 (f64_mul L (Fin b)) = - 1" using nxt(2) assms(3) by (intro f64_as_u64_huge [OF nxt(1)]) simp
  then show "\<not> h_index h (unat (f64_as_u64 (f64_mul L (Fin b)))) < i" using index_le_top [OF k(1) assms(4)] by simp
qed

text \<open>Once the last recorded bin is picked, the picker goes on only where it picks the same bin again.\<close>

lemma more_log:
  fixes h :: "'c::len word histogram"
  assumes "bins_ok h" and "tallied h m i i (log_at h b L) n it" and "m \<le> i" and "i < length (counts h)" and "level L"
    and "h_index h (unat (f64_as_u64 L)) < i"
  shows "take_index log_more it = Ok (it, True)" and "level_bin h L \<le> i"
proof -
  show "take_index log_more it = Ok (it, True)"
    using assms(2,3,6) log_more_at [OF assms(1,4), of b L] by (auto simp: take_index_def tallied_def counted_def)
  have "f64_as_u64 L - 1 \<le> f64_as_u64 L"
    using level_pos [OF assms(5)] by (simp add: word_le_nat_alt unat_sub_nat word_one_le_iff)
  then have "level_bin h L \<le> h_index h (unat (f64_as_u64 L))"
    unfolding level_bin_def by (rule h_index_u64_mono [OF bins_okD(1) [OF assms(1)]])
  then show "level_bin h L \<le> i" using assms(6) by simp
qed

text \<open>A round that picks, given what follows from the next level on.\<close>

lemma collect_log_pick:
  fixes h :: "'c::len word histogram"
  assumes "log_ok h m b" and "level L" and "i < length (counts h)"
    and "hist it = h" and "current_index it = i" and "\<not> ended it"
    and "take_index log_more it = Ok (it1, True)" and "tallied h m lp i (log_at h b L) n it1"
    and "level_bin h L \<le> i \<or> i = length (counts h) - 1"
  defines "L' \<equiv> f64_mul L (Fin b)"
  assumes "\<And>it' x. tallied h m i i (log_at h b L') (n + unat (count_since_last x)) it'
      \<Longrightarrow> count_since_last_iteration it' = 0 \<Longrightarrow> levels_left L' < levels_left L
      \<Longrightarrow> completes h (n + unat (count_since_last x)) (f64_as_u64 L' - 1) (x # acc)
        (iterator_collect log_pick log_more it' (x # acc))"
  shows "completes h n (f64_as_u64 L - 1) acc (iterator_collect log_pick log_more it acc)"
proof -
  have k: "bins_ok h" "1 + 2 powi (- 52) \<le> b" using assms(1) by (auto simp: log_ok_def)
  note nxt = next_level [OF assms(2) k(2), folded L'_def]
  obtain it' x where p: "pick_index log_pick it1 = Ok (Inr (it', Some x))" "value_iterated_to x = f64_as_u64 L - 1"
    "n + unat (count_since_last x) = up_to h i" "tallied h m i i (log_at h b L') (up_to h i) it'"
    unfolding L'_def using pick_log(1) [OF assms(8) k(1) assms(3,9)] by blast
  have next_tallied: "tallied h m i i (log_at h b L') (n + unat (count_since_last x)) it'" unfolding p(3) by (rule p(4))
  have since: "count_since_last_iteration it' = 0" using p(4) by (simp add: tallied_def word_unat_eq_iff)
  have c: "iterator_collect log_pick log_more it acc = iterator_collect log_pick log_more it' (x # acc)"
    using p(1) assms(3-5) round_counted [of it, OF _ assms(7)] by (intro collect_round(2) [OF assms(6)]) simp
  have "completes h (n + unat (count_since_last x)) (f64_as_u64 L' - 1) (x # acc)
      (iterator_collect log_pick log_more it' (x # acc))"
  proof (cases "levels_left L = 0")
    case False
    then show ?thesis using nxt(2) by (intro assms(11) next_tallied since) auto
  next
    case True
    note last_pick = last_pick_log [OF assms(1,2) True assms(3,9), folded L'_def]
    show ?thesis by (intro collect_log_end [OF assms(1) next_tallied since last_pick(1) assms(3) last_pick(2)])
  qed
  then show ?thesis unfolding c L'_def by (rule completes_step [OF _ p(2) log_ends_step [OF assms(2) nxt(3) [unfolded L'_def]]])
qed

lemma collect_log:
  fixes h :: "'c::len word histogram"
  assumes "log_ok h m b"
  shows "lp < m \<and> (tallied h m lp i (log_at h b L) n it \<or> untallied h m lp i (log_at h b L) n it) \<or>
      m \<le> i \<and> lp = i \<and> tallied h m lp i (log_at h b L) n it \<and> count_since_last_iteration it = 0
    \<Longrightarrow> i < length (counts h) \<Longrightarrow> level L
    \<Longrightarrow> completes h n (f64_as_u64 L - 1) acc (iterator_collect log_pick log_more it acc)"
proof (induction "(length (counts h) - i) + levels_left L" arbitrary: lp i L n it acc rule: less_induct)
  case less
  have k: "bins_ok h" "LENGTH('c) \<le> 64" "sum_counts (counts h) < 2 ^ 64" "1 + 2 powi (- 52) \<le> b"
    using assms by (auto simp: log_ok_def)
  have it: "hist it = h" "current_index it = i" "\<not> ended it"
    using less.prems(1) by (auto simp: tallied_def untallied_def counted_def uncounted_def)
  have picked: "completes h n (f64_as_u64 L - 1) acc (iterator_collect log_pick log_more it acc)"
    if "take_index log_more it = Ok (it1, True)" "tallied h m lp i (log_at h b L) n it1"
      and "level_bin h L \<le> i \<or> i = length (counts h) - 1" for it1
    using less.prems(2) next_level(1) [OF less.prems(3) k(4)]
    by (intro collect_log_pick [OF assms less.prems(3,2) it that] less.hyps [of i "f64_mul L (Fin b)" i]) (auto simp: not_le)
  show ?case
  proof (cases "lp < m")
    case True
    then have a: "tallied h m lp i (log_at h b L) n it \<or> untallied h m lp i (log_at h b L) n it" using less.prems(1) by auto
    obtain it1 where it1: "take_index log_more it = Ok (it1, True)" "tallied h m lp i (log_at h b L) n it1"
      using take_tallied [OF a True less.prems(2) k(2,3)] by blast
    show ?thesis
    proof (cases "level_bin h L \<le> i \<or> i = length (counts h) - 1")
      case pick: True
      show ?thesis by (rule picked [OF it1 pick])
    next
      case False
      obtain it' where it': "pick_index log_pick it1 = Ok (Inl it')" "untallied h m lp (Suc i) (log_at h b L) n it'"
        using pick_log(2) [OF it1(2) k(1) less.prems(2) False] by blast
      have "Suc i < length (counts h)" using False less.prems(2) by auto
      then have "completes h n (f64_as_u64 L - 1) acc (iterator_collect log_pick log_more it' acc)"
        using it'(2) True less.prems(3) by (intro less.hyps [of "Suc i" L lp]) auto
      moreover have "iterator_collect log_pick log_more it acc = iterator_collect log_pick log_more it' acc"
        using it'(1) it(1,2) less.prems(2) round_counted [of it, OF _ it1(1)] by (intro collect_round(1) [OF it(3)]) simp
      ultimately show ?thesis by simp
    qed
  next
    case False
    then have a: "m \<le> i" "lp = i" "tallied h m i i (log_at h b L) n it" "count_since_last_iteration it = 0"
      using less.prems(1) by auto
    show ?thesis
    proof (cases "h_index h (unat (f64_as_u64 L)) < i")
      case True
      note more = more_log [OF k(1) a(3,1) less.prems(2,3) True]
      show ?thesis using more(2) a(2,3) by (intro picked [OF more(1)]) auto
    next
      case stop: False
      show ?thesis by (intro collect_log_end [OF assms a(3,4,1) less.prems(2) stop])
    qed
  qed
qed

lemma level_units:
  assumes "0 < (units :: u64)" and "unat units \<le> 2 ^ 53"
  shows "level (u64_as_f64 units)" and "f64_as_u64 (u64_as_f64 units) = units"
proof -
  define n where "n = unat units"
  have n: "0 < n" "n \<le> 2 ^ 53" using assms by (simp_all add: n_def word_less_nat_alt)
  then have "round_val (of_nat n) = of_nat n" using quantum_nat [of n] by (auto intro: round_val_multiple)
  moreover have r: "(1 :: rat) \<le> of_nat n" "of_nat n \<le> (2 ^ 53 :: rat)"
    using n by (simp_all add: Suc_le_eq)
  moreover have "2 powi (- 100) \<le> (1 :: rat)" by (simp add: power_int_def power_divide)
  moreover have "(2 ^ 53 :: rat) < 2 ^ 100" by simp
  ultimately have "double (of_nat n)" unfolding double_def by linarith
  moreover have L: "u64_as_f64 units = Fin (of_nat n)" using assms(2) by (simp only: u64_as_f64_exact n_def)
  ultimately show "level (u64_as_f64 units)" using r(1) by (simp add: level_def)
  have "(2 ^ 53 :: rat) < of_nat u64_max" by (simp add: u64_max_def)
  then have "\<not> of_nat u64_max \<le> (of_nat n :: rat)" using r(2) by linarith
  then have "unat (f64_as_u64 (Fin (of_nat n))) = n" by (subst unat_f64_as_u64_Fin) simp_all
  then show "f64_as_u64 (u64_as_f64 units) = units" unfolding L by (simp only: n_def word_unat_eq_iff)
qed

section \<open>Properties\<close>

text \<open>
  C36. \<open>iter_log\<close>, for any finite base above 1 (the least double above 1 is \<open>1 + 2 ^ -52\<close>) and a first range of 1
  to \<open>2 ^ 53\<close> values (which a double represents exactly), on a well-formed histogram with a sample above
  bin 0 and fewer than \<open>u64::MAX\<close> samples, the total being the sum of the counts: it ends and does not
  panic, the ends of the ranges start from that of the given first range and do not go down, and the counts
  of the items add up to the total. (If all samples lie in bin 0 none of them is counted.)
\<close>

theorem iter_log_ends:
  fixes h :: "'c::len word histogram"
  assumes "wf h" and "exact h" and "LENGTH('c) \<le> 64" and "total_count h \<noteq> - 1" and "0 < h_index h (unat (hist_max h))"
    and "0 < units" and "unat units \<le> 2 ^ 53" and "1 + 2 powi (- 52) \<le> base"
  shows "\<exists>vs. iter_log h units (Fin base) = Some (Ok vs) \<and> sorted ((units - 1) # map value_iterated_to vs) \<and>
    sum_list (map (\<lambda>v. unat (count_since_last v)) vs) = unat (total_count h)"
proof -
  let ?m = "h_index h (unat (max_value h))" and ?L = "u64_as_f64 units"
  note b = wfD(3) [OF assms(1)] and hm = h_index_hist_max [OF wfD(2) [OF assms(1)]]
  have "unat (total_count h) < u64_max"
    using assms(4) unat_le_u64_max [of "total_count h"] by (simp add: eq_minus_1_iff)
  then have total: "unat (total_count h) = sum_counts (counts h)" "sum_counts (counts h) < 2 ^ 64"
    using assms(2) by (auto simp: exact_def u64_max_def min_def split: if_splits)
  have m: "?m < length (counts h)" using wfD(5) [OF assms(1)] b by (intro bins.index_less)
  have ok: "log_ok h ?m base"
    using b assms(3,8) m total(2) up_to_all [OF assms(1)] by (auto simp: log_ok_def)
  note L = level_units(1) [OF assms(6,7)] and lu = level_units(2) [OF assms(6,7)]
  have "1 < base" using assms(8) by (rule less_le_trans [rotated]) simp
  then have new: "log_new h units (Fin base) = Ok (log_at h base ?L)"
    using assms(6,7) by (simp add: log_new_def log_at_def lu)
  let ?it = "scan_state h ?m 0 (log_at h base ?L) 0 (running h 0) 0 True"
  have "untallied h ?m 0 0 (log_at h base ?L) 0 ?it" by (simp add: untallied_def uncounted_def scan_state_def)
  moreover have "0 < length (counts h)" using m by linarith
  ultimately have "completes h 0 (units - 1) [] (iterator_collect log_pick log_more ?it [])"
    using collect_log [OF ok, of 0 0 ?L 0 ?it "[]"] assms(5) hm m L by (auto simp: lu)
  moreover have "iter_log h units (Fin base) = iterator_collect log_pick log_more ?it []"
    by (simp add: iter_log_def new iterator_new_scan [OF assms(1)])
  ultimately show ?thesis using total(1) by (auto simp: completes_def)
qed

theorem iter_log_ends_witness:
  "\<exists>vs. iter_log loaded 2 (Fin 2) = Some (Ok vs) \<and> sorted ((2 - 1) # map value_iterated_to vs) \<and>
    sum_list (map (\<lambda>v. unat (count_since_last v)) vs) = unat (total_count loaded)"
proof -
  have "total_count loaded \<noteq> - 1" using loaded_facts(3) by (auto simp: u64_max_def)
  moreover have "1 + 2 powi (- 52) \<le> (2 :: rat)" by (simp add: power_int_def power_divide)
  ultimately show ?thesis
    by (intro iter_log_ends [OF loaded_facts(1,2) _ _ h_index_hist_max_loaded]) simp_all
qed

end
