(* ===== verification/Evolution.thy ===== *)
theory Evolution
  imports Correction
begin

text \<open>
  What every operation that changes a histogram keeps, whether it succeeds or fails: the
  invariant, the mapping of values to bins, the resizing mode, and the size of a histogram that
  may not grow. Several histograms that start from one configuration stay compatible by it, which
  is what merging them relies on (\<open>sync/mod.rs\<close>).
\<close>

section \<open>Evolution of a histogram\<close>

definition evolves :: "'c::len word histogram \<Rightarrow> 'c word histogram \<Rightarrow> bool" where
  "evolves h h' \<longleftrightarrow> wf h' \<and> h_index h' = h_index h \<and> auto_resize h' = auto_resize h \<and>
     capacity h \<le> capacity h' \<and> (\<not> auto_resize h \<longrightarrow> capacity h' = capacity h)"

lemma evolves_refl: "wf h \<Longrightarrow> evolves h h"
  by (simp add: evolves_def)

lemma evolves_trans [trans]: "evolves f g \<Longrightarrow> evolves g h \<Longrightarrow> evolves f h"
  by (auto simp: evolves_def)

lemma evolves_wf: "evolves h h' \<Longrightarrow> wf h'"
  by (simp add: evolves_def)

text \<open>The histogram a call leaves behind, if it returns.\<close>

primrec left_behind :: "('e \<times> 'h, 'h) res \<Rightarrow> 'h option" where
  "left_behind (Ok h) = Some h"
| "left_behind (Err r) = Some (snd r)"
| "left_behind Panic = None"

lemma h_index_cong:
  assumes "sized_ok g" and "sized_ok h"
    and "lowest_discernible_value g = lowest_discernible_value h"
    and "significant_value_digits g = significant_value_digits h"
  shows "h_index g = h_index h"
proof
  fix v
  have m: "um g = um h" "hm g = hm h"
    using sized_okD(2) [OF assms(1)] sized_okD(2) [OF assms(2)] assms(3,4) by (auto simp: config_ok_def)
  note l = sized_okD(1) [OF assms(1)] sized_okD(1) [OF assms(2)]
  have "index_for g (of_nat v) = index_for h (of_nat v)"
    using h_index_eq [OF l(1) unat_u64_less] h_index_eq [OF l(2) unat_u64_less] m
    by (simp add: index_for_h_index [OF l(1)] index_for_h_index [OF l(2)])
  then show "h_index g v = h_index h v" by (simp add: h_index_def)
qed

section \<open>Recording\<close>

lemma evolves_bump: "wf h \<Longrightarrow> unat v < capacity h \<Longrightarrow> evolves h (bump h v c)"
  by (simp add: evolves_def wf_bump)

lemma evolves_foldl_bump:
  "wf h \<Longrightarrow> \<forall>w \<in> set ws. unat w < capacity h \<Longrightarrow> evolves h (foldl (\<lambda>h w. bump h w c) h ws)"
proof (induction ws arbitrary: h)
  case (Cons w ws)
  then have "evolves h (bump h w c)" by (simp add: evolves_bump)
  also have "evolves (bump h w c) (foldl (\<lambda>h w. bump h w c) (bump h w c) ws)"
    using Cons by (simp add: wf_bump)
  finally show ?case by simp
qed (simp add: evolves_refl)

lemma evolves_grown:
  assumes "wf h" and "capacity h \<le> unat v" and "auto_resize h"
  shows "evolves h (grown h v)"
  using wf_grown [OF assms(1,2)] grown_facts [OF wfD(1) [OF assms(1)] assms(2)] assms(3)
  by (simp add: evolves_def)

lemma evolves_record_n_Ok:
  assumes "wf h" and "record_n h v c = Ok h'"
  shows "evolves h h'"
proof -
  obtain g where g: "wf g" "unat v < capacity g" "h' = bump g v c"
    "g = h \<or> auto_resize h \<and> capacity h \<le> unat v \<and> g = grown h v"
    by (rule record_n_OkE [OF assms(2,1)])
  have "evolves h g" using g(4) assms(1) by (auto intro: evolves_refl evolves_grown)
  also have "evolves g h'" unfolding g(3) by (rule evolves_bump [OF g(1,2)])
  finally show ?thesis .
qed

lemma record_n_Err: "wf h \<Longrightarrow> record_n h v c = Err r \<Longrightarrow> snd r = h"
  by (auto simp: record_n_def record_n_inner_eq wfD(1) split: if_splits)

lemma evolves_record_n: "wf h \<Longrightarrow> left_behind (record_n h v c) = Some h' \<Longrightarrow> evolves h h'"
  by (cases "record_n h v c") (use record_n_Err [of h v c] in \<open>auto simp: evolves_record_n_Ok evolves_refl\<close>)

lemma evolves_record_n_correct:
  assumes "wf h" and "left_behind (record_n_correct h v c i) = Some h'"
  shows "evolves h h'"
proof (cases "record_n h v c")
  case (Ok h1)
  obtain g where g: "wf g" "unat v < capacity g"
    "g = h \<or> auto_resize h \<and> capacity h \<le> unat v \<and> g = grown h v"
    "record_n_correct h v c i = Ok (foldl (\<lambda>h w. bump h w c) g (correct_values v i))"
    by (rule record_n_correct_eq [OF assms(1) Ok])
  have "evolves h g" using g(3) assms(1) by (auto intro: evolves_refl evolves_grown)
  also have "evolves g (foldl (\<lambda>h w. bump h w c) g (correct_values v i))"
    using g(2) by (intro evolves_foldl_bump g(1)) (auto intro: le_less_trans [OF correct_values_le])
  finally show ?thesis using assms(2) g(4) by simp
next
  case (Err r)
  then have "record_n_correct h v c i = Err r" by (simp add: record_n_correct_def)
  then show ?thesis
    using assms record_n_Err [OF assms(1) Err] by (simp add: evolves_refl)
qed (use assms in \<open>simp add: record_n_correct_def\<close>)

lemma evolves_record_n_inner_clamp:
  assumes "wf h" and "left_behind (record_n_inner h v c True) = Some h'"
  shows "evolves h h'"
proof -
  have "h' = bump h (if unat v < capacity h then v else highest_trackable_value h) c"
    using assms(2) by (simp only: record_n_inner_clamp [OF wfD(1) [OF assms(1)]] left_behind.simps option.inject)
  then show ?thesis
    using highest_less_capacity [OF wfD(1) [OF assms(1)]] by (simp add: evolves_bump [OF assms(1)])
qed

lemma evolves_correct_items:
  "wf h \<Longrightarrow> left_behind (correct_items h items i) = Some h' \<Longrightarrow> evolves h h'"
proof (induction items arbitrary: h)
  case (Cons v vs)
  let ?r = "record_n_correct h (value_iterated_to v) (count_at_value v) i"
  show ?case
  proof (cases ?r)
    case (Ok g)
    then have "evolves h g" using evolves_record_n_correct [OF Cons.prems(1), of "value_iterated_to v" "count_at_value v" i] by simp
    also have "evolves g h'" using Cons.IH [OF evolves_wf [OF calculation]] Cons.prems(2) Ok by simp
    finally show ?thesis .
  next
    case (Err r)
    then show ?thesis
      using Cons.prems(2) evolves_record_n_correct [OF Cons.prems(1), of "value_iterated_to v" "count_at_value v" i]
      by simp
  qed (use Cons.prems in simp)
qed (simp add: evolves_refl)

section \<open>Addition\<close>

text \<open>The size of a histogram that may not grow: addition and recording do not change it.\<close>

definition same_size :: "'c::len word histogram \<Rightarrow> 'c word histogram \<Rightarrow> bool" where
  "same_size h h' \<longleftrightarrow> auto_resize h' = auto_resize h \<and> (\<not> auto_resize h \<longrightarrow> capacity h' = capacity h)"

lemma same_size_trans [trans]: "same_size f g \<Longrightarrow> same_size g h \<Longrightarrow> same_size f h"
  by (simp add: same_size_def)

lemma evolves_same_size: "evolves h h' \<Longrightarrow> same_size h h'"
  by (simp add: evolves_def same_size_def)

lemma same_size_add_same: "add_same h s = (Ok h' :: ('e, 'c::len word histogram) res) \<Longrightarrow> same_size h h'"
proof -
  assume "add_same h s = (Ok h' :: ('e, 'c word histogram) res)"
  then obtain cs t where "h' = (let h1 = h\<lparr>counts := cs, total_count := t\<rparr>;
           h2 = (if hist_max s > hist_max h1 then update_max h1 (hist_max s) else h1)
       in if min_nz s < min_nz h2 then update_min h2 (min_nz s) else h2)"
    by (auto simp: add_same_def bind_res_eq_Ok Let_def)
  then show ?thesis by (simp add: Let_def same_size_def)
qed

lemma same_size_add_bins:
  "wf h \<Longrightarrow> add_bins h s js = (Ok h' :: ('e, 'c::len word histogram) res) \<Longrightarrow> same_size h h'"
proof (induction js arbitrary: h)
  case (Cons j js)
  then obtain c where c: "count_at_index s j = Some c"
      "(if c \<noteq> 0 then bind_res (value_for s j) (\<lambda>v. bind_res (unwrap_res (record_n h v c)) (\<lambda>h'. add_bins h' s js))
        else add_bins h s js) = (Ok h' :: ('e, 'c::len word histogram) res)"
    by (auto simp: bind_res_eq_Ok)
  show ?case
  proof (cases "c = 0")
    case False
    then obtain v h1 where h1: "record_n h v c = Ok h1" "add_bins h1 s js = (Ok h' :: ('e, 'c::len word histogram) res)"
      using c(2) by (auto simp: bind_res_eq_Ok)
    have e: "evolves h h1" by (rule evolves_record_n_Ok [OF Cons.prems(1) h1(1)])
    then have "same_size h h1" by (rule evolves_same_size)
    also have "same_size h1 h'" by (rule Cons.IH [OF evolves_wf [OF e] h1(2)])
    finally show ?thesis .
  qed (use c Cons in simp)
qed (simp add: same_size_def)

lemma same_size_add_other:
  assumes "wf h" and "add_other h s = (Ok h' :: ('e, 'c::len word histogram) res)"
  shows "same_size h h'"
proof -
  obtain i c v h1 where "record_n h v c = Ok h1" and b: "add_bins h1 s [0..<i] = (Ok h' :: ('e, 'c word histogram) res)"
    using assms(2) by (auto simp: add_other_def bind_res_eq_Ok)
  then have e: "evolves h h1" by (intro evolves_record_n_Ok [OF assms(1)])
  then have "same_size h h1" by (rule evolves_same_size)
  also have "same_size h1 h'" by (rule same_size_add_bins [OF evolves_wf [OF e] b])
  finally show ?thesis .
qed

lemma same_size_add:
  assumes "wf h" and "add h s = Ok h'"
  shows "same_size h h'"
proof (cases "top_value h < hist_max s")
  case True
  then have a: "auto_resize h" using assms by (auto simp: add_eq split: if_splits)
  obtain h1 where r: "resize h (hist_max s) = Ok h1" and x: "extends h h1"
    by (rule add_room [OF assms(1) True])
  have w: "wf h1" and "same_size h h1" using x a by (simp_all add: extends_def same_size_def)
  moreover have "same_size h1 h'"
    using assms(2) True a r same_size_add_same [of h1 s] same_size_add_other [OF w, of s]
    by (auto simp: add_eq [OF assms(1)] split: if_splits)
  ultimately show ?thesis by (blast intro: same_size_trans)
next
  case False
  then show ?thesis
    using assms(2) same_size_add_same [of h s] same_size_add_other [OF assms(1), of s]
    by (auto simp: add_eq [OF assms(1)] split: if_splits)
qed

lemma evolves_add:
  fixes h :: "'c::len word histogram"
  assumes "wf h" and "wf s" and "LENGTH('c) \<le> 64" and "left_behind (add h s) = Some h'"
  shows "evolves h h'"
proof (cases "\<not> top_value h < hist_max s \<or> auto_resize h")
  case True
  obtain g where "add h s = Ok g" "added h s [0..<length (counts s)] g"
    by (rule add_added [OF assms(1-3) True])
  then show ?thesis
    using same_size_add [OF assms(1), of s] assms(4) by (simp add: added_def evolves_def same_size_def)
next
  case False
  then have "add h s = Err (OtherAddendValueExceedsRange, h)" by (simp add: add_eq [OF assms(1)])
  then show ?thesis using assms(1,4) by (simp add: evolves_refl)
qed

section \<open>Subtraction\<close>

lemma evolves_fields:
  assumes "wf h" and "wf h'" and "auto_resize h' = auto_resize h"
    and "lowest_discernible_value h' = lowest_discernible_value h"
    and "highest_trackable_value h' = highest_trackable_value h"
    and "significant_value_digits h' = significant_value_digits h"
  shows "evolves h h'"
  using assms h_index_cong [OF wfD(1) [OF assms(2)] wfD(1) [OF assms(1)]]
    sized_ok_same_layout(5) [OF wfD(1) [OF assms(2)] wfD(1) [OF assms(1)]]
  by (simp add: evolves_def)

lemma evolves_decrease:
  "wf h \<Longrightarrow> counts h ! i \<noteq> 0 \<Longrightarrow> evolves h (h\<lparr>counts := (counts h)[i := c]\<rparr>)"
  by (intro evolves_fields wf_decrease) simp_all

lemma evolves_total: "evolves h (g\<lparr>total_count := t\<rparr>) \<longleftrightarrow> evolves h g"
proof -
  have "h_index (g\<lparr>total_count := t\<rparr>) = h_index g" by simp
  then show ?thesis by (simp add: evolves_def)
qed

lemma value_for_not_Err: "value_for h i \<noteq> Err e"
  by (cases "to_u32 i") (simp_all add: value_for_def Let_def)

lemma evolves_subtract_bins:
  fixes h :: "'c::len word histogram"
  assumes "wf h"
  shows "case subtract_bins a b h needs s js of Ok (h', _) \<Rightarrow> evolves h h' | Err (_, h') \<Rightarrow> evolves h h' | Panic \<Rightarrow> True"
  using assms
proof (induction js arbitrary: h needs)
  case (Cons j js)
  show ?case
  proof (cases "count_at_index s j")
    case (Some oc)
    show ?thesis
    proof (cases "oc = 0")
      case nz: False
      show ?thesis
      proof (cases "value_for s j :: (subtraction_error \<times> 'c word histogram, u64) res")
        case (Ok v)
        show ?thesis
        proof (cases "mut_at h v")
          case k: (Some k)
          show ?thesis
          proof (cases "checked_sub (counts h ! k) oc")
            case None
            then show ?thesis using Some nz Ok k Cons.prems by (simp add: evolves_refl)
          next
            case c: (Some c)
            have "0 < unat oc" using nz by (simp add: unat_gt_0)
            then have "counts h ! k \<noteq> 0" using checked_sub_Some_unat [OF c] by auto
            then have e: "evolves h (h\<lparr>counts := (counts h)[k := c]\<rparr>)"
              by (rule evolves_decrease [OF Cons.prems])
            have *: "case subtract_bins a b g n s js of Ok (h', _) \<Rightarrow> evolves h h' | Err (_, h') \<Rightarrow> evolves h h' | Panic \<Rightarrow> True"
              if "evolves h g" for g n
              using Cons.IH [OF evolves_wf [OF that], of n] evolves_trans [OF that]
              by (auto split: res.splits)
            let ?n = "needs \<or> v \<le> a \<or> v \<ge> b"
            show ?thesis
            proof (cases ?n)
              case True
              then show ?thesis using Some nz Ok k c * [OF e, of True] by (simp add: Let_def)
            next
              case False
              show ?thesis
              proof (cases "checked_sub (total_count h) (ucast oc)")
                case t: (Some t)
                have "evolves h (h\<lparr>counts := (counts h)[k := c], total_count := t\<rparr>)"
                  using e by (simp add: evolves_total)
                from * [OF this, of False] show ?thesis using Some nz Ok k c False t by (simp add: Let_def)
              qed (use Some nz Ok k c False in \<open>simp add: Let_def\<close>)
            qed
          qed
        qed (use Some nz Ok in simp)
      qed (use Some nz value_for_not_Err in \<open>auto simp: value_for_not_Err\<close>)
    qed (use Some Cons in simp)
  qed simp
qed (simp add: evolves_refl)

lemma evolves_subtract:
  fixes h :: "'c::len word histogram"
  assumes "wf h" and "LENGTH('c) \<le> 64" and "left_behind (subtract h s) = Some h'"
  shows "evolves h h'"
proof -
  obtain a b where eq: "subtract h s = (if top_value h < highest_equivalent h (hist_max s)
      then Err (SubtrahendValueExceedsMinuendRange, h)
      else bind_res (subtract_bins a b h (total_count h = - 1) s [0..<length (counts s)])
        (\<lambda>(h', needs). if needs then restat h' (length (counts h')) else Ok h'))"
    using subtract_eq [OF assms(1), of s] by blast
  note out = evolves_subtract_bins [OF assms(1), of a b "total_count h = - 1" s "[0..<length (counts s)]"]
  show ?thesis
  proof (cases "top_value h < highest_equivalent h (hist_max s)")
    case True
    then show ?thesis using eq assms by (simp add: evolves_refl)
  next
    case False
    show ?thesis
    proof (cases "subtract_bins a b h (total_count h = - 1) s [0..<length (counts s)]")
      case (Ok r)
      obtain g needs where r: "r = (g, needs)" by (cases r)
      have g: "evolves h g" using out by (simp add: Ok r)
      show ?thesis
      proof (cases needs)
        case True
        obtain g' where g': "restat g (length (counts g)) = (Ok g' :: (subtraction_error \<times> 'c word histogram, 'c word histogram) res)" "restated g g'"
          by (rule restat_restated [OF wfD(1) [OF evolves_wf [OF g]] assms(2)])
        have "evolves g g'" using g'(2) evolves_wf [OF g] by (intro evolves_fields) (simp_all add: restated_def)
        with g have "evolves h g'" by (rule evolves_trans)
        then show ?thesis using g'(1) assms(3) False True by (simp add: eq Ok r)
      next
        case n: False
        then show ?thesis using g assms(3) False by (simp add: eq Ok r)
      qed
    next
      case (Err p)
      then show ?thesis using out assms(3) False by (cases p) (simp add: eq)
    qed (use assms(3) False in \<open>simp add: eq\<close>)
  qed
qed

end
