(* ===== verification/Sync.thy ===== *)
theory Sync
  imports Evolution
begin

text \<open>
  A histogram written to from several threads (\<open>sync/mod.rs\<close>). The operations of a recorder, of
  an idle recorder and of the shared histogram are functions on their own state and the state
  they share; the threads are a step relation on the whole. A step is what a thread does between
  two accesses to shared state: a critical section under the mutex is one step, since the lock
  keeps the other critical sections out and all it does besides is load the phase or send. The
  channel is crossbeam's unbounded channel, a list of messages in order; it drops what is sent
  after the receiver is gone. The atomic phase is one location, read and written in one order.

  A call on the local histogram that panics unwinds its thread and is not a step.
\<close>

section \<open>State\<close>

text \<open>The counter and the phase are \<open>usize\<close> and wrap.\<close>

record 'c shared =
  recorders :: u64
  phase :: u64
  channel :: "'c histogram list"
  connected :: bool

record 'c recorder =
  local_hist :: "'c histogram"
  last_phase :: u64

text \<open>\<open>IdleRecorder\<close>: the recorder it holds, until that is taken out.\<close>

type_synonym 'c idle_recorder = "'c recorder option"

section \<open>Operations of a recorder\<close>

definition send :: "'c shared \<Rightarrow> 'c histogram \<Rightarrow> 'c shared" where
  "send s h = (if connected s then s\<lparr>channel := channel s @ [h]\<rparr> else s)"

definition shed ::
  "'c::len word recorder \<Rightarrow> ('e, 'c word histogram \<times> 'c word recorder) res" where
  "shed r = bind_res (new_from (local_hist r)) (\<lambda>h. Ok (local_hist r, r\<lparr>local_hist := h\<rparr>))"

definition update ::
  "'c::len word recorder \<Rightarrow> 'c word shared \<Rightarrow> ('e, 'c word recorder \<times> 'c word shared) res" where
  "update r s = bind_res (shed r) (\<lambda>(h, r'). Ok (r', send s h))"

text \<open>\<open>f\<close> gives the result of the closure and the histogram it leaves.\<close>

definition with_hist ::
  "('c::len word histogram \<Rightarrow> ('e, 'r \<times> 'c word histogram) res) \<Rightarrow> 'c word recorder
    \<Rightarrow> 'c word shared \<Rightarrow> ('e, 'r \<times> 'c word recorder \<times> 'c word shared) res" where
  "with_hist f r s =
     bind_res (f (local_hist r)) (\<lambda>(x, l).
       let r1 = r\<lparr>local_hist := l\<rparr>;
           p = phase s
       in bind_res
            (if p \<noteq> last_phase r1
             then bind_res (update r1 s) (\<lambda>(r2, s'). Ok (r2\<lparr>last_phase := p\<rparr>, s'))
             else Ok (r1, s))
            (\<lambda>(r', s'). Ok (x, r', s')))"

text \<open>A \<open>Result\<close> on \<open>&mut self\<close> as a value: the histogram is kept in either case.\<close>

primrec kept :: "('e \<times> 'h, 'h) res \<Rightarrow> ('f, ('e, unit) res \<times> 'h) res" where
  "kept (Ok h) = Ok (Ok (), h)"
| "kept (Err r) = Ok (Err (fst r), snd r)"
| "kept Panic = Panic"

definition recorder_add ::
  "'c::len word recorder \<Rightarrow> 'c word shared \<Rightarrow> 'c word histogram
    \<Rightarrow> ('e, (addition_error, unit) res \<times> 'c word recorder \<times> 'c word shared) res" where
  "recorder_add r s source = with_hist (\<lambda>h. kept (add h source)) r s"

definition recorder_subtract ::
  "'c::len word recorder \<Rightarrow> 'c word shared \<Rightarrow> 'c word histogram
    \<Rightarrow> ('e, (subtraction_error, unit) res \<times> 'c word recorder \<times> 'c word shared) res" where
  "recorder_subtract r s subtrahend = with_hist (\<lambda>h. kept (subtract h subtrahend)) r s"

text \<open>\<open>None\<close>: the loop over the recorded values of the source does not end.\<close>

definition recorder_add_correct ::
  "'c::len word recorder \<Rightarrow> 'c word shared \<Rightarrow> 'c word histogram \<Rightarrow> u64
    \<Rightarrow> ('e, (record_error, unit) res \<times> 'c word recorder \<times> 'c word shared) res option" where
  "recorder_add_correct r s source interval =
     map_option (\<lambda>res. with_hist (\<lambda>h. kept res) r s) (add_correct (local_hist r) source interval)"

definition recorder_record_n ::
  "'c::len word recorder \<Rightarrow> 'c word shared \<Rightarrow> u64 \<Rightarrow> 'c word
    \<Rightarrow> ('e, (record_error, unit) res \<times> 'c word recorder \<times> 'c word shared) res" where
  "recorder_record_n r s value count = with_hist (\<lambda>h. kept (record_n h value count)) r s"

definition recorder_record ::
  "'c::len word recorder \<Rightarrow> 'c word shared \<Rightarrow> u64
    \<Rightarrow> ('e, (record_error, unit) res \<times> 'c word recorder \<times> 'c word shared) res" where
  "recorder_record r s value = with_hist (\<lambda>h. kept (record_value h value)) r s"

definition recorder_saturating_record_n ::
  "'c::len word recorder \<Rightarrow> 'c word shared \<Rightarrow> u64 \<Rightarrow> 'c word
    \<Rightarrow> ('e, unit \<times> 'c word recorder \<times> 'c word shared) res" where
  "recorder_saturating_record_n r s value count =
     with_hist (\<lambda>h. bind_res (saturating_record_n h value count) (\<lambda>h'. Ok ((), h'))) r s"

definition recorder_saturating_record ::
  "'c::len word recorder \<Rightarrow> 'c word shared \<Rightarrow> u64
    \<Rightarrow> ('e, unit \<times> 'c word recorder \<times> 'c word shared) res" where
  "recorder_saturating_record r s value =
     with_hist (\<lambda>h. bind_res (saturating_record h value) (\<lambda>h'. Ok ((), h'))) r s"

definition recorder_record_n_correct ::
  "'c::len word recorder \<Rightarrow> 'c word shared \<Rightarrow> u64 \<Rightarrow> 'c word \<Rightarrow> u64
    \<Rightarrow> ('e, (record_error, unit) res \<times> 'c word recorder \<times> 'c word shared) res" where
  "recorder_record_n_correct r s value count interval =
     with_hist (\<lambda>h. kept (record_n_correct h value count interval)) r s"

definition recorder_record_correct ::
  "'c::len word recorder \<Rightarrow> 'c word shared \<Rightarrow> u64 \<Rightarrow> u64
    \<Rightarrow> ('e, (record_error, unit) res \<times> 'c word recorder \<times> 'c word shared) res" where
  "recorder_record_correct r s value interval =
     with_hist (\<lambda>h. kept (record_correct h value interval)) r s"

text \<open>\<open>r += v\<close>.\<close>

definition recorder_add_assign ::
  "'c::len word recorder \<Rightarrow> 'c word shared \<Rightarrow> u64
    \<Rightarrow> ('e, 'c word recorder \<times> 'c word shared) res" where
  "recorder_add_assign r s value =
     bind_res (recorder_record r s value) (\<lambda>(x, r', s').
       bind_res (unwrap_res x) (\<lambda>_. Ok (r', s')))"

definition clone_recorder ::
  "'c::len word recorder \<Rightarrow> 'c word shared \<Rightarrow> ('e, 'c word recorder \<times> 'c word shared) res" where
  "clone_recorder r s =
     (let s' = s\<lparr>recorders := recorders s + 1\<rparr>
      in bind_res (new_from (local_hist r)) (\<lambda>h.
           Ok (\<lparr>local_hist = h, last_phase = last_phase r\<rparr>, s')))"

definition drop_recorder ::
  "'c::len word recorder \<Rightarrow> 'c word shared \<Rightarrow> ('e, 'c word shared) res" where
  "drop_recorder r s =
     (let s' = s\<lparr>recorders := recorders s - 1\<rparr>
      in bind_res (new_from (local_hist r)) (\<lambda>h :: 'c word histogram. Ok (send s' (local_hist r))))"

definition deactivate ::
  "'c::len word recorder \<Rightarrow> 'c word shared \<Rightarrow> ('e, 'c word recorder \<times> 'c word shared) res" where
  "deactivate r s =
     (let s' = s\<lparr>recorders := recorders s - 1\<rparr>;
          p = phase s'
      in bind_res
           (if p \<noteq> last_phase r
            then bind_res (new_from (local_hist r)) (\<lambda>h.
                   Ok (r\<lparr>local_hist := h\<rparr>, send s' (local_hist r)))
            else Ok (r, s'))
           (\<lambda>(r', s''). Ok (r'\<lparr>last_phase := p\<rparr>, s'')))"

text \<open>\<open>idle\<close> and \<open>into_idle\<close>, which differ in whether they borrow the recorder.\<close>

definition idle ::
  "'c::len word recorder \<Rightarrow> 'c word shared \<Rightarrow> ('e, 'c word idle_recorder \<times> 'c word shared) res" where
  "idle r s = bind_res (deactivate r s) (\<lambda>(r', s'). Ok (Some r', s'))"

section \<open>Operations of an idle recorder\<close>

definition reactivate :: "'c idle_recorder \<Rightarrow> 'c shared \<Rightarrow> 'c idle_recorder \<times> 'c shared" where
  "reactivate i s =
     (case i of
        None \<Rightarrow> (None, s)
      | Some r \<Rightarrow> (Some (r\<lparr>last_phase := phase s\<rparr>), s\<lparr>recorders := recorders s + 1\<rparr>))"

text \<open>\<open>activate\<close>: after the recorder is taken out, dropping the guard does nothing more.\<close>

definition activate ::
  "'c idle_recorder \<Rightarrow> 'c shared \<Rightarrow> ('e, 'c recorder \<times> 'c shared) res" where
  "activate i s =
     (case reactivate i s of (i', s') \<Rightarrow>
        bind_res (expect i') (\<lambda>r. Ok (r, snd (reactivate None s'))))"

definition idle_recorder_recorder ::
  "'c::len word idle_recorder \<Rightarrow> 'c word shared \<Rightarrow> ('e, 'c word recorder \<times> 'c word shared) res" where
  "idle_recorder_recorder i s = bind_res (expect i) (\<lambda>r. clone_recorder r s)"

section \<open>Operations of the shared histogram\<close>

record 'c sync_histogram =
  merged :: "'c histogram"
  sync_shared :: "'c shared"

definition sync_from :: "'c histogram \<Rightarrow> 'c sync_histogram" where
  "sync_from h = \<lparr>merged = h,
     sync_shared = \<lparr>recorders = 0, phase = 0, channel = [], connected = True\<rparr>\<rparr>"

definition recorder_of ::
  "'c::len word sync_histogram \<Rightarrow> ('e, 'c word recorder \<times> 'c word shared) res" where
  "recorder_of sh =
     (let s' = (sync_shared sh)\<lparr>recorders := recorders (sync_shared sh) + 1\<rparr>
      in bind_res (new_from (merged sh)) (\<lambda>h. Ok (\<lparr>local_hist = h, last_phase = phase s'\<rparr>, s')))"

text \<open>
  Where \<open>refresh_inner\<close> is: draining what is left over, reading the number of recorders,
  advancing the phase, waiting for that many histograms (the number received and the number
  expected), and gobbling up the rest. The flag says whether it may time out.
\<close>

datatype refresh =
    Resting
  | Draining bool
  | Drained bool
  | Counted bool u64
  | Waiting bool u64 u64
  | Gobbling
  | Panicked
  | Closed

text \<open>One received histogram: \<open>self.merged.add(&h).expect(..)\<close>, then on.\<close>

definition merge_into ::
  "'c::len word histogram \<Rightarrow> 'c word histogram \<Rightarrow> refresh \<Rightarrow> 'c word histogram \<times> refresh" where
  "merge_into m h next =
     (case add m h of Ok m' \<Rightarrow> (m', next) | Err r \<Rightarrow> (snd r, Panicked) | Panic \<Rightarrow> (m, Panicked))"

text \<open>
  A step of \<open>refresh_inner\<close> given the state of the channel; \<open>timeout\<close> says whether the deadline,
  if there is one, has passed. \<open>None\<close>: it blocks.
\<close>

definition receive_next ::
  "'c::len word sync_histogram \<Rightarrow> refresh \<Rightarrow> ('c word sync_histogram \<times> refresh) option" where
  "receive_next sh next =
     (case channel (sync_shared sh) of
        [] \<Rightarrow> None
      | h # q \<Rightarrow>
          (case merge_into (merged sh) h next of (m, pc) \<Rightarrow>
             Some (sh\<lparr>merged := m, sync_shared := (sync_shared sh)\<lparr>channel := q\<rparr>\<rparr>, pc)))"

fun refresh_step ::
  "bool \<Rightarrow> 'c::len word sync_histogram \<Rightarrow> refresh \<Rightarrow> ('c word sync_histogram \<times> refresh) option" where
  "refresh_step timeout sh (Draining t) =
     (case receive_next sh (Draining t) of None \<Rightarrow> Some (sh, Drained t) | r \<Rightarrow> r)"
| "refresh_step timeout sh (Drained t) = Some (sh, Counted t (recorders (sync_shared sh)))"
| "refresh_step timeout sh (Counted t n) =
     Some (sh\<lparr>sync_shared := (sync_shared sh)\<lparr>phase := phase (sync_shared sh) + 1\<rparr>\<rparr>, Waiting t 0 n)"
| "refresh_step timeout sh (Waiting t phased n) =
     (if phased < n then
        if t \<and> timeout then Some (sh, Gobbling)
        else receive_next sh (Waiting t (phased + 1) n)
      else Some (sh, Gobbling))"
| "refresh_step timeout sh Gobbling =
     (case receive_next sh Gobbling of None \<Rightarrow> Some (sh, Resting) | r \<Rightarrow> r)"
| "refresh_step timeout sh Resting = None"
| "refresh_step timeout sh Panicked = None"
| "refresh_step timeout sh Closed = None"

text \<open>\<open>refresh\<close> and \<open>refresh_timeout\<close> start \<open>refresh_inner\<close>.\<close>

definition refresh_start :: "bool \<Rightarrow> refresh" where
  "refresh_start has_timeout = Draining has_timeout"

text \<open>Dropping the shared histogram drops the receiver, and with it what is in the channel.\<close>

definition close :: "'c shared \<Rightarrow> 'c shared" where
  "close s = s\<lparr>channel := [], connected := False\<rparr>"

section \<open>The threads\<close>

datatype 'c call =
    RecordN u64 'c
  | SaturatingRecordN u64 'c
  | RecordNCorrect u64 'c u64
  | Add "'c histogram"
  | AddCorrect "'c histogram" u64
  | Subtract "'c histogram"

text \<open>The histogram a call leaves behind; \<open>None\<close> if it panics or does not return.\<close>

fun perform :: "'c::len word call \<Rightarrow> 'c word histogram \<Rightarrow> 'c word histogram option" where
  "perform (RecordN v c) h = left_behind (record_n h v c)"
| "perform (SaturatingRecordN v c) h = left_behind (record_n_inner h v c True)"
| "perform (RecordNCorrect v c i) h = left_behind (record_n_correct h v c i)"
| "perform (Add s) h = left_behind (add h s)"
| "perform (AddCorrect s i) h =
     (case add_correct h s i of None \<Rightarrow> None | Some r \<Rightarrow> left_behind r)"
| "perform (Subtract s) h = left_behind (subtract h s)"

text \<open>
  A handle of a thread: a recorder in use, one that has seen a new phase and has yet to send,
  an idle one, or one that was dropped.
\<close>

datatype 'c handle =
    Active "'c recorder"
  | Phasing "'c recorder" u64
  | Idle "'c recorder"
  | Dropped

record 'c world =
  owner :: "'c sync_histogram"
  refreshing :: refresh
  handles :: "'c handle list"

definition start :: "'c histogram \<Rightarrow> 'c world" where
  "start h = \<lparr>owner = sync_from h, refreshing = Resting, handles = []\<rparr>"

definition set_shared :: "'c world \<Rightarrow> 'c shared \<Rightarrow> 'c world" where
  "set_shared w s = w\<lparr>owner := (owner w)\<lparr>sync_shared := s\<rparr>\<rparr>"

definition set_handle :: "'c world \<Rightarrow> nat \<Rightarrow> 'c handle \<Rightarrow> 'c shared \<Rightarrow> 'c world" where
  "set_handle w k x s = set_shared (w\<lparr>handles := (handles w)[k := x]\<rparr>) s"

definition new_handle :: "'c world \<Rightarrow> 'c recorder \<Rightarrow> 'c shared \<Rightarrow> 'c world" where
  "new_handle w r s = set_shared (w\<lparr>handles := handles w @ [Active r]\<rparr>) s"

datatype 'c event =
    NewRecorder
  | CloneRecorder nat
  | CloneIdle nat
  | DropRecorder nat
  | GoIdle nat
  | Activate nat
  | Write nat "'c call"
  | Send nat
  | OwnerWrite "'c call"
  | StartRefresh bool
  | Refresh bool
  | CloseOwner

text \<open>
  \<open>with_hist\<close> in two steps: the call on the local histogram with the load of the phase, and
  sending the histogram if the phase was new. The owner's histogram can be written to (through
  \<open>DerefMut\<close>), and recorders obtained from it, while no refresh is running.
\<close>

inductive sync_step :: "'c::len word world \<Rightarrow> 'c word event \<Rightarrow> 'c word world \<Rightarrow> bool" where
  new_recorder:
    "refreshing w = Resting \<Longrightarrow> recorder_of (owner w) = (Ok (r, s) :: (unit, _) res)
      \<Longrightarrow> sync_step w NewRecorder (new_handle w r s)"
| clone_recorder:
    "k < length (handles w) \<Longrightarrow> handles w ! k = Active r0
      \<Longrightarrow> clone_recorder r0 (sync_shared (owner w)) = (Ok (r, s) :: (unit, _) res)
      \<Longrightarrow> sync_step w (CloneRecorder k) (new_handle w r s)"
| clone_idle:
    "k < length (handles w) \<Longrightarrow> handles w ! k = Idle r0
      \<Longrightarrow> idle_recorder_recorder (Some r0) (sync_shared (owner w)) = (Ok (r, s) :: (unit, _) res)
      \<Longrightarrow> sync_step w (CloneIdle k) (new_handle w r s)"
| drop_recorder:
    "k < length (handles w) \<Longrightarrow> handles w ! k = Active r
      \<Longrightarrow> drop_recorder r (sync_shared (owner w)) = (Ok s :: (unit, _) res)
      \<Longrightarrow> sync_step w (DropRecorder k) (set_handle w k Dropped s)"
| go_idle:
    "k < length (handles w) \<Longrightarrow> handles w ! k = Active r
      \<Longrightarrow> idle r (sync_shared (owner w)) = (Ok (Some r', s) :: (unit, _) res)
      \<Longrightarrow> sync_step w (GoIdle k) (set_handle w k (Idle r') s)"
| activate:
    "k < length (handles w) \<Longrightarrow> handles w ! k = Idle r
      \<Longrightarrow> activate (Some r) (sync_shared (owner w)) = (Ok (r', s) :: (unit, _) res)
      \<Longrightarrow> sync_step w (Activate k) (set_handle w k (Active r') s)"
| write_local:
    "k < length (handles w) \<Longrightarrow> handles w ! k = Active r \<Longrightarrow> perform c (local_hist r) = Some l
      \<Longrightarrow> p = phase (sync_shared (owner w))
      \<Longrightarrow> x = (if p \<noteq> last_phase r then Phasing (r\<lparr>local_hist := l\<rparr>) p else Active (r\<lparr>local_hist := l\<rparr>))
      \<Longrightarrow> sync_step w (Write k c) (set_handle w k x (sync_shared (owner w)))"
| send:
    "k < length (handles w) \<Longrightarrow> handles w ! k = Phasing r p
      \<Longrightarrow> update r (sync_shared (owner w)) = (Ok (r', s) :: (unit, _) res)
      \<Longrightarrow> sync_step w (Send k) (set_handle w k (Active (r'\<lparr>last_phase := p\<rparr>)) s)"
| owner_write:
    "refreshing w = Resting \<Longrightarrow> perform c (merged (owner w)) = Some m
      \<Longrightarrow> sync_step w (OwnerWrite c) (w\<lparr>owner := (owner w)\<lparr>merged := m\<rparr>\<rparr>)"
| start_refresh:
    "refreshing w = Resting \<Longrightarrow> sync_step w (StartRefresh t) (w\<lparr>refreshing := refresh_start t\<rparr>)"
| refresh:
    "refresh_step timeout (owner w) (refreshing w) = Some (sh, pc)
      \<Longrightarrow> sync_step w (Refresh timeout) (w\<lparr>owner := sh, refreshing := pc\<rparr>)"
| close_owner:
    "refreshing w = Resting
      \<Longrightarrow> sync_step w CloseOwner ((set_shared w (close (sync_shared (owner w))))\<lparr>refreshing := Closed\<rparr>)"

text \<open>A run whose steps all satisfy a condition on the state before and the event.\<close>

inductive run ::
  "('c::len word world \<Rightarrow> 'c word event \<Rightarrow> bool) \<Rightarrow> 'c word world \<Rightarrow> 'c word event list
    \<Rightarrow> 'c word world \<Rightarrow> bool" for allowed where
  nil: "run allowed w [] w"
| snoc: "run allowed w es w' \<Longrightarrow> allowed w' e \<Longrightarrow> sync_step w' e w''
    \<Longrightarrow> run allowed w (es @ [e]) w''"


inductive_cases run_nilE: "run allowed w [] w'"
inductive_cases run_snocE: "run allowed w (es @ [e]) w'"
inductive_simps refresh_event: "sync_step w (Refresh t) w'"
inductive_simps send_event: "sync_step w (Send k) w'"

text \<open>An invariant of the allowed steps holds at the end of every run.\<close>

lemma run_invariant:
  assumes "run allowed w es w'" and "I w"
    and "\<And>v e v'. I v \<Longrightarrow> allowed v e \<Longrightarrow> sync_step v e v' \<Longrightarrow> I v'"
  shows "I w'"
  using assms by (induction rule: run.induct) auto

lemma run_trans: "run P w es w' \<Longrightarrow> run P w' fs w'' \<Longrightarrow> run P w (es @ fs) w''"
proof (induction fs arbitrary: w'' rule: rev_induct)
  case Nil
  then show ?case by (auto elim: run_nilE)
next
  case (snoc f fs)
  from snoc.prems(2) show ?case
    by (rule run_snocE) (use snoc in \<open>auto simp flip: append_assoc intro: run.snoc\<close>)
qed

lemma run_mono: "run P w es w' \<Longrightarrow> (\<And>v e. P v e \<Longrightarrow> Q v e) \<Longrightarrow> run Q w es w'"
  by (induction rule: run.induct) (auto intro: run.intros)

section \<open>What the parts of the whole have in common\<close>

definition compatible :: "'c::len word histogram \<Rightarrow> 'c word histogram \<Rightarrow> bool" where
  "compatible m h \<longleftrightarrow> wf h \<and> h_index h = h_index m \<and> auto_resize h = auto_resize m \<and>
     (\<not> auto_resize m \<longrightarrow> capacity h = capacity m)"

text \<open>A histogram that can take in any compatible one: see \<open>clone_of_max_value_panics\<close> for the rest.\<close>

definition mergeable :: "'c::len word histogram \<Rightarrow> bool" where
  "mergeable m \<longleftrightarrow> wf m \<and> (auto_resize m \<or> capacity m < 2 ^ 64)"

primrec recorder_in :: "'c handle \<Rightarrow> 'c recorder option" where
  "recorder_in (Active r) = Some r"
| "recorder_in (Phasing r p) = Some r"
| "recorder_in (Idle r) = Some r"
| "recorder_in Dropped = None"

definition handle_ok :: "'c::len word histogram \<Rightarrow> 'c word handle \<Rightarrow> bool" where
  "handle_ok m x \<longleftrightarrow> (\<forall>r. recorder_in x = Some r \<longrightarrow> compatible m (local_hist r))"

definition event_ok :: "'c::len word event \<Rightarrow> bool" where
  "event_ok e \<longleftrightarrow> (\<forall>k s. e = Write k (Add s) \<or> e = OwnerWrite (Add s) \<longrightarrow> wf s)"

lemma compatible_evolves:
  "compatible m h \<Longrightarrow> evolves m m' \<Longrightarrow> compatible m' h"
  "compatible m h \<Longrightarrow> evolves h h' \<Longrightarrow> compatible m h'"
  by (auto simp: compatible_def evolves_def)

lemma handle_ok_evolves: "handle_ok m x \<Longrightarrow> evolves m m' \<Longrightarrow> handle_ok m' x"
  unfolding handle_ok_def using compatible_evolves(1) by blast

lemma mergeable_evolves: "mergeable m \<Longrightarrow> evolves m m' \<Longrightarrow> mergeable m'"
  unfolding mergeable_def evolves_def by metis

lemma evolves_blank: "wf h \<Longrightarrow> evolves h (blank h)"
  by (rule evolves_fields) (simp_all add: wf_blank, simp_all add: blank_def)

lemma compatible_refl: "wf m \<Longrightarrow> compatible m m"
  by (simp add: compatible_def)

lemma compatible_wf: "compatible m h \<Longrightarrow> wf h"
  by (simp add: compatible_def)

lemma compatible_new_from: "compatible m h \<Longrightarrow> new_from h = Ok (blank h)"
  by (simp add: compatible_def new_from_eq wfD(1))

lemma bin_count_blank [simp]: "bin_count (blank h) i = 0"
  by (simp add: blank_def bin_count_def)

text \<open>Taking in a compatible histogram never fails, and adds bin by bin.\<close>

lemma merge_compatible:
  fixes m :: "'c::len word histogram"
  assumes "mergeable m" and "compatible m h" and "LENGTH('c) \<le> 64"
  obtains m' where "merge_into m h pc = (m', pc)" and "evolves m m'"
    and "\<And>i. bin_count m' i = min (2 ^ LENGTH('c) - 1) (bin_count m i + bin_count h i)"
proof -
  have w: "wf m" "wf h" and ix: "h_index m = h_index h"
    using assms(1,2) by (simp_all add: mergeable_def compatible_def)
  have fits: "\<not> top_value m < hist_max h \<or> auto_resize m"
  proof (cases "auto_resize m")
    case False
    then have "capacity h = capacity m" "capacity m < 2 ^ 64"
      using assms(1,2) by (simp_all add: mergeable_def compatible_def)
    then have "unat (hist_max h) \<le> min u64_max (capacity m) - 1"
      using hist_max_less_capacity [OF w(2)] by (simp add: u64_max_def)
    then show ?thesis by (simp add: word_less_nat_alt unat_top_value [OF wfD(3) [OF w(1)]])
  qed simp
  obtain m' where a: "add m h = Ok m'" "added m h [0..<length (counts h)] m'"
    by (rule add_added [OF w assms(3) fits])
  have "bin_count m' i = min (2 ^ LENGTH('c) - 1) (bin_count m i + bin_count h i)" for i
    using a(2) moved_same [OF wfD(3) [OF w(2)] ix] by (simp add: added_def sat_def)
  moreover have "evolves m m'" using a(1) by (intro evolves_add [OF w assms(3)]) simp
  ultimately show thesis using a(1) by (intro that [of m']) (simp_all add: merge_into_def)
qed

lemma evolves_perform:
  fixes h :: "'c::len word histogram"
  assumes "wf h" and "perform c h = Some h'" and "LENGTH('c) \<le> 64" and "\<forall>s. c = Add s \<longrightarrow> wf s"
  shows "evolves h h'"
proof (cases c)
  case (RecordN v n)
  then show ?thesis using assms evolves_record_n by auto
next
  case (SaturatingRecordN v n)
  then show ?thesis using assms evolves_record_n_inner_clamp by auto
next
  case (RecordNCorrect v n i)
  then show ?thesis using assms evolves_record_n_correct by auto
next
  case (Add s)
  then show ?thesis using assms evolves_add by auto
next
  case (AddCorrect s i)
  then show ?thesis
    using assms(1,2) evolves_correct_items [OF assms(1)]
    by (auto simp: add_correct_def for_recorded_def split: option.splits res.splits)
next
  case (Subtract s)
  then show ?thesis using assms evolves_subtract by auto
qed

section \<open>The invariant\<close>

primrec live :: "'c handle \<Rightarrow> bool" where
  "live (Active r) = True"
| "live (Phasing r p) = True"
| "live (Idle r) = False"
| "live Dropped = False"

definition lives :: "'c handle list \<Rightarrow> nat" where
  "lives hs = length (filter live hs)"

definition sync_ok :: "'c::len word world \<Rightarrow> bool" where
  "sync_ok w \<longleftrightarrow>
     (let m = merged (owner w); s = sync_shared (owner w)
      in mergeable m \<and> (\<forall>h \<in> set (channel s). compatible m h) \<and>
         (\<forall>x \<in> set (handles w). handle_ok m x) \<and>
         recorders s = of_nat (lives (handles w)) \<and> refreshing w \<noteq> Panicked \<and>
         (connected s \<or> refreshing w = Closed))"

lemma sync_okD:
  assumes "sync_ok w"
  shows "mergeable (merged (owner w))"
    and "h \<in> set (channel (sync_shared (owner w))) \<Longrightarrow> compatible (merged (owner w)) h"
    and "x \<in> set (handles w) \<Longrightarrow> handle_ok (merged (owner w)) x"
    and "recorders (sync_shared (owner w)) = of_nat (lives (handles w))"
    and "refreshing w \<noteq> Panicked"
    and "connected (sync_shared (owner w)) \<or> refreshing w = Closed"
  using assms by (simp_all add: sync_ok_def Let_def)

lemma handle_compatible:
  assumes "sync_ok w" and "k < length (handles w)" and "recorder_in (handles w ! k) = Some r"
  shows "compatible (merged (owner w)) (local_hist r)"
  using sync_okD(3) [OF assms(1), of "handles w ! k"] assms(2,3) by (simp add: handle_ok_def)

lemma lives_update:
  "k < length hs \<Longrightarrow> lives (hs[k := x]) + (if live (hs ! k) then 1 else 0) = lives hs + (if live x then 1 else 0)"
proof (induction hs arbitrary: k)
  case (Cons y hs)
  then show ?case by (cases k) (auto simp: lives_def)
qed simp

lemma lives_append [simp]: "lives (hs @ [x]) = lives hs + (if live x then 1 else 0)"
  by (simp add: lives_def)

text \<open>A step that replaces a handle keeps the invariant if its parts do.\<close>

lemma sync_ok_set_handle:
  assumes "sync_ok w" and "k < length (handles w)" and "handle_ok (merged (owner w)) x"
    and "recorders s = recorders (sync_shared (owner w))
           + (if live x then 1 else 0) - (if live (handles w ! k) then 1 else 0)"
    and "connected s = connected (sync_shared (owner w))"
    and "set (channel s) \<subseteq> set (channel (sync_shared (owner w))) \<union> Collect (compatible (merged (owner w)))"
  shows "sync_ok (set_handle w k x s)"
proof -
  note o = sync_okD [OF assms(1)]
  have "recorders s = of_nat (lives ((handles w)[k := x]))"
  proof -
    have "of_nat (lives ((handles w)[k := x])) + (if live (handles w ! k) then 1 else 0)
        = of_nat (lives (handles w)) + (if live x then 1 else 0 :: u64)"
      using arg_cong [OF lives_update [OF assms(2), of x], of "of_nat :: nat \<Rightarrow> u64"]
      by (auto split: if_splits)
    moreover have "recorders s + (if live (handles w ! k) then 1 else 0)
        = of_nat (lives (handles w)) + (if live x then 1 else 0 :: u64)"
      using assms(4) o(4) by simp
    ultimately show ?thesis by (metis add_right_cancel)
  qed
  then show ?thesis
    using o assms(3,5,6) set_update_subset_insert [of "handles w" k x]
    unfolding sync_ok_def set_handle_def set_shared_def Let_def by auto
qed

lemma sync_ok_new_handle:
  assumes "sync_ok w" and "compatible (merged (owner w)) (local_hist r)"
    and "s = (sync_shared (owner w))\<lparr>recorders := recorders (sync_shared (owner w)) + 1\<rparr>"
  shows "sync_ok (new_handle w r s)"
  using sync_okD [OF assms(1)] assms(2,3)
  unfolding sync_ok_def new_handle_def set_shared_def Let_def
  by (auto simp: handle_ok_def)


lemma sync_ok_start:
  "wf h \<Longrightarrow> auto_resize h \<or> capacity h < 2 ^ 64 \<Longrightarrow> sync_ok (start h)"
  by (simp add: sync_ok_def start_def sync_from_def mergeable_def lives_def)

text \<open>The shared histogram changes: everything that was compatible stays so.\<close>

lemma sync_ok_owner:
  assumes "sync_ok w" and "evolves (merged (owner w)) (merged sh)" and "pc \<noteq> Panicked"
    and "recorders (sync_shared sh) = recorders (sync_shared (owner w))"
    and "connected (sync_shared sh) = connected (sync_shared (owner w))"
    and "set (channel (sync_shared sh)) \<subseteq> set (channel (sync_shared (owner w)))"
    and "pc = Closed \<longleftrightarrow> refreshing w = Closed"
  shows "sync_ok (w\<lparr>owner := sh, refreshing := pc\<rparr>)"
  using sync_okD [OF assms(1)] assms(3-7) mergeable_evolves [OF _ assms(2)]
    compatible_evolves(1) [OF _ assms(2)] handle_ok_evolves [OF _ assms(2)]
  unfolding sync_ok_def Let_def by auto

lemma sync_ok_receive_next:
  fixes w :: "'c::len word world"
  assumes "sync_ok w" and "LENGTH('c) \<le> 64" and "receive_next (owner w) nxt = Some (sh, pc)"
    and "nxt \<noteq> Panicked" and "nxt \<noteq> Closed" and "refreshing w \<noteq> Closed"
  shows "sync_ok (w\<lparr>owner := sh, refreshing := pc\<rparr>)"
proof -
  obtain h q where c: "channel (sync_shared (owner w)) = h # q"
    using assms(3) by (cases "channel (sync_shared (owner w))") (simp_all add: receive_next_def)
  have h: "compatible (merged (owner w)) h" using sync_okD(2) [OF assms(1)] c by simp
  obtain m' where m: "merge_into (merged (owner w)) h nxt = (m', nxt)" "evolves (merged (owner w)) m'"
    by (rule merge_compatible [OF sync_okD(1) [OF assms(1)] h assms(2)])
  then have "pc = nxt"
    "sh = (owner w)\<lparr>merged := m', sync_shared := (sync_shared (owner w))\<lparr>channel := q\<rparr>\<rparr>"
    using assms(3) c by (simp_all add: receive_next_def)
  then show ?thesis using m(2) c assms(4-6) by (intro sync_ok_owner [OF assms(1)]) auto
qed

lemma evolves_refl_owner: "sync_ok w \<Longrightarrow> evolves (merged (owner w)) (merged (owner w))"
  using sync_okD(1) [of w] by (simp add: mergeable_def evolves_refl)

lemma sync_ok_refresh_step:
  fixes w :: "'c::len word world"
  assumes "sync_ok w" and "LENGTH('c) \<le> 64"
    and "refresh_step timeout (owner w) (refreshing w) = Some (sh, pc)"
  shows "sync_ok (w\<lparr>owner := sh, refreshing := pc\<rparr>)"
proof -
  note ok = evolves_refl_owner [OF assms(1)]
  have keep: "sync_ok (w\<lparr>owner := (owner w)\<lparr>sync_shared := (sync_shared (owner w))\<lparr>phase := p\<rparr>\<rparr>, refreshing := pc'\<rparr>)"
    if "pc' \<noteq> Panicked" "pc' \<noteq> Closed" "refreshing w \<noteq> Closed" for p pc'
    using that ok by (intro sync_ok_owner [OF assms(1)]) auto
  note same = keep [where p = "phase (sync_shared (owner w))"]
  note rcv = sync_ok_receive_next [OF assms(1,2)]
  show ?thesis
  proof (cases "refreshing w")
    case (Draining t)
    then show ?thesis
      using assms(3) same rcv [of "Draining t"] by (auto split: option.splits)
  next
    case (Waiting t p n)
    then show ?thesis
      using assms(3) same rcv [of "Waiting t (p + 1) n"] by (auto split: if_splits)
  next
    case Gobbling
    then show ?thesis
      using assms(3) same rcv [of Gobbling] by (auto split: option.splits)
  qed (use assms(3) keep same in auto)
qed

text \<open>What the operations of recorders amount to on a compatible histogram.\<close>

lemma recorder_ops:
  assumes "wf (local_hist r)"
  shows "update r s = Ok (r\<lparr>local_hist := blank (local_hist r)\<rparr>, send s (local_hist r))"
    and "clone_recorder r s = Ok (\<lparr>local_hist = blank (local_hist r), last_phase = last_phase r\<rparr>,
           s\<lparr>recorders := recorders s + 1\<rparr>)"
    and "drop_recorder r s = Ok (send (s\<lparr>recorders := recorders s - 1\<rparr>) (local_hist r))"
    and "deactivate r s =
           (if phase s \<noteq> last_phase r
            then Ok (r\<lparr>local_hist := blank (local_hist r), last_phase := phase s\<rparr>,
                     send (s\<lparr>recorders := recorders s - 1\<rparr>) (local_hist r))
            else Ok (r, s\<lparr>recorders := recorders s - 1\<rparr>))"
  by (cases r, simp_all add: update_def shed_def clone_recorder_def drop_recorder_def deactivate_def
      Let_def new_from_eq [OF wfD(1) [OF assms]])
    (insert assms, simp_all add: new_from_eq wfD(1))

lemma recorder_of_eq:
  "wf (merged sh) \<Longrightarrow> recorder_of sh = Ok (\<lparr>local_hist = blank (merged sh), last_phase = phase (sync_shared sh)\<rparr>,
     (sync_shared sh)\<lparr>recorders := recorders (sync_shared sh) + 1\<rparr>)"
  by (simp add: recorder_of_def new_from_eq wfD(1) Let_def)

lemma send_simps [simp]:
  "recorders (send s h) = recorders s" "phase (send s h) = phase s"
  "connected (send s h) = connected s" "set (channel (send s h)) \<subseteq> insert h (set (channel s))"
  "channel (send s h) = (if connected s then channel s @ [h] else channel s)"
  by (auto simp: send_def)


lemma compatible_blank: "compatible m h \<Longrightarrow> compatible m (blank h)"
  by (rule compatible_evolves(2) [OF _ evolves_blank]) (simp_all add: compatible_wf)

text \<open>
  The outcome of every step, with the operations evaluated: on a compatible histogram none of them
  fails. The recorders that join, those that change, and the rest.
\<close>

lemma sync_step_forms:
  fixes w :: "'c::len word world"
  defines "m \<equiv> merged (owner w)" and "s \<equiv> sync_shared (owner w)"
  assumes "sync_step w e w'" and "sync_ok w"
  obtains
    (join) h p where "e = NewRecorder \<and> p = phase s \<or>
        (\<exists>k r. k < length (handles w) \<and> p = last_phase r \<and>
          (e = CloneRecorder k \<and> handles w ! k = Active r \<or> e = CloneIdle k \<and> handles w ! k = Idle r))"
      and "compatible m h"
      and "w' = new_handle w \<lparr>local_hist = blank h, last_phase = p\<rparr> (s\<lparr>recorders := recorders s + 1\<rparr>)"
  | (drop_recorder) k r where "e = DropRecorder k" and "k < length (handles w)" and "handles w ! k = Active r"
      and "compatible m (local_hist r)"
      and "w' = set_handle w k Dropped (send (s\<lparr>recorders := recorders s - 1\<rparr>) (local_hist r))"
  | (idle_quietly) k r where "e = GoIdle k" and "k < length (handles w)" and "handles w ! k = Active r"
      and "compatible m (local_hist r)" and "last_phase r = phase s"
      and "w' = set_handle w k (Idle r) (s\<lparr>recorders := recorders s - 1\<rparr>)"
  | (idle_sending) k r where "e = GoIdle k" and "k < length (handles w)" and "handles w ! k = Active r"
      and "compatible m (local_hist r)" and "last_phase r \<noteq> phase s"
      and "w' = set_handle w k (Idle \<lparr>local_hist = blank (local_hist r), last_phase = phase s\<rparr>)
        (send (s\<lparr>recorders := recorders s - 1\<rparr>) (local_hist r))"
  | (activate) k r where "e = Activate k" and "k < length (handles w)" and "handles w ! k = Idle r"
      and "compatible m (local_hist r)"
      and "w' = set_handle w k (Active (r\<lparr>last_phase := phase s\<rparr>)) (s\<lparr>recorders := recorders s + 1\<rparr>)"
  | (write_local) k c r l where "e = Write k c" and "k < length (handles w)" and "handles w ! k = Active r"
      and "compatible m (local_hist r)" and "perform c (local_hist r) = Some l"
      and "w' = set_handle w k (if phase s \<noteq> last_phase r then Phasing (r\<lparr>local_hist := l\<rparr>) (phase s)
        else Active (r\<lparr>local_hist := l\<rparr>)) s"
  | (send) k r p where "e = Send k" and "k < length (handles w)" and "handles w ! k = Phasing r p"
      and "compatible m (local_hist r)"
      and "w' = set_handle w k (Active \<lparr>local_hist = blank (local_hist r), last_phase = p\<rparr>) (Sync.send s (local_hist r))"
  | (owner_write) c g where "e = OwnerWrite c" and "refreshing w = Resting" and "perform c m = Some g"
      and "w' = w\<lparr>owner := (owner w)\<lparr>merged := g\<rparr>\<rparr>"
  | (start_refresh) t where "e = StartRefresh t" and "refreshing w = Resting"
      and "w' = w\<lparr>refreshing := Draining t\<rparr>"
  | (refresh) t sh pc where "e = Refresh t" and "refresh_step t (owner w) (refreshing w) = Some (sh, pc)"
      and "w' = w\<lparr>owner := sh, refreshing := pc\<rparr>"
  | (close_owner) "e = CloseOwner" and "refreshing w = Resting"
      and "w' = (set_shared w (close s))\<lparr>refreshing := Closed\<rparr>"
proof -
  have m: "compatible m m" using sync_okD(1) [OF assms(4)] by (simp add: mergeable_def compatible_refl m_def)
  have c: "compatible m (local_hist r)" if "k < length (handles w)" "recorder_in (handles w ! k) = Some r" for k r
    using handle_compatible [OF assms(4) that] by (simp add: m_def)
  note ops = recorder_ops [OF compatible_wf [OF c]]
  note defs = m_def [symmetric] s_def [symmetric]
  from assms(3) show thesis
  proof cases
    case (new_recorder r t)
    then show thesis using m by (intro join) (auto simp: defs recorder_of_eq [OF compatible_wf [OF m [unfolded m_def]]])
  next
    case (clone_recorder k r0 r t)
    then show thesis using c [of k r0]
      by (intro join [of "last_phase r0" "local_hist r0"]) (auto simp: defs ops(2) [of k r0])
  next
    case (clone_idle k r0 r t)
    then show thesis
      using c [of k r0]
      by (intro join [of "last_phase r0" "local_hist r0"]) (auto simp: defs idle_recorder_recorder_def ops(2) [of k r0])
  next
    case (drop_recorder k r t)
    then show thesis using c [of k r] by (intro that(2) [of k r]) (auto simp: defs ops(3) [of k r])
  next
    case (go_idle k r r' t)
    then have k: "k < length (handles w)" "recorder_in (handles w ! k) = Some r"
      and d: "deactivate r s = (Ok (r', t) :: (unit, _) res)" by (auto simp: defs idle_def bind_res_eq_Ok)
    show thesis
    proof (cases "last_phase r = phase s")
      case True
      then have "r' = r" "t = s\<lparr>recorders := recorders s - 1\<rparr>" using d by (simp_all add: ops(4) [OF k])
      then show thesis using go_idle c [OF k] True by (intro that(3) [of k r]) auto
    next
      case False
      then have "r' = r\<lparr>local_hist := blank (local_hist r), last_phase := phase s\<rparr>"
        "t = send (s\<lparr>recorders := recorders s - 1\<rparr>) (local_hist r)"
        using d False by (auto simp: ops(4) [OF k])
      then show thesis using go_idle c [OF k] False by (intro that(4) [of k r]; cases r) auto
    qed
  next
    case (activate k r r' t)
    then show thesis using c [of k r] by (intro that(5) [of k r]) (auto simp: defs activate_def reactivate_def)
  next
    case (write_local k r c' l p x)
    then show thesis using c [of k r] by (intro that(6) [of k c' r l]) (auto simp: defs)
  next
    case (send k r p r' t)
    then have "r' = r\<lparr>local_hist := blank (local_hist r)\<rparr>" "t = Sync.send s (local_hist r)"
      by (auto simp: defs ops(1) [of k r])
    then show thesis using send c [of k r] by (intro that(7) [of k r p]; cases r) auto
  next
    case (start_refresh t)
    then show thesis by (intro that(9)) (auto simp: refresh_start_def)
  qed (auto simp: defs intro: that(8,10,11))
qed

text \<open>The invariant through a step.\<close>

lemma sync_step_ok:
  fixes w :: "'c::len word world"
  assumes "sync_step w e w'" and "sync_ok w" and "event_ok e" and "LENGTH('c) \<le> 64"
  shows "sync_ok w'"
  using assms(1,2)
proof (cases rule: sync_step_forms)
  case (write_local k c r l)
  then have "evolves (local_hist r) l"
    using assms(3) by (intro evolves_perform [OF compatible_wf _ assms(4)]) (auto simp: event_ok_def)
  from compatible_evolves(2) [OF write_local(4) this] show ?thesis
    unfolding write_local(6)
    using write_local(2,3) by (intro sync_ok_set_handle [OF assms(2)]) (auto simp: handle_ok_def)
next
  case (owner_write c m)
  then have "evolves (merged (owner w)) m"
    using assms(3) sync_okD(1) [OF assms(2)]
    by (intro evolves_perform [OF _ _ assms(4)]) (auto simp: event_ok_def mergeable_def)
  then have "sync_ok (w\<lparr>owner := (owner w)\<lparr>merged := m\<rparr>, refreshing := refreshing w\<rparr>)"
    by (intro sync_ok_owner [OF assms(2)]) (simp_all add: owner_write(2))
  then show ?thesis by (simp add: owner_write(4))
next
  case (refresh t sh pc)
  then show ?thesis using sync_ok_refresh_step [OF assms(2,4)] by simp
next
  case start_refresh
  then show ?thesis using sync_okD [OF assms(2)] unfolding sync_ok_def by (auto simp: Let_def)
next
  case close_owner
  then show ?thesis
    using sync_okD [OF assms(2)] unfolding sync_ok_def by (auto simp: Let_def set_shared_def close_def)
next
  case (join h p)
  show ?thesis
    unfolding join(3) by (rule sync_ok_new_handle [OF assms(2)]) (simp_all add: compatible_blank join(2))
qed (auto simp: handle_ok_def compatible_blank split: if_splits intro!: sync_ok_set_handle [OF assms(2)])

lemma sync_ok_run:
  fixes w :: "'c::len word world"
  assumes "run allowed w es w'" and "sync_ok w" and "\<And>v e. allowed v e \<Longrightarrow> event_ok e" and "LENGTH('c) \<le> 64"
  shows "sync_ok w'"
  by (rule run_invariant [where I = sync_ok, OF assms(1,2)]) (blast intro: sync_step_ok assms(3,4))


section \<open>One histogram behind the threads\<close>

definition handle_count :: "nat \<Rightarrow> 'c::len word handle \<Rightarrow> nat" where
  "handle_count i x = (case recorder_in x of None \<Rightarrow> 0 | Some r \<Rightarrow> bin_count (local_hist r) i)"

definition queued :: "nat \<Rightarrow> 'c::len word shared \<Rightarrow> nat" where
  "queued i s = sum_list (map (\<lambda>h. bin_count h i) (channel s))"

text \<open>Bin \<open>i\<close> of the whole: what is merged, in the channel, and with the recorders.\<close>

definition sync_bins :: "'c::len word world \<Rightarrow> nat \<Rightarrow> nat" where
  "sync_bins w i = min (2 ^ LENGTH('c) - 1)
     (bin_count (merged (owner w)) i + queued i (sync_shared (owner w))
        + sum_list (map (handle_count i) (handles w)))"

text \<open>What of bin \<open>i\<close> has not reached the owner.\<close>

definition unmerged :: "'c::len word world \<Rightarrow> nat \<Rightarrow> nat" where
  "unmerged w i = queued i (sync_shared (owner w)) + sum_list (map (handle_count i) (handles w))"

text \<open>
  What a value recorded with the values it stands for adds to bin \<open>i\<close>, for histograms that map
  values to bins with \<open>h_index g\<close>.
\<close>

definition spread :: "'c::len word histogram \<Rightarrow> u64 \<Rightarrow> 'c word \<Rightarrow> u64 \<Rightarrow> nat \<Rightarrow> nat" where
  "spread g v n k i =
     sum_list (map (\<lambda>u. if h_index g (unat u) = i then unat n else 0) (correct_values v k))"

text \<open>Whether a value fits, or the histogram may grow.\<close>

definition room :: "'c histogram \<Rightarrow> u64 \<Rightarrow> bool" where
  "room g v \<longleftrightarrow> auto_resize g \<or> unat v < capacity g"

text \<open>
  What a call adds to bin \<open>i\<close>. One that is out of range fails: it adds nothing or, where it goes
  through the bins of another histogram, what comes before the first bin that is out of range.
\<close>

fun contribution :: "'c::len word histogram \<Rightarrow> 'c word call \<Rightarrow> nat \<Rightarrow> nat" where
  "contribution g (RecordN v n) i = (if room g v \<and> h_index g (unat v) = i then unat n else 0)"
| "contribution g (SaturatingRecordN v n) i = (if h_index g (unat v) = i then unat n else 0)"
| "contribution g (RecordNCorrect v n k) i = (if room g v then spread g v n k i else 0)"
| "contribution g (Add s) i =
     (if auto_resize g \<or> unat (hist_max s) < min u64_max (capacity g)
      then moved g s [0..<length (counts s)] i else 0)"
| "contribution g (AddCorrect s k) i =
     sum_list (map (\<lambda>j. spread g (bin_top s j) (counts s ! j) k i)
       (takeWhile (\<lambda>j. room g (bin_top s j)) (recorded_bins s)))"
| "contribution g (Subtract s) i = 0"

text \<open>
  The calls of the refinement: all but subtractions, and the saturating form, which clamps to the range
  of the histogram it is called on, only where there is nothing to clamp.
\<close>

fun accepts :: "'c::len word histogram \<Rightarrow> 'c word call \<Rightarrow> bool" where
  "accepts g (RecordN v n) \<longleftrightarrow> True"
| "accepts g (SaturatingRecordN v n) \<longleftrightarrow> unat v < capacity g \<and> \<not> auto_resize g"
| "accepts g (RecordNCorrect v n k) \<longleftrightarrow> True"
| "accepts g (Add s) \<longleftrightarrow> wf s"
| "accepts g (AddCorrect s k) \<longleftrightarrow> wf s"
| "accepts g (Subtract s) \<longleftrightarrow> False"

fun accepts_event :: "'c::len word histogram \<Rightarrow> 'c word event \<Rightarrow> bool" where
  "accepts_event g (Write k c) \<longleftrightarrow> accepts g c"
| "accepts_event g (OwnerWrite c) \<longleftrightarrow> accepts g c"
| "accepts_event g CloseOwner \<longleftrightarrow> False"
| "accepts_event g e \<longleftrightarrow> True"

text \<open>
  The specification: one histogram, to which every call is applied at once, wherever it is made;
  all that passes between the threads leaves it as it is.
\<close>

fun spec_event :: "'c::len word histogram \<Rightarrow> (nat \<Rightarrow> nat) \<Rightarrow> 'c word event \<Rightarrow> nat \<Rightarrow> nat" where
  "spec_event g b (Write k c) = (\<lambda>i. min (2 ^ LENGTH('c) - 1) (b i + contribution g c i))"
| "spec_event g b (OwnerWrite c) = (\<lambda>i. min (2 ^ LENGTH('c) - 1) (b i + contribution g c i))"
| "spec_event g b e = b"

lemma bin_count_foldl_bump:
  fixes h :: "'c::len word histogram"
  assumes "wf h" and "\<forall>w \<in> set ws. unat w < capacity h"
  shows "bin_count (foldl (\<lambda>h w. bump h w c) h ws) i = min (2 ^ LENGTH('c) - 1)
    (bin_count h i + sum_list (map (\<lambda>u. if h_index h (unat u) = i then unat c else 0) ws))"
  using assms
proof (induction ws arbitrary: h)
  case Nil
  then show ?case using bin_count_less [of h i] by simp
next
  case (Cons u ws)
  then have u: "unat u < capacity h" by simp
  note b = bin_count_bump [OF wfD(3) [OF Cons.prems(1)] u, of c]
  have "bin_count (bump h u c) i = min (2 ^ LENGTH('c) - 1)
      (bin_count h i + (if h_index h (unat u) = i then unat c else 0))"
    using bin_count_less [of h i] by (auto simp: b)
  with Cons.IH [OF wf_bump [OF Cons.prems(1) u, of c]] Cons.prems(2) show ?case
    by (simp only: foldl.simps list.map sum_list.Cons bump_fields list.set ball_simps
        min_min_add add.assoc) simp
qed

lemma min_bin_count [simp]:
  "min (2 ^ LENGTH('c) - Suc 0) (bin_count h i) = bin_count (h :: 'c::len word histogram) i"
  using bin_count_less [of h i] by simp

text \<open>A compatible histogram has the same room.\<close>

lemma record_room:
  assumes "compatible g h"
  shows "room g v \<Longrightarrow> \<exists>h'. record_n h v n = Ok h'"
    and "\<not> room g v \<Longrightarrow> record_n h v n = Err (ValueOutOfRangeResizeDisabled, h)"
  using assms by (auto simp: compatible_def room_def record_n_def record_n_inner_eq wfD(1))

lemma add_fits:
  assumes "compatible g h"
  shows "\<not> top_value h < hist_max s \<or> auto_resize h \<longleftrightarrow>
    auto_resize g \<or> unat (hist_max s) < min u64_max (capacity g)"
proof (cases "auto_resize g")
  case False
  have w: "wf h" and c: "capacity h = capacity g" and n: "\<not> auto_resize h"
    using assms False by (simp_all add: compatible_def)
  have "0 < min u64_max (capacity g)"
    using highest_less_capacity [OF wfD(1) [OF w]] by (simp add: c u64_max_def)
  then show ?thesis using n False by (simp add: word_less_nat_alt unat_top_value [OF wfD(3) [OF w]] c) linarith
qed (use assms in \<open>simp add: compatible_def\<close>)

lemma record_n_correct_contribution:
  fixes g :: "'c::len word histogram"
  assumes "compatible g h" and "record_n h v n = Ok h1"
  obtains h' where "record_n_correct h v n k = Ok h'"
    and "\<And>i. bin_count h' i = min (2 ^ LENGTH('c) - 1) (bin_count h i + spread g v n k i)"
proof -
  have h: "wf h" "h_index h = h_index g" using assms(1) by (simp_all add: compatible_def)
  obtain f where f: "wf f" "unat v < capacity f"
    "f = h \<or> auto_resize h \<and> capacity h \<le> unat v \<and> f = grown h v"
    "record_n_correct h v n k = Ok (foldl (\<lambda>h w. bump h w n) f (correct_values v k))"
    by (rule record_n_correct_eq [OF h(1) assms(2)])
  have fh: "bin_count f = bin_count h" "h_index f = h_index g"
    using f(3) bin_count_grown [OF wfD(1) [OF h(1)]] grown_facts(6) [OF wfD(1) [OF h(1)]] h(2) by auto
  have "\<forall>w \<in> set (correct_values v k). unat w < capacity f"
    using f(2) by (auto intro: le_less_trans [OF correct_values_le])
  from bin_count_foldl_bump [OF f(1) this] show thesis
    using f(4) by (intro that) (simp_all add: fh spread_def)
qed

text \<open>Each bin is recorded into what the bins before it left, which is still compatible.\<close>

lemma correct_items_contribution:
  fixes g :: "'c::len word histogram"
  assumes "compatible g h"
  shows "\<exists>h'. left_behind (correct_items h (map (bin_item s) js) k) = Some h' \<and>
    (\<forall>i. bin_count h' i = min (2 ^ LENGTH('c) - 1)
       (bin_count h i + sum_list (map (\<lambda>j. spread g (bin_top s j) (counts s ! j) k i)
          (takeWhile (\<lambda>j. room g (bin_top s j)) js))))"
  using assms
proof (induction js arbitrary: h)
  case (Cons j js)
  show ?case
  proof (cases "room g (bin_top s j)")
    case True
    then obtain h1 where "record_n h (bin_top s j) (counts s ! j) = Ok h1"
      using record_room(1) [OF Cons.prems] by blast
    then obtain h2 where h2: "record_n_correct h (bin_top s j) (counts s ! j) k = Ok h2"
      "\<And>i. bin_count h2 i = min (2 ^ LENGTH('c) - 1) (bin_count h i + spread g (bin_top s j) (counts s ! j) k i)"
      using record_n_correct_contribution [OF Cons.prems, of "bin_top s j" "counts s ! j" h1 k] by auto
    have "evolves h h2"
      by (rule evolves_record_n_correct [OF compatible_wf [OF Cons.prems],
          of "bin_top s j" "counts s ! j" k]) (simp add: h2(1))
    then have "compatible g h2" by (rule compatible_evolves(2) [OF Cons.prems])
    from Cons.IH [OF this] obtain h' where
      "left_behind (correct_items h2 (map (bin_item s) js) k) = Some h'"
      "\<And>i. bin_count h' i = min (2 ^ LENGTH('c) - 1)
         (bin_count h2 i + sum_list (map (\<lambda>j. spread g (bin_top s j) (counts s ! j) k i)
            (takeWhile (\<lambda>j. room g (bin_top s j)) js)))" by auto
    then show ?thesis using h2 True by (auto simp: min_min_add add.assoc)
  next
    case False
    then show ?thesis using record_room(2) [OF Cons.prems] by (simp add: record_n_correct_def)
  qed
qed simp

lemma perform_contribution:
  fixes g :: "'c::len word histogram"
  assumes "compatible g h" and "accepts g c" and "LENGTH('c) \<le> 64" and "wf g"
  obtains h' where "perform c h = Some h'"
    and "\<And>i. bin_count h' i = min (2 ^ LENGTH('c) - 1) (bin_count h i + contribution g c i)"
proof -
  have h: "wf h" "h_index h = h_index g"
    and cap: "\<not> auto_resize g \<Longrightarrow> capacity h = capacity g"
    using assms(1) by (simp_all add: compatible_def)
  show thesis
  proof (cases c)
    case (RecordN v n)
    show thesis
    proof (cases "room g v")
      case True
      then obtain h' where r: "record_n h v n = Ok h'" using record_room(1) [OF assms(1)] by blast
      show thesis
        using RecordN r record_n_bin_count [OF h(1) r] h(2) True
        by (intro that [of h']) (auto simp: fun_upd_def)
    qed (use RecordN record_room(2) [OF assms(1)] in \<open>auto intro!: that [of h]\<close>)
  next
    case (SaturatingRecordN v n)
    then have v: "unat v < capacity h" using assms(2) cap by simp
    then have "record_n_inner h v n True = Ok (bump h v n)"
      by (simp add: record_n_inner_clamp [OF wfD(1) [OF h(1)]])
    then show thesis
      using SaturatingRecordN bin_count_bump [OF wfD(3) [OF h(1)] v, of n] h(2)
      by (intro that [of "bump h v n"]) (auto simp: fun_upd_def)
  next
    case (RecordNCorrect v n k)
    show thesis
    proof (cases "room g v")
      case True
      then obtain h1 where "record_n h v n = Ok h1" using record_room(1) [OF assms(1)] by blast
      then show thesis
        using RecordNCorrect True
        by (elim record_n_correct_contribution [OF assms(1), of v n _ k]) (auto intro: that)
    qed (use RecordNCorrect record_room(2) [OF assms(1)] in \<open>auto intro!: that [of h] simp: record_n_correct_def\<close>)
  next
    case (Add s)
    then have s: "wf s" using assms(2) by simp
    show thesis
    proof (cases "\<not> top_value h < hist_max s \<or> auto_resize h")
      case True
      then obtain h' where "add h s = Ok h'" "added h s [0..<length (counts s)] h'"
        using add_added [OF h(1) s assms(3)] by auto
      then show thesis
        using Add True moved_cong [OF h(2)] add_fits [OF assms(1), of s]
        by (intro that [of h']) (simp_all add: added_def sat_def)
    next
      case False
      then have "add h s = Err (OtherAddendValueExceedsRange, h)" by (simp add: add_eq [OF h(1)])
      then show thesis using Add False add_fits [OF assms(1), of s] by (intro that [of h]) auto
    qed
  next
    case (AddCorrect s k)
    then have s: "wf s" using assms(2) by simp
    obtain h' where "left_behind (correct_items h (map (bin_item s) (recorded_bins s)) k) = Some h'"
      "\<And>i. bin_count h' i = min (2 ^ LENGTH('c) - 1) (bin_count h i + contribution g c i)"
      using correct_items_contribution [OF assms(1), of s "recorded_bins s" k] AddCorrect by auto
    then show thesis
      using AddCorrect
      by (intro that [of h']) (simp_all add: add_correct_def for_recorded_def iter_recorded_bins [OF s assms(3)])
  qed (use assms(2) in simp_all)
qed

lemma sum_list_map_update:
  "k < length xs \<Longrightarrow> sum_list (map f (xs[k := x])) + f (xs ! k) = sum_list (map f xs) + (f x :: nat)"
proof (induction xs arbitrary: k)
  case (Cons y xs)
  then show ?case by (cases k) (auto simp: algebra_simps)
qed simp

text \<open>A step that moves samples about between a handle and the channel.\<close>

lemma sync_bins_set_handle:
  fixes w :: "'c::len word world"
  assumes "k < length (handles w)"
    and "\<And>i. handle_count i x + queued i s = handle_count i (handles w ! k) + queued i (sync_shared (owner w))"
  shows "sync_bins (set_handle w k x s) = sync_bins w"
proof
  fix i
  have "sum_list (map (handle_count i) ((handles w)[k := x])) + queued i s
      = sum_list (map (handle_count i) (handles w)) + queued i (sync_shared (owner w))"
    using sum_list_map_update [OF assms(1), of "handle_count i" x] assms(2) [of i] by linarith
  then show "sync_bins (set_handle w k x s) i = sync_bins w i"
    unfolding sync_bins_def set_handle_def set_shared_def by (simp add: ac_simps)
qed


lemma min_replace:
  "y \<le> t \<Longrightarrow> min M (a + q + (t - y + min M (y + c))) = min M (min M (a + q + t) + (c :: nat))"
proof -
  assume "y \<le> t"
  then obtain d where t: "t = y + d" by (metis le_iff_add)
  have "min M (a + q + (t - y + min M (y + c))) = min M (min M (y + c) + (a + q + d))"
    by (simp add: t ac_simps)
  also have "\<dots> = min M (min M (a + q + t) + c)"
    by (simp only: min_min_add t ac_simps)
  finally show ?thesis .
qed

lemma sync_bins_write:
  fixes w :: "'c::len word world"
  assumes "k < length (handles w)"
    and "\<And>i. handle_count i x = min (2 ^ LENGTH('c) - 1) (handle_count i (handles w ! k) + d i)"
  shows "sync_bins (set_handle w k x (sync_shared (owner w)))
    = (\<lambda>i. min (2 ^ LENGTH('c) - 1) (sync_bins w i + d i))"
proof
  fix i
  let ?t = "sum_list (map (handle_count i) (handles w))" and ?y = "handle_count i (handles w ! k)"
  have le: "?y \<le> ?t" using assms(1) by (intro member_le_sum_list) auto
  then have "sum_list (map (handle_count i) ((handles w)[k := x])) = ?t - ?y + handle_count i x"
    using sum_list_map_update [OF assms(1), of "handle_count i" x] by linarith
  then show "sync_bins (set_handle w k x (sync_shared (owner w))) i
      = min (2 ^ LENGTH('c) - 1) (sync_bins w i + d i)"
    unfolding sync_bins_def set_handle_def set_shared_def
    by (simp add: assms(2) min_replace [OF le] del: One_nat_def)
qed

lemma sync_bins_new_handle:
  assumes "bin_count (local_hist r) = (\<lambda>_. 0)" and "channel s = channel (sync_shared (owner w))"
  shows "sync_bins (new_handle w r s) = sync_bins w"
  using assms by (simp add: sync_bins_def new_handle_def set_shared_def handle_count_def queued_def fun_eq_iff)

lemma sync_bins_receive_next:
  fixes w :: "'c::len word world"
  assumes "sync_ok w" and "LENGTH('c) \<le> 64" and "receive_next (owner w) nxt = Some (sh, pc)"
  shows "sync_bins (w\<lparr>owner := sh, refreshing := pc\<rparr>) = sync_bins w"
proof -
  obtain h q where c: "channel (sync_shared (owner w)) = h # q"
    using assms(3) by (cases "channel (sync_shared (owner w))") (simp_all add: receive_next_def)
  have h: "compatible (merged (owner w)) h" using sync_okD(2) [OF assms(1)] c by simp
  obtain m' where m: "merge_into (merged (owner w)) h nxt = (m', nxt)"
    "\<And>i. bin_count m' i = min (2 ^ LENGTH('c) - 1) (bin_count (merged (owner w)) i + bin_count h i)"
    by (rule merge_compatible [OF sync_okD(1) [OF assms(1)] h assms(2), of nxt]) auto
  then have sh: "sh = (owner w)\<lparr>merged := m', sync_shared := (sync_shared (owner w))\<lparr>channel := q\<rparr>\<rparr>"
    using assms(3) c by (simp add: receive_next_def)
  show ?thesis
    by (rule ext) (simp add: sh sync_bins_def queued_def c m(2) min_min_add add.assoc del: One_nat_def)
qed

lemma sync_bins_refresh_step:
  fixes w :: "'c::len word world"
  assumes "sync_ok w" and "LENGTH('c) \<le> 64"
    and "refresh_step timeout (owner w) (refreshing w) = Some (sh, pc)"
  shows "sync_bins (w\<lparr>owner := sh, refreshing := pc\<rparr>) = sync_bins w"
proof -
  note rcv = sync_bins_receive_next [OF assms(1,2)]
  have keep: "sync_bins (w\<lparr>owner := owner w, refreshing := pc'\<rparr>) = sync_bins w"
      "sync_bins (w\<lparr>owner := (owner w)\<lparr>sync_shared := (sync_shared (owner w))\<lparr>phase := p\<rparr>\<rparr>, refreshing := pc'\<rparr>) = sync_bins w"
    for p pc'
    by (simp_all add: sync_bins_def queued_def fun_eq_iff)
  show ?thesis
  proof (cases "refreshing w")
    case (Draining t)
    then show ?thesis
      using assms(3) keep(1) rcv [of "Draining t"] by (auto split: option.splits)
  next
    case (Waiting t p n)
    then show ?thesis
      using assms(3) keep(1) rcv [of "Waiting t (p + 1) n"] by (auto split: if_splits)
  next
    case Gobbling
    then show ?thesis
      using assms(3) keep(1) rcv [of Gobbling] by (auto split: option.splits)
  qed (use assms(3) keep in auto)
qed

lemma refresh_step_Closed: "refresh_step t sh pc = Some (sh', Closed) \<Longrightarrow> wf (merged sh) \<Longrightarrow> False"
  by (cases pc) (auto simp: receive_next_def merge_into_def split: option.splits list.splits if_splits res.splits)

text \<open>The state between the steps: the invariant, and the owner's histogram grown out of \<open>g\<close>.\<close>

definition tracks :: "'c::len word histogram \<Rightarrow> 'c word world \<Rightarrow> bool" where
  "tracks g w \<longleftrightarrow> sync_ok w \<and> refreshing w \<noteq> Closed \<and> compatible g (merged (owner w)) \<and> wf g"

lemma tracksD:
  assumes "tracks g w"
  shows "sync_ok w" and "connected (sync_shared (owner w))" and "wf g"
    and "compatible g (merged (owner w))"
    and "compatible (merged (owner w)) h \<Longrightarrow> compatible g h"
proof -
  show "connected (sync_shared (owner w))"
    using assms sync_okD(6) [of w] by (auto simp: tracks_def)
  show "compatible (merged (owner w)) h \<Longrightarrow> compatible g h"
    using assms unfolding tracks_def compatible_def by metis
qed (use assms in \<open>simp_all add: tracks_def\<close>)


lemma sync_step_spec:
  fixes w :: "'c::len word world"
  assumes "tracks g w" and "accepts_event g e" and "sync_step w e w'" and "LENGTH('c) \<le> 64"
  shows "sync_bins w' = spec_event g (sync_bins w) e"
proof -
  note t = tracksD [OF assms(1)]
  note [simp] = handle_count_def queued_def t(2)
  from assms(3) t(1) show ?thesis
  proof (cases rule: sync_step_forms)
    case (join h p)
    have "sync_bins w' = sync_bins w"
      unfolding join(3) by (rule sync_bins_new_handle) (simp_all add: fun_eq_iff)
    then show ?thesis using join(1) by auto
  next
    case (write_local k c r l)
    then have "compatible g (local_hist r)" by (intro t(5))
    then have "\<And>i. bin_count l i = min (2 ^ LENGTH('c) - 1) (bin_count (local_hist r) i + contribution g c i)"
      using perform_contribution [OF _ _ assms(4) t(3), of "local_hist r" c] assms(2) write_local(1,5) by auto
    then show ?thesis
      unfolding write_local(1,6) spec_event.simps
      using write_local(3) by (intro sync_bins_write write_local(2)) auto
  next
    case (owner_write c m)
    have "\<And>i. bin_count m i = min (2 ^ LENGTH('c) - 1) (bin_count (merged (owner w)) i + contribution g c i)"
      using perform_contribution [OF t(4) _ assms(4) t(3), of c] assms(2) owner_write(1,3) by auto
    then show ?thesis
      unfolding owner_write(1,4) by (auto simp: sync_bins_def fun_eq_iff min_def)
  next
    case (start_refresh b)
    then show ?thesis by (simp add: sync_bins_def fun_eq_iff)
  next
    case (refresh b sh pc)
    then show ?thesis using sync_bins_refresh_step [OF t(1) assms(4)] by simp
  qed (use assms(2) in \<open>auto intro!: sync_bins_set_handle\<close>)
qed


lemma tracks_start:
  "wf h \<Longrightarrow> auto_resize h \<or> capacity h < 2 ^ 64 \<Longrightarrow> tracks h (start h)"
  by (simp add: tracks_def sync_ok_start compatible_refl) (simp add: start_def sync_from_def compatible_refl)

lemma accepts_event_ok: "accepts_event g e \<Longrightarrow> event_ok e"
  by (cases e) (auto simp: event_ok_def)

lemma refresh_step_evolves:
  fixes sh :: "'c::len word sync_histogram"
  assumes "refresh_step t sh pc = Some (sh', pc')" and "mergeable (merged sh)" and "LENGTH('c) \<le> 64"
    and "\<forall>h \<in> set (channel (sync_shared sh)). compatible (merged sh) h"
  shows "evolves (merged sh) (merged sh')" and "pc' \<noteq> Closed"
proof -
  have rcv: "evolves (merged sh) (merged sh') \<and> pc' = n" if r: "receive_next sh n = Some (sh', pc')" for n
  proof -
    obtain h q where c: "channel (sync_shared sh) = h # q"
      using r by (cases "channel (sync_shared sh)") (simp_all add: receive_next_def)
    then have "compatible (merged sh) h" using assms(4) by simp
    then obtain m where "merge_into (merged sh) h n = (m, n)" "evolves (merged sh) m"
      by (rule merge_compatible [OF assms(2) _ assms(3)])
    then show ?thesis using r c by (auto simp: receive_next_def)
  qed
  have w: "evolves (merged sh) (merged sh)" using assms(2) by (simp add: mergeable_def evolves_refl)
  have "evolves (merged sh) (merged sh') \<and> pc' \<noteq> Closed"
    using assms(1) w rcv by (cases pc) (auto split: option.splits if_splits)
  then show "evolves (merged sh) (merged sh')" and "pc' \<noteq> Closed" by simp_all
qed

lemma tracks_step:
  fixes w :: "'c::len word world"
  assumes "tracks g w" and "event_ok e" and "sync_step w e w'" and "LENGTH('c) \<le> 64" and "e \<noteq> CloseOwner"
  shows "tracks g w'"
proof -
  note t = tracksD [OF assms(1)]
  have m: "wf (merged (owner w))" using t(4) by (rule compatible_wf)
  have ev: "evolves (merged (owner w)) (merged (owner w')) \<and> refreshing w' \<noteq> Closed"
    using assms(3)
  proof cases
    case (owner_write c x)
    then show ?thesis
      using assms(1,2) m by (auto simp: event_ok_def tracks_def intro: evolves_perform [OF _ _ assms(4)])
  next
    case (refresh b sh pc)
    then show ?thesis
      using refresh_step_evolves [OF refresh(3) sync_okD(1) [OF t(1)] assms(4)] sync_okD(2) [OF t(1)] by simp
  qed (use assms(1,5) m in \<open>auto simp: tracks_def set_handle_def new_handle_def set_shared_def refresh_start_def
        intro: evolves_refl\<close>)
  then show ?thesis
    using sync_step_ok [OF assms(3) t(1) assms(2,4)] compatible_evolves(2) [OF t(4), of "merged (owner w')"] t(3)
    by (simp add: tracks_def)
qed

lemma accepting_run:
  fixes w :: "'c::len word world"
  assumes "run (\<lambda>_. accepts_event g) w es w'" and "tracks g w" and "LENGTH('c) \<le> 64"
  shows "tracks g w' \<and> sync_bins w' = foldl (spec_event g) (sync_bins w) es"
  using assms(1,2)
proof (induction rule: run.induct)
  case (snoc w es w' e w'')
  then have t: "tracks g w'" and b: "sync_bins w' = foldl (spec_event g) (sync_bins w) es" by simp_all
  have "e \<noteq> CloseOwner" using snoc.hyps by auto
  then show ?case
    using tracks_step [OF t accepts_event_ok snoc.hyps(3) assms(3)] sync_step_spec [OF t _ snoc.hyps(3) assms(3)]
      snoc.hyps(2) b by simp
qed simp

end
