(* ===== verification/Phases.thy ===== *)
theory Phases
  imports Sync
begin

text \<open>
  Phase shifts of the shared histogram (\<open>refresh_inner\<close> in \<open>sync/mod.rs\<close>) and what they
  promise: whom a refresh waits for, that the threads together refine one histogram, and the two
  runs in which a refresh does not do what it is meant to.
\<close>

section \<open>Whom a refresh waits for\<close>

text \<open>A handle that will send a histogram for the phase \<open>p\<close> with its next write, or is about to.\<close>

fun owes :: "u64 \<Rightarrow> 'c handle \<Rightarrow> bool" where
  "owes p (Active r) \<longleftrightarrow> last_phase r \<noteq> p"
| "owes p (Phasing r q) \<longleftrightarrow> True"
| "owes p (Idle r) \<longleftrightarrow> False"
| "owes p Dropped \<longleftrightarrow> False"

definition owing :: "u64 \<Rightarrow> 'c handle list \<Rightarrow> nat" where
  "owing p hs = length (filter (owes p) hs)"

text \<open>No handle is ahead of the phase, which has not wrapped after \<open>m\<close> steps.\<close>

fun behind :: "u64 \<Rightarrow> 'c handle \<Rightarrow> bool" where
  "behind p (Active r) \<longleftrightarrow> last_phase r \<le> p"
| "behind p (Phasing r q) \<longleftrightarrow> q \<le> p"
| "behind p (Idle r) \<longleftrightarrow> last_phase r \<le> p"
| "behind p Dropped \<longleftrightarrow> True"

definition phases_ok :: "nat \<Rightarrow> 'c world \<Rightarrow> bool" where
  "phases_ok m w \<longleftrightarrow> (let p = phase (sync_shared (owner w)) in
     unat p \<le> m \<and> (\<forall>x \<in> set (handles w). behind p x))"

text \<open>The histograms that have arrived or will, while the reader waits.\<close>

definition supplied :: "'c world \<Rightarrow> bool" where
  "supplied w \<longleftrightarrow> (let s = sync_shared (owner w) in
     case refreshing w of
       Counted t n \<Rightarrow> unat n \<le> length (channel s) + lives (handles w)
     | Waiting t p n \<Rightarrow> unat n \<le> unat p + length (channel s) + owing (phase s) (handles w)
     | _ \<Rightarrow> True)"

text \<open>
  What a run must not do: a recorder that goes idle between the reader's reading of the number
  of recorders and its advancing of the phase.
\<close>

fun idle_in_window :: "'c world \<Rightarrow> 'c event \<Rightarrow> bool" where
  "idle_in_window w (GoIdle k) \<longleftrightarrow> (\<exists>t n. refreshing w = Counted t n)"
| "idle_in_window w e \<longleftrightarrow> False"

lemma owing_update:
  "k < length hs \<Longrightarrow> owing p (hs[k := x]) + (if owes p (hs ! k) then 1 else 0) = owing p hs + (if owes p x then 1 else 0)"
proof (induction hs arbitrary: k)
  case (Cons y hs)
  then show ?case by (cases k) (auto simp: owing_def)
qed simp

lemma owing_append [simp]: "owing p (hs @ [x]) = owing p hs + (if owes p x then 1 else 0)"
  by (simp add: owing_def)

lemma owing_next_phase:
  assumes "\<forall>x \<in> set hs. behind p x" and "p \<noteq> - 1"
  shows "owing (p + 1) hs = lives hs" and "\<forall>x \<in> set hs. behind (p + 1) x"
proof -
  have lt: "q < p + 1" if "q \<le> p" for q :: u64
  proof -
    have "unat p < u64_max" using assms(2) unat_le_u64_max [of p] by (auto simp: eq_minus_1_iff)
    then have "unat (p + 1) = unat p + 1" by (simp add: unat_add_nat u64_max_def)
    then show ?thesis using that by (simp add: word_less_nat_alt word_le_nat_alt)
  qed
  have "owes (p + 1) x = live x" if "x \<in> set hs" for x
    using assms(1) lt that by (cases x) fastforce+
  then show "owing (p + 1) hs = lives hs"
    unfolding owing_def lives_def by (metis (mono_tags, lifting) filter_cong)
  show "\<forall>x \<in> set hs. behind (p + 1) x"
  proof
    fix x assume "x \<in> set hs"
    with assms(1) lt show "behind (p + 1) x" by (cases x) (fastforce intro: less_imp_le)+
  qed
qed


text \<open>A step that changes one handle and what it sends.\<close>

lemma supplied_set_handle:
  assumes "supplied w" and "k < length (handles w)"
    and "phase s = phase (sync_shared (owner w))"
    and "length (channel s) = length (channel (sync_shared (owner w))) + n"
    and "\<exists>t m. refreshing w = Counted t m \<Longrightarrow> live (handles w ! k) \<Longrightarrow> live x \<or> 0 < n"
    and "\<exists>t m p. refreshing w = Waiting t p m \<Longrightarrow> owes (phase (sync_shared (owner w))) (handles w ! k)
           \<Longrightarrow> owes (phase (sync_shared (owner w))) x \<or> 0 < n"
  shows "supplied (set_handle w k x s)"
proof -
  let ?p = "phase (sync_shared (owner w))"
  note l = lives_update [OF assms(2), of x] and o = owing_update [OF assms(2), of ?p x]
  show ?thesis
  proof (cases "refreshing w")
    case (Counted t m)
    then have "lives (handles w) \<le> lives ((handles w)[k := x]) + n"
      using l assms(5) by (auto split: if_splits)
    then show ?thesis
      using assms(1,4) Counted by (simp add: supplied_def set_handle_def set_shared_def Let_def)
  next
    case (Waiting t q m)
    then have "owing ?p (handles w) \<le> owing ?p ((handles w)[k := x]) + n"
      using o assms(6) by (auto split: if_splits)
    then show ?thesis
      using assms(1,3,4) Waiting by (simp add: supplied_def set_handle_def set_shared_def Let_def)
  qed (simp_all add: supplied_def set_handle_def set_shared_def Let_def)
qed

lemma phases_ok_set_handle:
  assumes "phases_ok m w" and "phase s = phase (sync_shared (owner w))"
    and "behind (phase (sync_shared (owner w))) x"
  shows "phases_ok (Suc m) (set_handle w k x s)"
  using assms set_update_subset_insert [of "handles w" k x]
  unfolding phases_ok_def set_handle_def set_shared_def Let_def by auto

lemma phases_ok_behind: "phases_ok m w \<Longrightarrow> k < length (handles w) \<Longrightarrow> behind (phase (sync_shared (owner w))) (handles w ! k)"
  by (simp add: phases_ok_def Let_def)

lemma new_handle_supplied:
  assumes "supplied w" and "phases_ok m w" and "behind (phase (sync_shared (owner w))) (Active r)"
    and "phase s = phase (sync_shared (owner w))" and "channel s = channel (sync_shared (owner w))"
  shows "phases_ok (Suc m) (new_handle w r s)" and "supplied (new_handle w r s)"
  using assms by (auto simp: phases_ok_def supplied_def new_handle_def set_shared_def Let_def split: refresh.splits)

lemma receive_next_supplied:
  assumes "receive_next sh n = Some (sh', pc)"
  shows "phase (sync_shared sh') = phase (sync_shared sh)"
    and "length (channel (sync_shared sh)) = Suc (length (channel (sync_shared sh')))"
    and "pc = n \<or> pc = Panicked"
  using assms by (auto simp: receive_next_def merge_into_def split: list.splits prod.splits res.splits)

lemma unat_add_1: "(p :: u64) < n \<Longrightarrow> unat (p + 1) = unat p + 1"
  using unat_u64_less [of n] by (simp add: unat_add_nat word_less_nat_alt)

lemma refresh_step_supplied:
  assumes "refresh_step b (owner w) (refreshing w) = Some (sh, pc)" and "supplied w" and "phases_ok m w"
    and "Suc m < 2 ^ 64" and "recorders (sync_shared (owner w)) = of_nat (lives (handles w))"
  shows "phases_ok (Suc m) (w\<lparr>owner := sh, refreshing := pc\<rparr>) \<and> supplied (w\<lparr>owner := sh, refreshing := pc\<rparr>)"
proof -
  have same: "phases_ok (Suc m) (w\<lparr>owner := sh', refreshing := pc'\<rparr>)"
    if "phase (sync_shared sh') = phase (sync_shared (owner w))" for sh' pc'
    using assms(3) that by (simp add: phases_ok_def Let_def)
  note rcv = receive_next_supplied
  show ?thesis
  proof (cases "refreshing w")
    case (Draining t)
    then show ?thesis
      using assms(1) rcv [of "owner w" "Draining t"]
      by (auto simp: supplied_def intro!: same split: option.splits)
  next
    case (Drained t)
    then show ?thesis
      using assms(1,5) unat_of_nat [of "lives (handles w)", where ?'a = 64]
      by (auto simp: supplied_def Let_def intro!: same intro: le_trans [OF mod_less_eq_dividend])
  next
    case (Counted t n)
    let ?p = "phase (sync_shared (owner w))"
    have "unat ?p \<noteq> u64_max" and b: "\<forall>x \<in> set (handles w). behind ?p x"
      using assms(3,4) by (auto simp: phases_ok_def Let_def u64_max_def)
    then have np: "?p \<noteq> - 1" by (auto simp: eq_minus_1_iff)
    have "unat (?p + 1) \<le> Suc m"
      using assms(3,4) by (simp add: phases_ok_def Let_def unat_add_nat)
    then show ?thesis
      using assms(1,2) Counted owing_next_phase [OF b np]
      by (auto simp: supplied_def phases_ok_def Let_def)
  next
    case (Waiting t q n)
    then show ?thesis
      using assms(1,2) rcv [of "owner w" "Waiting t (q + 1) n"] unat_add_1 [of q n]
      by (auto simp: supplied_def Let_def intro!: same split: if_splits)
  next
    case Gobbling
    then show ?thesis
      using assms(1) rcv [of "owner w" Gobbling]
      by (auto simp: supplied_def intro!: same split: option.splits)
  qed (use assms(1) in auto)
qed


lemma sync_step_supplied:
  fixes w :: "'c::len word world"
  assumes "sync_step w e w'" and "sync_ok w" and "supplied w" and "phases_ok m w"
    and "\<not> idle_in_window w e" and "Suc m < 2 ^ 64"
  shows "phases_ok (Suc m) w' \<and> supplied w'"
proof -
  note b = phases_ok_behind [OF assms(4)]
  have conn: "connected (sync_shared (owner w))" if "\<exists>t n p. refreshing w = Counted t n \<or> refreshing w = Waiting t p n"
    using sync_okD(6) [OF assms(2)] that by auto
  let ?sent = "if connected (sync_shared (owner w)) then 1 else 0 :: nat"
  note set_handle = phases_ok_set_handle [OF assms(4)] supplied_set_handle [OF assms(3)]
  from assms(1,2) show ?thesis
  proof (cases rule: sync_step_forms)
    case (join h p)
    then have "behind (phase (sync_shared (owner w))) (Active \<lparr>local_hist = blank h, last_phase = p\<rparr>)"
      using b by fastforce
    then show ?thesis unfolding join(3) by (intro conjI new_handle_supplied [OF assms(3,4)]) simp_all
  next
    case (drop_recorder k r)
    show ?thesis
      unfolding drop_recorder(5) using conn
      by (intro conjI set_handle(1) set_handle(2) [OF drop_recorder(2), where n = ?sent]) auto
  next
    case (idle_quietly k r)
    then show ?thesis
      unfolding idle_quietly(6) using assms(5)
      by (intro conjI set_handle(1) set_handle(2) [OF idle_quietly(2), where n = 0]) auto
  next
    case (idle_sending k r)
    show ?thesis
      unfolding idle_sending(6) using conn
      by (intro conjI set_handle(1) set_handle(2) [OF idle_sending(2), where n = ?sent]) auto
  next
    case (activate k r)
    then show ?thesis
      unfolding activate(5)
      by (intro conjI set_handle(1) set_handle(2) [OF activate(2), where n = 0]) auto
  next
    case (write_local k c r l)
    then show ?thesis
      unfolding write_local(6) using b [OF write_local(2)]
      by (intro conjI set_handle(1) set_handle(2) [OF write_local(2), where n = 0]) auto
  next
    case (send k r p)
    then show ?thesis
      unfolding send(5) using conn b [OF send(2)]
      by (intro conjI set_handle(1) set_handle(2) [OF send(2), where n = ?sent]) auto
  next
    case (refresh t sh pc)
    then show ?thesis
      using refresh_step_supplied [OF refresh(2) assms(3,4,6) sync_okD(4) [OF assms(2)]] by simp
  qed (use assms(3,4) in \<open>simp_all add: supplied_def phases_ok_def Let_def set_shared_def close_def\<close>)
qed

lemma supplied_run:
  fixes w :: "'c::len word world"
  assumes "run (\<lambda>v e. event_ok e \<and> \<not> idle_in_window v e) w es w'" and "sync_ok w" and "supplied w"
    and "phases_ok m w" and "m + length es < 2 ^ 64" and "LENGTH('c) \<le> 64"
  shows "sync_ok w' \<and> phases_ok (m + length es) w' \<and> supplied w'"
  using assms(1-5)
proof (induction rule: run.induct)
  case (snoc w es w' e w'')
  then have i: "sync_ok w'" "phases_ok (m + length es) w'" "supplied w'" by simp_all
  then show ?case
    using sync_step_supplied [OF snoc.hyps(3) i(1,3,2)] sync_step_ok [OF snoc.hyps(3) i(1) _ assms(6)]
      snoc.hyps(2) snoc.prems(4) by simp
qed simp

lemma run_single: "sync_step w e w' \<Longrightarrow> P w e \<Longrightarrow> run P w [e] w'"
  using run.snoc [OF run.nil, of P w e w'] by simp

lemma run_Cons: "sync_step w e w' \<Longrightarrow> P w e \<Longrightarrow> run P w' es w'' \<Longrightarrow> run P w (e # es) w''"
  using run_trans [OF run_single, of w e w' P es w''] by simp

text \<open>A call through \<open>with_hist\<close> is a write, and a send if the phase was new.\<close>

lemma with_hist_steps:
  fixes w :: "'c::len word world"
  defines "s \<equiv> sync_shared (owner w)"
  assumes "k < length (handles w)" and "handles w ! k = Active r"
    and "f (local_hist r) = (Ok (x, l) :: (unit, _) res)" and "perform c (local_hist r) = Some l"
    and "with_hist f r s = Ok (y, r', s')"
  shows "run (\<lambda>_ _. True) w (if phase s \<noteq> last_phase r then [Write k c, Send k] else [Write k c])
    (set_handle w k (Active r') s')"
proof (cases "phase s = last_phase r")
  case True
  then have "r' = r\<lparr>local_hist := l\<rparr>" "s' = s" using assms(4,6) by (simp_all add: with_hist_def)
  moreover have "sync_step w (Write k c) (set_handle w k (Active (r\<lparr>local_hist := l\<rparr>)) s)"
    unfolding s_def by (rule sync_step.write_local [OF assms(2,3,5) refl]) (use True in \<open>simp add: s_def\<close>)
  ultimately show ?thesis using True by (simp add: run_single)
next
  case False
  let ?r = "r\<lparr>local_hist := l\<rparr>" and ?v = "set_handle w k (Phasing (r\<lparr>local_hist := l\<rparr>) (phase s)) s"
  obtain r2 where u: "update ?r s = (Ok (r2, s') :: (unit, _) res)" "r' = r2\<lparr>last_phase := phase s\<rparr>"
    using assms(4,6) False by (auto simp: with_hist_def bind_res_eq_Ok)
  have a: "sync_step w (Write k c) ?v"
    unfolding s_def by (rule sync_step.write_local [OF assms(2,3,5) refl]) (use False in \<open>simp add: s_def\<close>)
  have "sync_step ?v (Send k) (set_handle ?v k (Active r') s')"
    unfolding u(2) using assms(2) u(1)
    by (intro sync_step.send) (simp_all add: set_handle_def set_shared_def)
  moreover have "set_handle ?v k (Active r') s' = set_handle w k (Active r') s'"
    by (simp add: set_handle_def set_shared_def)
  ultimately show ?thesis using False run_Cons [OF a _ run_single] by simp
qed

text \<open>A thread that owes a histogram sends one with its next write.\<close>

lemma owing_handle_sends:
  fixes w :: "'c::len word world"
  assumes "sync_ok w" and "k < length (handles w)" and "owes (phase (sync_shared (owner w))) (handles w ! k)"
    and "refreshing w \<noteq> Closed"
  shows "\<exists>es w'. run (\<lambda>_ e. e = Write k (SaturatingRecordN 0 1) \<or> e = Send k) w es w' \<and>
    channel (sync_shared (owner w')) \<noteq> []"
proof -
  let ?P = "\<lambda>_ e. e = Write k (SaturatingRecordN 0 1) \<or> e = Send k"
  let ?s = "sync_shared (owner w)"
  have conn: "connected ?s" using sync_okD(6) [OF assms(1)] assms(4) by simp
  have send: "\<exists>v'. sync_step v (Send k) v' \<and> channel (sync_shared (owner v')) \<noteq> []"
    if "k < length (handles v)" "handles v ! k = Phasing r p" "sync_shared (owner v) = ?s" "wf (local_hist r)"
    for v :: "'c word world" and r p
  proof -
    have "update r (sync_shared (owner v)) = (Ok (r\<lparr>local_hist := blank (local_hist r)\<rparr>, send ?s (local_hist r)) :: (unit, _) res)"
      using that(3) by (simp add: recorder_ops(1) [OF that(4)])
    from sync_step.send [OF that(1,2) this] conn show ?thesis
      by (intro exI conjI) (assumption, simp add: set_handle_def set_shared_def)
  qed
  have c: "wf (local_hist r)" if "recorder_in (handles w ! k) = Some r" for r
    using handle_compatible [OF assms(1,2) that] by (rule compatible_wf)
  show ?thesis
  proof (cases "handles w ! k")
    case (Active r)
    then have r: "wf (local_hist r)" "phase ?s \<noteq> last_phase r" using c assms(3) by simp_all
    define l where "l = bump (local_hist r) (if unat (0::u64) < capacity (local_hist r) then 0 else highest_trackable_value (local_hist r)) 1"
    have p: "perform (SaturatingRecordN 0 1) (local_hist r) = Some l"
      by (simp only: perform.simps record_n_inner_clamp [OF wfD(1) [OF r(1)]] left_behind.simps l_def)
    have l: "wf l"
      using evolves_record_n_inner_clamp [OF r(1)] p by (auto intro: evolves_wf)
    let ?v = "set_handle w k (Phasing (r\<lparr>local_hist := l\<rparr>) (phase ?s)) ?s"
    have w1: "sync_step w (Write k (SaturatingRecordN 0 1)) ?v"
      by (rule sync_step.write_local [OF assms(2) Active p refl]) (simp add: r(2))
    have v: "k < length (handles ?v)" "handles ?v ! k = Phasing (r\<lparr>local_hist := l\<rparr>) (phase ?s)"
      "sync_shared (owner ?v) = ?s" "wf (local_hist (r\<lparr>local_hist := l\<rparr>))"
      using assms(2) l by (simp_all add: set_handle_def set_shared_def)
    obtain v' where v': "sync_step ?v (Send k) v'" "channel (sync_shared (owner v')) \<noteq> []"
      using send [OF v] by blast
    have "run ?P w [Write k (SaturatingRecordN 0 1), Send k] v'"
      by (rule run_Cons [OF w1 _ run_single [OF v'(1)]]) simp_all
    with v'(2) show ?thesis by blast
  next
    case (Phasing r p)
    then obtain v' where v': "sync_step w (Send k) v'" "channel (sync_shared (owner v')) \<noteq> []"
      using send [OF assms(2) Phasing refl c] by auto
    have "run ?P w [Send k] v'" by (rule run_single [OF v'(1)]) simp
    with v'(2) show ?thesis by blast
  qed (use assms(3) in simp_all)
qed


section \<open>Examples\<close>

text \<open>A world whose channel is open, and its steps.\<close>

definition world_of ::
  "u64 histogram \<Rightarrow> u64 \<Rightarrow> u64 \<Rightarrow> u64 histogram list \<Rightarrow> refresh \<Rightarrow> 64 word handle list \<Rightarrow> 64 word world" where
  "world_of m n p q pc hs =
     \<lparr>owner = \<lparr>merged = m, sync_shared = \<lparr>recorders = n, phase = p, channel = q, connected = True\<rparr>\<rparr>,
      refreshing = pc, handles = hs\<rparr>"

lemma start_world: "start m = world_of m 0 0 [] Resting []"
  by (simp add: start_def sync_from_def world_of_def)

lemma world_of_fields [simp]:
  "merged (owner (world_of m n p q pc hs)) = m"
  "recorders (sync_shared (owner (world_of m n p q pc hs))) = n"
  "phase (sync_shared (owner (world_of m n p q pc hs))) = p"
  "channel (sync_shared (owner (world_of m n p q pc hs))) = q"
  "refreshing (world_of m n p q pc hs) = pc" "handles (world_of m n p q pc hs) = hs"
  by (simp_all add: world_of_def)

lemma step_new:
  "wf m \<Longrightarrow> sync_step (world_of m n p q Resting hs) NewRecorder
     (world_of m (n + 1) p q Resting (hs @ [Active \<lparr>local_hist = blank m, last_phase = p\<rparr>]))"
  using sync_step.new_recorder [of "world_of m n p q Resting hs", OF _ recorder_of_eq]
  by (simp add: world_of_def new_handle_def set_shared_def)

lemma step_clone:
  "wf (local_hist r) \<Longrightarrow> k < length hs \<Longrightarrow> hs ! k = Active r
    \<Longrightarrow> sync_step (world_of m n p q pc hs) (CloneRecorder k)
     (world_of m (n + 1) p q pc (hs @ [Active \<lparr>local_hist = blank (local_hist r), last_phase = last_phase r\<rparr>]))"
  using sync_step.clone_recorder [of k "world_of m n p q pc hs" r, OF _ _ recorder_ops(2)]
  by (simp add: world_of_def new_handle_def set_shared_def)

lemma step_drop:
  "wf (local_hist r) \<Longrightarrow> k < length hs \<Longrightarrow> hs ! k = Active r
    \<Longrightarrow> sync_step (world_of m n p q pc hs) (DropRecorder k)
     (world_of m (n - 1) p (q @ [local_hist r]) pc (hs[k := Dropped]))"
  using sync_step.drop_recorder [of k "world_of m n p q pc hs" r, OF _ _ recorder_ops(3)]
  by (simp add: world_of_def set_handle_def set_shared_def Sync.send_def)

lemma step_idle:
  assumes "k < length hs" and "hs ! k = Active r" and "last_phase r = p"
  shows "sync_step (world_of m n p q pc hs) (GoIdle k) (world_of m (n - 1) p q pc (hs[k := Idle r]))"
  using sync_step.go_idle [of k "world_of m n p q pc hs" r r "(sync_shared (owner (world_of m n p q pc hs)))\<lparr>recorders := n - 1\<rparr>"]
    assms
  by (cases r) (simp add: world_of_def set_handle_def set_shared_def idle_def deactivate_def Let_def)

lemma step_write:
  assumes "k < length hs" and "hs ! k = Active r" and "perform c (local_hist r) = Some l"
  shows "sync_step (world_of m n p q pc hs) (Write k c) (world_of m n p q pc
    (hs[k := if p \<noteq> last_phase r then Phasing (r\<lparr>local_hist := l\<rparr>) p else Active (r\<lparr>local_hist := l\<rparr>)]))"
  using sync_step.write_local [of k "world_of m n p q pc hs" r, OF _ _ assms(3) refl refl] assms(1,2)
  by (cases "p = last_phase r") (simp_all add: world_of_def set_handle_def set_shared_def)

lemma step_send:
  assumes "k < length hs" and "hs ! k = Phasing r p'" and "wf (local_hist r)"
  shows "sync_step (world_of m n p q pc hs) (Send k) (world_of m n p (q @ [local_hist r]) pc
    (hs[k := Active \<lparr>local_hist = blank (local_hist r), last_phase = p'\<rparr>]))"
  using sync_step.send [of k "world_of m n p q pc hs" r, OF _ _ recorder_ops(1) [OF assms(3)]] assms(1,2)
  by (cases r) (simp add: world_of_def set_handle_def set_shared_def Sync.send_def)

lemma step_start:
  "sync_step (world_of m n p q Resting hs) (StartRefresh t) (world_of m n p q (Draining t) hs)"
  using sync_step.start_refresh [of "world_of m n p q Resting hs" t]
  by (simp add: world_of_def refresh_start_def)

lemma step_refresh:
  "refresh_step b (owner (world_of m n p q pc hs)) pc = Some (owner (world_of m' n' p' q' pc' hs), pc')
    \<Longrightarrow> sync_step (world_of m n p q pc hs) (Refresh b) (world_of m' n' p' q' pc' hs)"
  using sync_step.refresh [of b "world_of m n p q pc hs"] by (simp add: world_of_def)

lemma step_receive:
  assumes "mergeable m" and "compatible m x" and "pc = Waiting t k j" and "k < j"
  obtains m' where "sync_step (world_of m n p (x # q) pc hs) (Refresh False) (world_of m' n p q (Waiting t (k + 1) j) hs)"
    and "mergeable m'" and "\<And>y. compatible m y \<Longrightarrow> compatible m' y"
    and "\<And>i. bin_count m' i = min (2 ^ 64 - 1) (bin_count m i + bin_count x i)"
proof -
  obtain m' where m': "merge_into m x (Waiting t (k + 1) j) = (m', Waiting t (k + 1) j)" "evolves m m'"
    "\<And>i. bin_count m' i = min (2 ^ LENGTH(64) - 1) (bin_count m i + bin_count x i)"
    by (rule merge_compatible [OF assms(1,2), of "Waiting t (k + 1) j"]) simp_all
  show thesis
  proof (rule that [of m'])
    show "sync_step (world_of m n p (x # q) pc hs) (Refresh False) (world_of m' n p q (Waiting t (k + 1) j) hs)"
      using m'(1) assms(3,4) by (intro step_refresh) (simp add: receive_next_def world_of_def)
    show "mergeable m'" by (rule mergeable_evolves [OF assms(1) m'(2)])
    show "compatible m' y" if "compatible m y" for y by (rule compatible_evolves(1) [OF that m'(2)])
  qed (simp add: m'(3))
qed

text \<open>A refresh from the start to where it waits, with one recorder in use.\<close>

lemma blank_sample: "blank sample = sample"
  by (simp add: blank_def sample_eq)

definition fresh_recorder :: "64 word recorder" where
  "fresh_recorder = \<lparr>local_hist = sample, last_phase = 0\<rparr>"

lemma run_to_count:
  assumes "\<And>v e. e \<in> {NewRecorder, StartRefresh False, Refresh False} \<Longrightarrow> P v e"
  shows "run P (start sample) [NewRecorder, StartRefresh False, Refresh False, Refresh False]
    (world_of sample 1 0 [] (Counted False 1) [Active fresh_recorder])"
proof -
  let ?hs = "[Active fresh_recorder]"
  have a: "sync_step (start sample) NewRecorder (world_of sample 1 0 [] Resting ?hs)"
    using step_new [OF wf_sample, of 0 0 "[]" "[]"] by (simp add: start_world blank_sample fresh_recorder_def)
  have b: "sync_step (world_of sample 1 0 [] (Draining False) ?hs) (Refresh False)
      (world_of sample 1 0 [] (Drained False) ?hs)"
    by (rule step_refresh) (simp add: receive_next_def world_of_def)
  have c: "sync_step (world_of sample 1 0 [] (Drained False) ?hs) (Refresh False)
      (world_of sample 1 0 [] (Counted False 1) ?hs)"
    by (rule step_refresh) (simp add: world_of_def)
  show ?thesis
    by (rule run_Cons [OF a _ run_Cons [OF step_start _ run_Cons [OF b _ run_single [OF c]]]])
      (rule assms, simp)+
qed

text \<open>The state in which the refresh of a run that goes idle in the window is left.\<close>

definition stalled_world :: "64 word world" where
  "stalled_world = world_of sample 0 1 [] (Waiting False 0 1) [Idle fresh_recorder]"

lemma run_to_stall:
  "run (\<lambda>_. event_ok) (start sample)
     ([NewRecorder, StartRefresh False, Refresh False, Refresh False] @ [GoIdle 0, Refresh False]) stalled_world"
proof -
  have a: "sync_step (world_of sample 1 0 [] (Counted False 1) [Active fresh_recorder]) (GoIdle 0)
      (world_of sample 0 0 [] (Counted False 1) [Idle fresh_recorder])"
    using step_idle [of 0 "[Active fresh_recorder]" fresh_recorder 0 sample 1 "[]"]
    by (simp add: fresh_recorder_def)
  have b: "sync_step (world_of sample 0 0 [] (Counted False 1) [Idle fresh_recorder]) (Refresh False) stalled_world"
    unfolding stalled_world_def by (rule step_refresh) (simp add: world_of_def)
  show ?thesis
    by (rule run_trans [OF run_to_count run_Cons [OF a _ run_single [OF b]]]) (auto simp: event_ok_def)
qed

text \<open>The events that can end the stall: dropping a recorder, or cloning one that is idle.\<close>

fun brings_histogram :: "'c event \<Rightarrow> bool" where
  "brings_histogram (DropRecorder k) \<longleftrightarrow> True"
| "brings_histogram (CloneIdle k) \<longleftrightarrow> True"
| "brings_histogram e \<longleftrightarrow> False"

definition stalled :: "64 word world \<Rightarrow> bool" where
  "stalled w \<longleftrightarrow> refreshing w = Waiting False 0 1 \<and> channel (sync_shared (owner w)) = [] \<and>
     (\<forall>x \<in> set (handles w). (\<exists>r. x = Idle r) \<or> (\<exists>r. x = Active r \<and> last_phase r = phase (sync_shared (owner w))))"

lemma stalled_set_handle:
  "stalled w \<Longrightarrow> phase s = phase (sync_shared (owner w)) \<Longrightarrow> channel s = []
    \<Longrightarrow> (\<exists>r. x = Idle r) \<or> (\<exists>r. x = Active r \<and> last_phase r = phase (sync_shared (owner w)))
    \<Longrightarrow> stalled (set_handle w k x s)"
  using set_update_subset_insert [of "handles w" k x]
  unfolding stalled_def set_handle_def set_shared_def by auto

lemma stalled_step:
  assumes "sync_step w e w'" and "stalled w" and "\<not> brings_histogram e"
  shows "stalled w'"
  using assms(1)
proof cases
  case (clone_recorder k r0 r s)
  have "last_phase r0 = phase (sync_shared (owner w))"
    using assms(2) clone_recorder(3,4) nth_mem [OF clone_recorder(3)] by (auto simp: stalled_def)
  then show ?thesis
    using assms(2) clone_recorder(2,5)
    by (auto simp: stalled_def new_handle_def set_shared_def clone_recorder_def bind_res_eq_Ok)
next
  case (go_idle k r r' s)
  have "last_phase r = phase (sync_shared (owner w))"
    using assms(2) go_idle(3,4) nth_mem [OF go_idle(3)] by (auto simp: stalled_def)
  then show ?thesis
    unfolding go_idle(2) using go_idle(5) assms(2)
    by (intro stalled_set_handle) (auto simp: idle_def deactivate_def bind_res_eq_Ok stalled_def)
next
  case (activate k r r' s)
  then show ?thesis
    unfolding activate(2) using assms(2)
    by (intro stalled_set_handle) (auto simp: activate_def reactivate_def stalled_def)
next
  case (write_local k r c l p x)
  have "last_phase r = phase (sync_shared (owner w))"
    using assms(2) write_local(3,4) nth_mem [OF write_local(3)] by (auto simp: stalled_def)
  then show ?thesis
    unfolding write_local(2) using write_local(6,7) assms(2)
    by (intro stalled_set_handle) (auto simp: stalled_def)
next
  case (send k r p r' s)
  then show ?thesis using assms(2) nth_mem [OF send(3)] by (auto simp: stalled_def)
next
  case (refresh b sh pc)
  then show ?thesis using assms(2) by (simp add: stalled_def receive_next_def)
qed (use assms(2,3) in \<open>simp_all add: stalled_def\<close>)


lemma run_stalled:
  assumes "run (\<lambda>_ e. \<not> brings_histogram e) stalled_world fs w"
  shows "stalled w"
proof (rule run_invariant [where I = stalled, OF assms])
  show "stalled stalled_world" by (simp add: stalled_world_def stalled_def)
qed (rule stalled_step)

lemma perform_record_sample:
  "unat v < capacity sample \<Longrightarrow> perform (RecordN v c) sample = Some (bump sample v c)"
  by (simp add: record_n_def record_n_inner_eq wfD(1) [OF wf_sample])

lemma bin_count_bump_sample:
  "unat v < capacity sample \<Longrightarrow> bin_count (bump sample v 1) i = (if i = h_index sample (unat v) then 1 else 0)"
  using bin_count_blank [of sample]
  by (simp add: bin_count_bump [OF wfD(3) [OF wf_sample]] blank_sample)

lemma compatible_sample_bump: "unat v < capacity sample \<Longrightarrow> compatible sample (bump sample v c)"
  by (rule compatible_evolves(2) [OF compatible_refl [OF wf_sample] evolves_bump [OF wf_sample]])

lemma mergeable_sample: "mergeable sample"
  by (simp add: mergeable_def wf_sample capacity_sample)

lemma h_index_sample: "h_index sample 5 = 3" "h_index sample 90 = 7"
  by (simp_all add: sample_eq h_index_def index_for_def bucket_for_def sub_bucket_for_def shl_def
      shr_def leading_zeros_def bit_len.simps to_usize_def usize_max_def Let_def)

lemma run_single_write:
  "run (\<lambda>_. accepts_event sample) (start sample) [NewRecorder, Write 0 (RecordN 5 1)]
     (world_of sample 1 0 [] Resting [Active \<lparr>local_hist = bump sample 5 1, last_phase = 0\<rparr>])"
proof -
  have a: "sync_step (start sample) NewRecorder (world_of sample 1 0 [] Resting [Active fresh_recorder])"
    using step_new [OF wf_sample, of 0 0 "[]" "[]"] by (simp add: start_world blank_sample fresh_recorder_def)
  have b: "sync_step (world_of sample 1 0 [] Resting [Active fresh_recorder]) (Write 0 (RecordN 5 1))
      (world_of sample 1 0 [] Resting [Active \<lparr>local_hist = bump sample 5 1, last_phase = 0\<rparr>])"
    using step_write [of 0 "[Active fresh_recorder]" fresh_recorder "RecordN 5 1" "bump sample 5 1" sample 1 0 "[]" Resting]
      perform_record_sample [of 5 1]
    by (simp add: fresh_recorder_def capacity_sample)
  show ?thesis
    by (rule run_Cons [OF a _ run_single [OF b]]) (simp_all add: capacity_sample)
qed

text \<open>Two recorders, of which one sends twice: with its write, and when it is dropped.\<close>

definition recorder_5 :: "64 word recorder" where
  "recorder_5 = \<lparr>local_hist = bump sample 5 1, last_phase = 0\<rparr>"

definition recorder_90 :: "64 word recorder" where
  "recorder_90 = \<lparr>local_hist = bump sample 90 1, last_phase = 0\<rparr>"

definition before_refresh :: "64 word world" where
  "before_refresh = world_of sample 2 0 [] Resting [Active recorder_5, Active fresh_recorder]"

lemma wf_bump_sample: "unat v < capacity sample \<Longrightarrow> wf (bump sample v c)"
  by (rule compatible_wf [OF compatible_sample_bump])

lemma run_before_refresh:
  "run (\<lambda>_ _. True) (start sample) [NewRecorder, CloneRecorder 0, Write 0 (RecordN 5 1)] before_refresh"
proof -
  let ?f = "Active fresh_recorder"
  have a: "sync_step (start sample) NewRecorder (world_of sample 1 0 [] Resting [?f])"
    using step_new [OF wf_sample, of 0 0 "[]" "[]"] by (simp add: start_world blank_sample fresh_recorder_def)
  have b: "sync_step (world_of sample 1 0 [] Resting [?f]) (CloneRecorder 0) (world_of sample 2 0 [] Resting [?f, ?f])"
    using step_clone [of fresh_recorder 0 "[?f]" sample 1 0 "[]" Resting]
    by (simp add: fresh_recorder_def wf_sample blank_sample)
  have c: "sync_step (world_of sample 2 0 [] Resting [?f, ?f]) (Write 0 (RecordN 5 1)) before_refresh"
    using step_write [of 0 "[?f, ?f]" fresh_recorder "RecordN 5 1" "bump sample 5 1" sample 2 0 "[]" Resting]
      perform_record_sample [of 5 1]
    by (simp add: fresh_recorder_def capacity_sample before_refresh_def recorder_5_def)
  show ?thesis by (rule run_Cons [OF a _ run_Cons [OF b _ run_single [OF c]]]) simp_all
qed

definition sent_twice :: "64 word world" where
  "sent_twice = world_of sample 1 1 [bump sample 90 1, blank (bump sample 90 1)] (Waiting False 0 2)
     [Active recorder_5, Dropped]"

lemma run_sent_twice:
  "run (\<lambda>_ _. True) before_refresh ([StartRefresh False, Refresh False, Refresh False, Refresh False]
     @ [Write 1 (RecordN 90 1), Send 1, DropRecorder 1]) sent_twice"
proof (rule run_trans)
  let ?hs = "[Active recorder_5, Active fresh_recorder]" and ?w = "Waiting False 0 2"
  have b: "sync_step (world_of sample 2 0 [] (Draining False) ?hs) (Refresh False) (world_of sample 2 0 [] (Drained False) ?hs)"
    by (rule step_refresh) (simp add: receive_next_def world_of_def)
  have c: "sync_step (world_of sample 2 0 [] (Drained False) ?hs) (Refresh False) (world_of sample 2 0 [] (Counted False 2) ?hs)"
    by (rule step_refresh) (simp add: world_of_def)
  have d: "sync_step (world_of sample 2 0 [] (Counted False 2) ?hs) (Refresh False) (world_of sample 2 1 [] ?w ?hs)"
    by (rule step_refresh) (simp add: world_of_def)
  show "run (\<lambda>_ _. True) before_refresh [StartRefresh False, Refresh False, Refresh False, Refresh False]
      (world_of sample 2 1 [] ?w ?hs)"
    unfolding before_refresh_def
    by (rule run_Cons [OF step_start _ run_Cons [OF b _ run_Cons [OF c _ run_single [OF d]]]]) simp_all
  have e: "sync_step (world_of sample 2 1 [] ?w ?hs) (Write 1 (RecordN 90 1))
      (world_of sample 2 1 [] ?w [Active recorder_5, Phasing recorder_90 1])"
    using step_write [of 1 ?hs fresh_recorder "RecordN 90 1" "bump sample 90 1" sample 2 1 "[]" ?w]
      perform_record_sample [of 90 1]
    by (simp add: fresh_recorder_def capacity_sample recorder_90_def)
  let ?r = "\<lparr>local_hist = blank (bump sample 90 1), last_phase = 1\<rparr> :: 64 word recorder"
  have w: "wf (bump sample 90 1)" by (rule wf_bump_sample) (simp add: capacity_sample)
  have f: "sync_step (world_of sample 2 1 [] ?w [Active recorder_5, Phasing recorder_90 1]) (Send 1)
      (world_of sample 2 1 [bump sample 90 1] ?w [Active recorder_5, Active ?r])"
    using step_send [of 1 "[Active recorder_5, Phasing recorder_90 1]" recorder_90 1 sample 2 1 "[]" ?w] w
    by (simp add: recorder_90_def)
  have g: "sync_step (world_of sample 2 1 [bump sample 90 1] ?w [Active recorder_5, Active ?r]) (DropRecorder 1) sent_twice"
    using step_drop [of ?r 1 "[Active recorder_5, Active ?r]" sample 2 1 "[bump sample 90 1]" ?w] wf_blank [OF w]
    by (simp add: sent_twice_def)
  show "run (\<lambda>_ _. True) (world_of sample 2 1 [] ?w ?hs) [Write 1 (RecordN 90 1), Send 1, DropRecorder 1] sent_twice"
    by (rule run_Cons [OF e _ run_Cons [OF f _ run_single [OF g]]]) simp_all
qed

lemma run_refreshed:
  "\<exists>m. run (\<lambda>_ _. True) sent_twice [Refresh False, Refresh False, Refresh False, Refresh False]
     (world_of m 1 1 [] Resting [Active recorder_5, Dropped]) \<and> bin_count m 3 = 0 \<and> bin_count m 7 = 1"
proof -
  let ?hs = "[Active recorder_5, Dropped]" and ?b = "bump sample 90 1 :: u64 histogram"
  have lt: "unat (90 :: u64) < capacity sample" by (simp add: capacity_sample)
  note cb = compatible_sample_bump [OF lt, of 1]
  obtain m1 where m1: "sync_step (world_of sample 1 1 [?b, blank ?b] (Waiting False 0 2) ?hs) (Refresh False) (world_of m1 1 1 [blank ?b] (Waiting False (0 + 1) 2) ?hs)"
    "mergeable m1" "\<And>y. compatible sample y \<Longrightarrow> compatible m1 y"
    "\<And>i. bin_count m1 i = min (2 ^ 64 - 1) (bin_count sample i + bin_count ?b i)"
    by (rule step_receive [where n = 1 and p = 1 and q = "[blank ?b]" and t = False and hs = ?hs and k = 0 and j = 2,
          OF mergeable_sample cb refl]) (simp, rule that)
  obtain m2 where m2: "sync_step (world_of m1 1 1 [blank ?b] (Waiting False 1 2) ?hs) (Refresh False)
      (world_of m2 1 1 [] (Waiting False (1 + 1) 2) ?hs)"
    "\<And>i. bin_count m2 i = min (2 ^ 64 - 1) (bin_count m1 i + bin_count (blank ?b) i)"
    by (rule step_receive [where n = 1 and p = 1 and q = "[]" and t = False and hs = ?hs and k = 1 and j = 2,
          OF m1(2) m1(3) [OF compatible_blank [OF cb]] refl]) (simp, rule that)
  have c: "sync_step (world_of m2 1 1 [] (Waiting False 2 2) ?hs) (Refresh False) (world_of m2 1 1 [] Gobbling ?hs)"
    by (rule step_refresh) (simp add: world_of_def)
  have d: "sync_step (world_of m2 1 1 [] Gobbling ?hs) (Refresh False) (world_of m2 1 1 [] Resting ?hs)"
    by (rule step_refresh) (simp add: receive_next_def world_of_def)
  have bins: "bin_count m2 3 = 0" "bin_count m2 7 = 1"
    using bin_count_bump_sample [OF lt] bin_count_blank [of sample]
    by (simp_all add: m2(2) m1(4) blank_sample h_index_sample)
  have "run (\<lambda>_ _. True) sent_twice [Refresh False, Refresh False, Refresh False, Refresh False]
      (world_of m2 1 1 [] Resting ?hs)"
    unfolding sent_twice_def using m2(1)
    by (intro run_Cons [OF m1(1) _ run_Cons [OF _ _ run_Cons [OF c _ run_single [OF d]]]]) simp_all
  with bins show ?thesis by blast
qed

section \<open>Properties\<close>

text \<open>
  C3. The threads together implement one histogram, if it may grow or its range ends below the top of
  \<open>u64\<close> (else a merge may panic: see \<open>clone_of_max_value_panics\<close>). After any interleaving of recorders being
  made, cloned, dropped, idled and activated, of refreshes with or without a timeout, and of calls by
  recorders and owner that add samples (values, values with those they stand for, whole histograms,
  corrected or not), each bin of what is merged, in the channel and held by recorders together (at the
  width of the counter) is what that bin is in a single histogram to which the calls were applied in
  order: no sample is lost or counted twice, and no merge fails. A call that is out of range of a histogram
  that may not grow fails wherever it is made, and adds what it adds there (nothing; for a corrected
  addition, the bins before the first that is out of range). When nothing is in the channel or with the
  recorders, the owner's histogram has it all. Not covered: subtractions, saturating calls with a value to
  clamp or on a histogram that may grow, calls that add an ill-formed histogram, and dropping the owner.
\<close>

theorem sync_refines_one_histogram:
  fixes h :: "'c::len word histogram"
  assumes "wf h" and "auto_resize h \<or> capacity h < 2 ^ 64" and "LENGTH('c) \<le> 64"
    and "run (\<lambda>_. accepts_event h) (start h) es w"
  shows "sync_bins w = foldl (spec_event h) (bin_count h) es \<and> refreshing w \<noteq> Panicked \<and>
    (unmerged w = (\<lambda>_. 0) \<longrightarrow> bin_count (merged (owner w)) = foldl (spec_event h) (bin_count h) es)"
proof -
  have s: "sync_bins (start h) = bin_count h"
    by (rule ext) (simp add: sync_bins_def start_def sync_from_def queued_def)
  note r = accepting_run [OF assms(4) tracks_start [OF assms(1,2)] assms(3), unfolded s]
  then have "refreshing w \<noteq> Panicked" using sync_okD(5) by (auto simp: tracks_def)
  moreover have "bin_count (merged (owner w)) = sync_bins w" if "unmerged w = (\<lambda>_. 0)"
  proof
    fix i
    have "sync_bins w i = min (2 ^ LENGTH('c) - 1) (bin_count (merged (owner w)) i + unmerged w i)"
      by (simp only: sync_bins_def unmerged_def add.assoc)
    then show "bin_count (merged (owner w)) i = sync_bins w i" by (simp add: that)
  qed
  ultimately show ?thesis using r by simp
qed

theorem sync_refines_one_histogram_witness:
  "sync_bins (world_of sample 1 0 [] Resting [Active \<lparr>local_hist = bump sample 5 1, last_phase = 0\<rparr>])
     = (bin_count sample)(3 := 1)"
proof -
  have "foldl (spec_event sample) (bin_count sample) [NewRecorder, Write 0 (RecordN 5 1)] = (bin_count sample)(3 := 1)"
    using bin_count_blank [of sample] by (simp add: blank_sample h_index_sample room_def capacity_sample fun_eq_iff)
  with sync_refines_one_histogram [OF wf_sample _ _ run_single_write] show ?thesis
    by (simp add: capacity_sample)
qed

text \<open>
  C31. For a histogram that may grow, or whose range ends below the top of \<open>u64\<close>: a refresh never panics
  and never leaves the invariant, whatever is recorded, added (of well-formed histograms) or subtracted
  and whoever joins or leaves meanwhile, since every histogram that arrives fits the owner's; and the
  number of recorders in use is counted exactly. (A histogram that may not grow and covers all of \<open>u64\<close>
  does not take in one that has recorded \<open>u64::MAX\<close>: the \<open>expect\<close> of the merge panics there.)
\<close>

theorem refresh_never_panics:
  fixes h :: "'c::len word histogram"
  assumes "wf h" and "auto_resize h \<or> capacity h < 2 ^ 64" and "LENGTH('c) \<le> 64"
    and "run (\<lambda>_. event_ok) (start h) es w"
  shows "refreshing w \<noteq> Panicked \<and> wf (merged (owner w)) \<and>
    recorders (sync_shared (owner w)) = of_nat (lives (handles w))"
  using sync_ok_run [OF assms(4) sync_ok_start [OF assms(1,2)] _ assms(3)] sync_okD(1,4,5) [of w]
  by (auto simp: mergeable_def)

theorem refresh_never_panics_witness:
  "refreshing stalled_world \<noteq> Panicked \<and> wf (merged (owner stalled_world)) \<and>
    recorders (sync_shared (owner stalled_world)) = of_nat (lives (handles stalled_world))"
  by (rule refresh_never_panics [OF wf_sample _ _ run_to_stall]) (simp_all add: capacity_sample)





text \<open>
  C33. And that condition matters: the reader does not hold the lock from reading the number of
  recorders to advancing the phase. A recorder that goes idle in between is waited for, sends
  nothing, and adopts the new phase when it is activated again, so that its writes send nothing
  either: the refresh blocks until a recorder is dropped, or an idle one is cloned.
\<close>

theorem refresh_can_stall:
  assumes "run (\<lambda>_ e. \<not> brings_histogram e) stalled_world fs w"
  shows "run (\<lambda>_. event_ok) (start sample)
      ([NewRecorder, StartRefresh False, Refresh False, Refresh False] @ [GoIdle 0, Refresh False]) stalled_world \<and>
    refreshing w = Waiting False 0 1 \<and> channel (sync_shared (owner w)) = []"
  using run_to_stall run_stalled [OF assms] by (simp add: stalled_def)

theorem refresh_can_stall_witness:
  "refreshing (world_of sample 1 1 [] (Waiting False 0 1)
      [Active \<lparr>local_hist = bump sample 5 1, last_phase = 1\<rparr>]) = Waiting False 0 1"
proof -
  let ?pc = "Waiting False 0 1" and ?r = "\<lparr>local_hist = sample, last_phase = 1\<rparr> :: 64 word recorder"
  have a: "sync_step stalled_world (Activate 0) (world_of sample 1 1 [] ?pc [Active ?r])"
    using sync_step.activate [of 0 stalled_world fresh_recorder ?r "\<lparr>recorders = 1, phase = 1, channel = [], connected = True\<rparr>"]
    by (simp add: stalled_world_def activate_def reactivate_def fresh_recorder_def)
      (simp add: world_of_def set_handle_def set_shared_def)
  have b: "sync_step (world_of sample 1 1 [] ?pc [Active ?r]) (Write 0 (RecordN 5 1))
      (world_of sample 1 1 [] ?pc [Active \<lparr>local_hist = bump sample 5 1, last_phase = 1\<rparr>])"
    using step_write [of 0 "[Active ?r]" ?r "RecordN 5 1" "bump sample 5 1" sample 1 1 "[]" ?pc]
      perform_record_sample [of 5 1] by (simp add: capacity_sample)
  have "run (\<lambda>_ e. \<not> brings_histogram e) stalled_world [Activate 0, Write 0 (RecordN 5 1)]
      (world_of sample 1 1 [] ?pc [Active \<lparr>local_hist = bump sample 5 1, last_phase = 1\<rparr>])"
    by (rule run_Cons [OF a _ run_single [OF b]]) simp_all
  from refresh_can_stall [OF this] show ?thesis by blast
qed


text \<open>
  C34. A refresh without a timeout can return without the samples of a recorder in use, which its
  documentation excludes: it counts histograms, not recorders, so a recorder that has sent for the
  phase and is then dropped, which sends again, stands in for another. Here the sample in bin 3
  was recorded before the refresh began; the refresh ends, and it is still with its recorder.
\<close>

theorem refresh_can_miss_samples:
  "\<exists>m. run (\<lambda>_ _. True) (start sample) [NewRecorder, CloneRecorder 0, Write 0 (RecordN 5 1)] before_refresh \<and>
     run (\<lambda>_ _. True) before_refresh
       (([StartRefresh False, Refresh False, Refresh False, Refresh False]
          @ [Write 1 (RecordN 90 1), Send 1, DropRecorder 1])
        @ [Refresh False, Refresh False, Refresh False, Refresh False])
       (world_of m 1 1 [] Resting [Active recorder_5, Dropped]) \<and>
     bin_count (local_hist recorder_5) 3 = 1 \<and> bin_count m 3 = 0 \<and> bin_count m 7 = 1"
  using run_before_refresh run_trans [OF run_sent_twice] run_refreshed
    bin_count_bump_sample [of 5 3]
  by (auto simp: recorder_5_def capacity_sample h_index_sample)

end
