(* ===== verification/Typing.thy ===== *)
theory Typing
  imports Sync
begin

text \<open>
  The invariant of a histogram as a type: every sequence of the operations that change one keeps it,
  with the mapping of values to bins of the configuration it was made with.
\<close>

section \<open>Histories of a histogram\<close>

datatype 'c edit =
    Perform "'c call"
  | Clear
  | Reset
  | SetAuto bool
  | SetTo "'c histogram"
  | SetToCorrected "'c histogram" u64

text \<open>What an operation leaves behind, success or not; \<open>None\<close> if it panics or does not return.\<close>

fun apply_edit :: "'c::len word edit \<Rightarrow> 'c word histogram \<Rightarrow> 'c word histogram option" where
  "apply_edit (Perform c) h = perform c h"
| "apply_edit Clear h = Some (clear h)"
| "apply_edit Reset h = Some (reset h)"
| "apply_edit (SetAuto b) h = Some (auto h b)"
| "apply_edit (SetTo s) h = left_behind (set_to h s)"
| "apply_edit (SetToCorrected s i) h =
     (case set_to_corrected h s i of None \<Rightarrow> None | Some r \<Rightarrow> left_behind r)"

fun history :: "'c::len word edit list \<Rightarrow> 'c word histogram \<Rightarrow> 'c word histogram option" where
  "history [] h = Some h"
| "history (e # es) h = (case apply_edit e h of None \<Rightarrow> None | Some h' \<Rightarrow> history es h')"

text \<open>An edit whose source is well-formed, and what it keeps.\<close>

fun edit_ok :: "'c::len word edit \<Rightarrow> bool" where
  "edit_ok (Perform (Add s)) \<longleftrightarrow> wf s"
| "edit_ok (SetTo s) \<longleftrightarrow> wf s"
| "edit_ok _ \<longleftrightarrow> True"

definition of_type :: "'c::len word histogram \<Rightarrow> 'c word histogram \<Rightarrow> bool" where
  "of_type h h' \<longleftrightarrow> wf h' \<and> h_index h' = h_index h \<and> capacity h \<le> capacity h'"

lemma of_type_refl: "wf h \<Longrightarrow> of_type h h"
  by (simp add: of_type_def)

lemma of_type_trans [trans]: "of_type f g \<Longrightarrow> of_type g h \<Longrightarrow> of_type f h"
  by (auto simp: of_type_def)

lemma evolves_of_type: "evolves h h' \<Longrightarrow> of_type h h'"
  by (simp add: evolves_def of_type_def)

lemma h_index_reset [simp]: "h_index (reset h) = h_index h" "capacity (reset h) = capacity h"
  by (simp_all add: reset_def clear_def reset_max_def reset_min_def)

lemma of_type_resets: "wf h \<Longrightarrow> of_type h (reset h)" "wf h \<Longrightarrow> of_type h (clear h)" "wf h \<Longrightarrow> of_type h (auto h b)"
  by (simp_all add: of_type_def wf_reset wf_clear wf_auto) (simp_all add: clear_def auto_def)

lemma of_type_edit:
  fixes h :: "'c::len word histogram"
  assumes "wf h" and "edit_ok e" and "apply_edit e h = Some h'" and "LENGTH('c) \<le> 64"
  shows "of_type h h'"
proof (cases e)
  case (Perform c)
  moreover have "\<forall>s. c = Add s \<longrightarrow> wf s" using assms(2) Perform by auto
  ultimately show ?thesis
    using assms(3) by (auto intro: evolves_of_type evolves_perform [OF assms(1) _ assms(4)])
next
  case (SetTo s)
  have "of_type h (reset h)" by (rule of_type_resets(1) [OF assms(1)])
  also have "of_type (reset h) h'"
    using assms(2,3) SetTo
    by (auto simp: set_to_def intro: evolves_of_type evolves_add [OF wf_reset [OF assms(1)] _ assms(4)])
  finally show ?thesis .
next
  case (SetToCorrected s i)
  have "of_type h (reset h)" by (rule of_type_resets(1) [OF assms(1)])
  also have p: "perform (AddCorrect s i) (reset h) = Some h'"
    using assms(3) SetToCorrected by (simp add: set_to_corrected_def)
  from p have "of_type (reset h) h'"
    by (intro evolves_of_type evolves_perform [where c = "AddCorrect s i", OF wf_reset [OF assms(1)] _ assms(4)]) simp_all
  finally show ?thesis .
qed (use assms(1,3) of_type_resets in auto)

lemma of_type_history:
  fixes h :: "'c::len word histogram"
  assumes "LENGTH('c) \<le> 64"
  shows "wf h \<Longrightarrow> list_all edit_ok es \<Longrightarrow> history es h = Some h' \<Longrightarrow> of_type h h'"
proof (induction es arbitrary: h)
  case (Cons e es)
  then obtain g where g: "apply_edit e h = Some g" "history es g = Some h'" by (auto split: option.splits)
  have "of_type h g" using Cons.prems g(1) by (intro of_type_edit [OF _ _ g(1) assms]) simp_all
  also from this have "of_type g h'" using Cons.prems(2) g(2) by (intro Cons.IH) (simp_all add: of_type_def)
  finally show ?case .
qed (simp add: of_type_refl)


section \<open>Properties\<close>

text \<open>
  C14. The invariant is a type of histograms: whatever calls are made on a histogram a constructor has
  returned, successful or not - recording, merging, subtracting, clearing, replacing, switching the
  resizing -, what they leave behind is well-formed, maps values to bins as at the start, and holds
  at least the values it was made for.
\<close>

theorem history_keeps_type:
  fixes h0 :: "'c::len word histogram"
  assumes "new_with_bounds lo hi sf = Ok h0" and "LENGTH('c) \<le> 64" and "list_all edit_ok es"
    and "history es h0 = Some h"
  shows "wf h \<and> h_index h = h_index h0 \<and> capacity h0 \<le> capacity h"
proof -
  have w: "wf h0" using assms(1) by (rule new_with_bounds_wf)
  have t: "of_type h0 h" by (rule of_type_history [OF assms(2) w assms(3,4)])
  then show ?thesis by (simp add: of_type_def)
qed

definition some_edits :: "u64 edit list" where
  "some_edits = [Perform (SaturatingRecordN 50 3), SetAuto True, Clear, Reset]"

theorem history_keeps_type_witness:
  "\<exists>h. history some_edits sample = Some h \<and> wf h \<and> h_index h = h_index sample \<and> capacity sample \<le> capacity h"
proof -
  let ?h = "reset (clear (auto (bump sample 50 3) True))"
  have "history some_edits sample = Some ?h"
    by (simp add: some_edits_def record_n_inner_clamp [OF wfD(1) [OF wf_sample]] capacity_sample)
  moreover from history_keeps_type [OF new_with_bounds_sample _ _ this]
  have "wf ?h \<and> h_index ?h = h_index sample \<and> capacity sample \<le> capacity ?h"
    by (simp add: some_edits_def)
  ultimately show ?thesis by blast
qed

end
