(* ===== verification/Bytes.thy ===== *)
theory Bytes
  imports Prelude
begin

unbundle bit_operations_syntax

text \<open>
  Bytes in and out, as \<open>byteorder\<close> and \<open>std::io\<close> provide them to the serialization: a reader is
  the bytes it still yields and the error it ends with (\<open>UnexpectedEof\<close> for a slice or cursor),
  a writer is any state with a function that writes a list of bytes, and the big-endian forms of
  \<open>u32\<close> and \<open>u64\<close>.
\<close>

datatype io_error = UnexpectedEof | OtherIoError string

type_synonym reader = "u8 list \<times> io_error"

definition read_exact :: "nat \<Rightarrow> reader \<Rightarrow> (io_error, u8 list \<times> reader) res" where
  "read_exact n r =
     (case r of (bs, e) \<Rightarrow> if n \<le> length bs then Ok (take n bs, (drop n bs, e)) else Err e)"

definition read_u8 :: "reader \<Rightarrow> (io_error, u8 \<times> reader) res" where
  "read_u8 r = (case r of ([], e) \<Rightarrow> Err e | (b # bs, e) \<Rightarrow> Ok (b, (bs, e)))"

text \<open>\<open>Read::take\<close>: at most \<open>n\<close> bytes, then end of file.\<close>

definition take_reader :: "nat \<Rightarrow> reader \<Rightarrow> reader" where
  "take_reader n r =
     (case r of (bs, e) \<Rightarrow> if n \<le> length bs then (take n bs, UnexpectedEof) else (bs, e))"

definition from_be :: "u8 list \<Rightarrow> 'a::len word" where
  "from_be bs = foldl (\<lambda>w b. push_bit 8 w OR ucast b) 0 bs"

definition read_u32 :: "reader \<Rightarrow> (io_error, u32 \<times> reader) res" where
  "read_u32 r = bind_res (read_exact 4 r) (\<lambda>(bs, r'). Ok (from_be bs, r'))"

definition read_u64 :: "reader \<Rightarrow> (io_error, u64 \<times> reader) res" where
  "read_u64 r = bind_res (read_exact 8 r) (\<lambda>(bs, r'). Ok (from_be bs, r'))"

fun be_bytes :: "nat \<Rightarrow> 'a::len word \<Rightarrow> u8 list" where
  "be_bytes 0 w = []"
| "be_bytes (Suc n) w = be_bytes n (drop_bit 8 w) @ [ucast w]"

definition be_u32 :: "u32 \<Rightarrow> u8 list" where
  "be_u32 w = be_bytes 4 w"

definition be_u64 :: "u64 \<Rightarrow> u8 list" where
  "be_u64 w = be_bytes 8 w"

section \<open>Laws\<close>

lemma length_be_bytes: "length (be_bytes n w) = n"
  by (induction n w rule: be_bytes.induct) simp_all

lemma from_be_bytes: "from_be (be_bytes n w) = take_bit (8 * n) w"
proof (induction n w rule: be_bytes.induct)
  case (2 n w)
  have "push_bit 8 (take_bit (8 * n) (drop_bit 8 w)) OR ucast (ucast w :: u8) = take_bit (8 * Suc n) w"
    by (rule bit_word_eqI) (auto simp: bit_simps)
  then show ?case using 2 by (simp add: from_be_def)
qed (simp add: from_be_def)

lemma length_be [simp]: "length (be_u32 w) = 4" "length (be_u64 v) = 8"
  by (simp_all add: be_u32_def be_u64_def length_be_bytes)

lemma take_bit_word_length: "take_bit LENGTH('a) (w :: 'a::len word) = w"
  by (rule bit_word_eqI) (simp add: bit_simps)

lemma from_be_u32 [simp]: "from_be (be_u32 w) = w"
  using take_bit_word_length [of w] by (simp add: be_u32_def from_be_bytes)

lemma from_be_u64 [simp]: "from_be (be_u64 w) = w"
  using take_bit_word_length [of w] by (simp add: be_u64_def from_be_bytes)

lemma read_u32_be [simp]: "read_u32 (be_u32 w @ bs, e) = Ok (w, (bs, e))"
  by (simp add: read_u32_def read_exact_def)

lemma read_u64_be [simp]: "read_u64 (be_u64 w @ bs, e) = Ok (w, (bs, e))"
  by (simp add: read_u64_def read_exact_def)

end
