(* ===== verification/Varint.thy ===== *)
theory Varint
  imports Bytes
begin

unbundle bit_operations_syntax

text \<open>
  The number encodings of the V2 format (\<open>serialization/v2_serializer.rs\<close> and
  \<open>deserializer.rs\<close>): zig-zag, and the LEB128-64b9B variable-length encoding of \<open>u64\<close> with its
  unrolled writer and its two unrolled readers. The reference is the recursive codec \<open>leb\<close> /
  \<open>unleb\<close>; the unrolled routines are proved equal to it.
\<close>

section \<open>Operations\<close>

definition zig_zag_encode :: "i64 \<Rightarrow> u64" where
  "zig_zag_encode num = push_bit 1 num XOR signed_drop_bit 63 num"

definition zig_zag_decode :: "u64 \<Rightarrow> i64" where
  "zig_zag_decode encoded = drop_bit 1 encoded XOR - (encoded AND 1)"

definition shift_by_7s :: "u64 \<Rightarrow> u8 \<Rightarrow> u64" where
  "shift_by_7s input n = shr input (7 * n)"

definition nth_7b_chunk_with_high_bit :: "u64 \<Rightarrow> u8 \<Rightarrow> u8" where
  "nth_7b_chunk_with_high_bit input n = ucast (shift_by_7s input n) OR 0x80"

definition low_7_bits :: "u8 \<Rightarrow> u64" where
  "low_7_bits b = ucast (b AND 0x7F)"

definition is_high_bit_set :: "u8 \<Rightarrow> bool" where
  "is_high_bit_set b \<longleftrightarrow> b AND 0x80 \<noteq> 0"

text \<open>\<open>buf[i] = b\<close> and \<open>slice[i]\<close>, which panic out of range.\<close>

definition set_byte :: "u8 list \<Rightarrow> nat \<Rightarrow> u8 \<Rightarrow> ('e, u8 list) res" where
  "set_byte buf i b = (if i < length buf then Ok (buf[i := b]) else Panic)"

definition byte_at :: "u8 list \<Rightarrow> nat \<Rightarrow> ('e, u8) res" where
  "byte_at bs i = (if i < length bs then Ok (bs ! i) else Panic)"

text \<open>The number of bytes written is returned with the buffer.\<close>

definition varint_write :: "u64 \<Rightarrow> u8 list \<Rightarrow> ('e, u8 list \<times> nat) res" where
  "varint_write input buf0 =
     (if shift_by_7s input 1 = 0
      then bind_res (set_byte buf0 0 (ucast input)) (\<lambda>buf. Ok (buf, 1))
      else bind_res (set_byte buf0 0 (0x80 OR ucast (input AND 0x7F))) (\<lambda>buf1.
      if shift_by_7s input 2 = 0
      then bind_res (set_byte buf1 1 (ucast (shift_by_7s input 1))) (\<lambda>buf. Ok (buf, 2))
      else bind_res (set_byte buf1 1 (nth_7b_chunk_with_high_bit input 1)) (\<lambda>buf2.
      if shift_by_7s input 3 = 0
      then bind_res (set_byte buf2 2 (ucast (shift_by_7s input 2))) (\<lambda>buf. Ok (buf, 3))
      else bind_res (set_byte buf2 2 (nth_7b_chunk_with_high_bit input 2)) (\<lambda>buf3.
      if shift_by_7s input 4 = 0
      then bind_res (set_byte buf3 3 (ucast (shift_by_7s input 3))) (\<lambda>buf. Ok (buf, 4))
      else bind_res (set_byte buf3 3 (nth_7b_chunk_with_high_bit input 3)) (\<lambda>buf4.
      if shift_by_7s input 5 = 0
      then bind_res (set_byte buf4 4 (ucast (shift_by_7s input 4))) (\<lambda>buf. Ok (buf, 5))
      else bind_res (set_byte buf4 4 (nth_7b_chunk_with_high_bit input 4)) (\<lambda>buf5.
      if shift_by_7s input 6 = 0
      then bind_res (set_byte buf5 5 (ucast (shift_by_7s input 5))) (\<lambda>buf. Ok (buf, 6))
      else bind_res (set_byte buf5 5 (nth_7b_chunk_with_high_bit input 5)) (\<lambda>buf6.
      if shift_by_7s input 7 = 0
      then bind_res (set_byte buf6 6 (ucast (shift_by_7s input 6))) (\<lambda>buf. Ok (buf, 7))
      else bind_res (set_byte buf6 6 (nth_7b_chunk_with_high_bit input 6)) (\<lambda>buf7.
      if shift_by_7s input 8 = 0
      then bind_res (set_byte buf7 7 (ucast (shift_by_7s input 7))) (\<lambda>buf. Ok (buf, 8))
      else bind_res (set_byte buf7 7 (nth_7b_chunk_with_high_bit input 7)) (\<lambda>buf8.
      bind_res (set_byte buf8 8 (ucast (drop_bit 56 input))) (\<lambda>buf. Ok (buf, 9)))))))))))"

definition varint_read_slice :: "u8 list \<Rightarrow> ('e, u64 \<times> nat) res" where
  "varint_read_slice bytes =
     bind_res (byte_at bytes 0) (\<lambda>b0. let value0 = low_7_bits b0 in
     if \<not> is_high_bit_set b0 then Ok (value0, 1) else
     bind_res (byte_at bytes 1) (\<lambda>b1. let value1 = value0 OR push_bit 7 (low_7_bits b1) in
     if \<not> is_high_bit_set b1 then Ok (value1, 2) else
     bind_res (byte_at bytes 2) (\<lambda>b2. let value2 = value1 OR push_bit 14 (low_7_bits b2) in
     if \<not> is_high_bit_set b2 then Ok (value2, 3) else
     bind_res (byte_at bytes 3) (\<lambda>b3. let value3 = value2 OR push_bit 21 (low_7_bits b3) in
     if \<not> is_high_bit_set b3 then Ok (value3, 4) else
     bind_res (byte_at bytes 4) (\<lambda>b4. let value4 = value3 OR push_bit 28 (low_7_bits b4) in
     if \<not> is_high_bit_set b4 then Ok (value4, 5) else
     bind_res (byte_at bytes 5) (\<lambda>b5. let value5 = value4 OR push_bit 35 (low_7_bits b5) in
     if \<not> is_high_bit_set b5 then Ok (value5, 6) else
     bind_res (byte_at bytes 6) (\<lambda>b6. let value6 = value5 OR push_bit 42 (low_7_bits b6) in
     if \<not> is_high_bit_set b6 then Ok (value6, 7) else
     bind_res (byte_at bytes 7) (\<lambda>b7. let value7 = value6 OR push_bit 49 (low_7_bits b7) in
     if \<not> is_high_bit_set b7 then Ok (value7, 8) else
     bind_res (byte_at bytes 8) (\<lambda>b8. Ok (value7 OR push_bit 56 (ucast b8), 9))))))))))"

definition varint_read :: "reader \<Rightarrow> (io_error, u64 \<times> reader) res" where
  "varint_read r =
     bind_res (read_u8 r) (\<lambda>(b0, r0). let value0 = low_7_bits b0 in
     if \<not> is_high_bit_set b0 then Ok (value0, r0) else
     bind_res (read_u8 r0) (\<lambda>(b1, r1). let value1 = value0 OR push_bit 7 (low_7_bits b1) in
     if \<not> is_high_bit_set b1 then Ok (value1, r1) else
     bind_res (read_u8 r1) (\<lambda>(b2, r2). let value2 = value1 OR push_bit 14 (low_7_bits b2) in
     if \<not> is_high_bit_set b2 then Ok (value2, r2) else
     bind_res (read_u8 r2) (\<lambda>(b3, r3). let value3 = value2 OR push_bit 21 (low_7_bits b3) in
     if \<not> is_high_bit_set b3 then Ok (value3, r3) else
     bind_res (read_u8 r3) (\<lambda>(b4, r4). let value4 = value3 OR push_bit 28 (low_7_bits b4) in
     if \<not> is_high_bit_set b4 then Ok (value4, r4) else
     bind_res (read_u8 r4) (\<lambda>(b5, r5). let value5 = value4 OR push_bit 35 (low_7_bits b5) in
     if \<not> is_high_bit_set b5 then Ok (value5, r5) else
     bind_res (read_u8 r5) (\<lambda>(b6, r6). let value6 = value5 OR push_bit 42 (low_7_bits b6) in
     if \<not> is_high_bit_set b6 then Ok (value6, r6) else
     bind_res (read_u8 r6) (\<lambda>(b7, r7). let value7 = value6 OR push_bit 49 (low_7_bits b7) in
     if \<not> is_high_bit_set b7 then Ok (value7, r7) else
     bind_res (read_u8 r7) (\<lambda>(b8, r8). Ok (value7 OR push_bit 56 (ucast b8), r8))))))))))"

section \<open>The reference codec\<close>

fun leb :: "nat \<Rightarrow> u64 \<Rightarrow> u8 list" where
  "leb 0 v = [ucast v]"
| "leb (Suc k) v =
     (if v < 128 then [ucast v] else (0x80 OR ucast (v AND 0x7F)) # leb k (drop_bit 7 v))"

fun unleb :: "nat \<Rightarrow> u8 list \<Rightarrow> (u64 \<times> u8 list) option" where
  "unleb k [] = None"
| "unleb 0 (b # bs) = Some (ucast b, bs)"
| "unleb (Suc k) (b # bs) =
     (if is_high_bit_set b
      then map_option (\<lambda>(v, rest). (low_7_bits b OR push_bit 7 v, rest)) (unleb k bs)
      else Some (low_7_bits b, bs))"

definition varint :: "u64 \<Rightarrow> u8 list" where
  "varint v = leb 8 v"

definition unvarint :: "u8 list \<Rightarrow> (u64 \<times> u8 list) option" where
  "unvarint bs = unleb 8 bs"

lemma length_leb: "1 \<le> length (leb k v)" "length (leb k v) \<le> k + 1"
  by (induction k v rule: leb.induct) simp_all

lemma is_high_bit_set_iff: "is_high_bit_set b \<longleftrightarrow> bit b 7"
proof -
  have "(b AND 2 ^ 7 = 0) = (\<not> bit b 7)" by (rule and_exp_eq_0_iff_not_bit)
  then show ?thesis by (simp add: is_high_bit_set_def)
qed

lemma bit_masks:
  "bit (0x7F :: nat) n \<longleftrightarrow> n < 7" "bit (0x7F :: int) n \<longleftrightarrow> n < 7"
  "bit (0x80 :: nat) n \<longleftrightarrow> n = 7" "bit (0x80 :: int) n \<longleftrightarrow> n = 7"
proof -
  have "(0x7F :: nat) = mask 7" "(0x7F :: int) = mask 7" "(0x80 :: nat) = 2 ^ 7" "(0x80 :: int) = 2 ^ 7"
    by (simp_all add: mask_eq_exp_minus_1)
  then show "bit (0x7F :: nat) n \<longleftrightarrow> n < 7" "bit (0x7F :: int) n \<longleftrightarrow> n < 7"
    "bit (0x80 :: nat) n \<longleftrightarrow> n = 7" "bit (0x80 :: int) n \<longleftrightarrow> n = 7"
    by (simp_all only: bit_mask_iff bit_exp_iff possible_bit_def) auto
qed

lemmas byte_bits = bit_simps bit_masks

lemma high_bit_cont [simp]: "is_high_bit_set (0x80 OR x)"
  by (simp add: is_high_bit_set_iff byte_bits)

lemma low_byte_cont [simp]: "low_7_bits (0x80 OR ucast (v AND 0x7F :: u64)) = v AND 0x7F"
  by (rule bit_word_eqI) (auto simp: low_7_bits_def byte_bits)

lemma less_128_iff: "v < 128 \<longleftrightarrow> drop_bit 7 (v :: u64) = 0"
proof -
  have "drop_bit 7 v = 0 \<longleftrightarrow> unat v div 128 = 0"
    by (simp add: word_unat_eq_iff [of "drop_bit 7 v"] unat_drop_bit_eq drop_bit_eq_div [of 7 "unat v"] del: unsigned_eq_0_iff unat_eq_0)
  then show ?thesis by (simp add: word_less_nat_alt div_eq_0_iff)
qed

lemma less_128_bit: "v < 128 \<Longrightarrow> bit (v :: u64) n \<Longrightarrow> n < 7"
  proof (rule ccontr)
  assume v: "v < 128" "bit v n" "\<not> n < 7"
  then have "bit (drop_bit 7 v) (n - 7)" by (simp add: bit_simps)
  then show False using v(1) by (simp add: less_128_iff)
qed

lemma last_byte:
  assumes "v < 128"
  shows "\<not> is_high_bit_set (ucast (v :: u64))" and "low_7_bits (ucast v) = v"
proof -
  have b: "n < 7" if "bit v n" for n by (rule less_128_bit [OF assms that])
  have "n < 8" if "bit v n" for n using b [OF that] by simp
  with b show "low_7_bits (ucast v) = v"
    by (auto simp: byte_bits low_7_bits_def intro!: bit_word_eqI)
  show "\<not> is_high_bit_set (ucast (v :: u64))"
    using b [of 7] by (auto simp: is_high_bit_set_iff byte_bits)
qed

lemma chunks: "(v AND 0x7F) OR push_bit 7 (drop_bit 7 v) = (v :: u64)"
proof (rule bit_word_eqI)
  fix n :: nat
  show "bit ((v AND 0x7F) OR push_bit 7 (drop_bit 7 v)) n = bit v n" if "n < LENGTH(64)"
    using that by (cases "n < 7") (simp_all add: byte_bits)
qed

lemma unat_drop_7: "unat (drop_bit 7 (v :: u64)) = unat v div 128"
  by (simp add: unat_drop_bit_eq drop_bit_eq_div [of 7 "unat v"])

lemma unleb_leb: "unat v < 2 ^ (7 * k + 8) \<Longrightarrow> unleb k (leb k v @ bs) = Some (v, bs)"
proof (induction k v rule: leb.induct)
  case (1 v)
  then have "ucast (ucast v :: u8) = v"
    by (simp add: word_unat_eq_iff unsigned_ucast_eq unsigned_take_bit_eq take_bit_nat_eq_self)
  then show ?case by simp
next
  case (2 k v)
  have "unat (drop_bit 7 v) < 2 ^ (7 * k + 8)"
    using 2(2) by (simp add: unat_drop_7 less_mult_imp_div_less power_add)
  then show ?case using 2(1) last_byte [of v] by (simp add: chunks)
qed

lemma unvarint_varint: "unvarint (varint v @ bs) = Some (v, bs)"
  unfolding unvarint_def varint_def by (rule unleb_leb) (use unsigned_less [of v, where ?'a = nat] in simp)

section \<open>The unrolled routines are the reference codec\<close>

lemma eight: "(8::nat) = Suc (Suc (Suc (Suc (Suc (Suc (Suc (Suc 0)))))))"
  by simp

lemma push_bit_or_word: "push_bit n (x OR y) = push_bit n x OR push_bit n (y :: 'a::len word)"
  by (rule bit_word_eqI) (auto simp: bit_simps)

lemma varint_read_eq:
  "varint_read (bs, e) = (case unvarint bs of Some (v, rest) \<Rightarrow> Ok (v, (rest, e)) | None \<Rightarrow> Err e)"
  unfolding varint_read_def unvarint_def eight read_u8_def
  by (simp add: Let_def push_bit_or_word or.assoc split: list.split)

lemma unleb_Some:
  "unleb k bs = Some (v, rest) \<Longrightarrow> \<exists>n. 1 \<le> n \<and> n \<le> k + 1 \<and> n \<le> length bs \<and> rest = drop n bs"
proof (induction k bs arbitrary: v rule: unleb.induct)
  case (3 k b bs)
  show ?case
  proof (cases "is_high_bit_set b")
    case True
    with 3(2) obtain u where "unleb k bs = Some (u, rest)" by auto
    from 3(1) [OF True this] obtain n where "1 \<le> n" "n \<le> k + 1" "n \<le> length bs" "rest = drop n bs" by blast
    then show ?thesis by (intro exI [of _ "Suc n"]) simp
  qed (use 3(2) in \<open>auto intro: exI [of _ 1]\<close>)
qed (auto intro: exI [of _ 1])

lemma unleb_not_None: "k + 1 \<le> length bs \<Longrightarrow> unleb k bs \<noteq> None"
  by (induction k bs rule: unleb.induct) auto

lemma varint_read_slice_unvarint:
  assumes "9 \<le> length bs"
  shows "varint_read_slice bs = (case unvarint bs of
    Some (v, rest) \<Rightarrow> Ok (v, length bs - length rest) | None \<Rightarrow> Panic)"
proof -
  from assms obtain b0 b1 b2 b3 b4 b5 b6 b7 b8 rest where "bs = b0 # b1 # b2 # b3 # b4 # b5 # b6 # b7 # b8 # rest"
    by (auto simp: numeral_eq_Suc Suc_le_length_iff)
  then show ?thesis
    unfolding unvarint_def eight varint_read_slice_def
    by (simp add: byte_at_def Let_def push_bit_or_word or.assoc)
qed

lemma varint_read_slice_eq:
  assumes "9 \<le> length bs"
  obtains v n where "varint_read_slice bs = (Ok (v, n) :: ('e, _) res)" and "unvarint bs = Some (v, drop n bs)"
    and "1 \<le> n" and "n \<le> 9"
proof -
  obtain v rest where u: "unvarint bs = Some (v, rest)"
    using unleb_not_None [of 8 bs] assms unfolding unvarint_def by auto
  then obtain n where n: "1 \<le> n" "n \<le> 9" "n \<le> length bs" "rest = drop n bs"
    using unleb_Some [of 8 bs v rest] unfolding unvarint_def by auto
  then show thesis using u varint_read_slice_unvarint [OF assms] by (intro that [of v n]) simp_all
qed

lemma shift_by_7s_eq: "shift_by_7s v 1 = drop_bit 7 v" "shift_by_7s v 2 = drop_bit 14 v"
  "shift_by_7s v 3 = drop_bit 21 v" "shift_by_7s v 4 = drop_bit 28 v" "shift_by_7s v 5 = drop_bit 35 v"
  "shift_by_7s v 6 = drop_bit 42 v" "shift_by_7s v 7 = drop_bit 49 v" "shift_by_7s v 8 = drop_bit 56 v"
  by (simp_all add: shift_by_7s_def shr_def)

lemma or_80: "ucast (x :: u64) OR 0x80 = 0x80 OR (ucast (x AND 0x7F) :: u8)"
  by (rule bit_word_eqI) (auto simp: byte_bits)

lemma varint_write_eq:
  assumes "9 \<le> length buf"
  shows "varint_write v buf = Ok (varint v @ drop (length (varint v)) buf, length (varint v))"
proof -
  from assms obtain b0 b1 b2 b3 b4 b5 b6 b7 b8 rest where "buf = b0 # b1 # b2 # b3 # b4 # b5 # b6 # b7 # b8 # rest"
    by (auto simp: numeral_eq_Suc Suc_le_length_iff)
  then show ?thesis
    unfolding varint_def eight
    by (simp add: varint_write_def shift_by_7s_eq less_128_iff or_80 nth_7b_chunk_with_high_bit_def set_byte_def drop_bit_drop_bit)
qed

section \<open>Zig-zag\<close>

lemma bit_zig_zag_encode:
  "bit (zig_zag_encode n) i \<longleftrightarrow> i < 64 \<and> (if i = 0 then bit n 63 else bit n (i - 1) \<noteq> bit n 63)"
proof -
  have "bit (push_bit 1 n) i \<longleftrightarrow> 1 \<le> i \<and> i < 64 \<and> bit n (i - 1)"
    by (subst bit_push_bit_iff) (auto dest: bit_imp_le_length)
  moreover have "bit (signed_drop_bit 63 n) i \<longleftrightarrow> i < 64 \<and> bit n 63"
    using bit_imp_le_length [of n "63 + i"] by (cases "i = 0") (auto simp: bit_signed_drop_bit_iff)
  ultimately show ?thesis unfolding zig_zag_encode_def bit_xor_iff by auto
qed

lemma bit_zig_zag_decode:
  "bit (zig_zag_decode e) i \<longleftrightarrow> i < 64 \<and> (bit e (i + 1) \<noteq> bit e 0)"
proof -
  have "e AND 1 = of_bool (bit e 0)" by (rule bit_word_eqI) (auto simp: bit_simps)
  then have "- (e AND 1) = (if bit e 0 then - 1 else 0)" by simp
  then show ?thesis using bit_imp_le_length [of e "i + 1"] by (auto simp: zig_zag_decode_def bit_simps)
qed

lemma not_bit_64 [simp]: "\<not> bit (e :: u64) 64"
  using bit_imp_le_length [of e 64] by auto

lemma zig_zag_decode_encode [simp]: "zig_zag_decode (zig_zag_encode n) = n"
proof (rule bit_word_eqI)
  fix i assume "i < LENGTH(64)"
  then show "bit (zig_zag_decode (zig_zag_encode n)) i = bit n i"
    by (cases "i = 63") (auto simp: bit_zig_zag_decode bit_zig_zag_encode)
qed

lemma zig_zag_encode_decode [simp]: "zig_zag_encode (zig_zag_decode e) = e"
proof (rule bit_word_eqI)
  fix i assume "i < LENGTH(64)"
  then show "bit (zig_zag_encode (zig_zag_decode e)) i = bit e i"
    by (cases i) (auto simp: bit_zig_zag_decode bit_zig_zag_encode)
qed

section \<open>Properties\<close>

lemma length_varint: "1 \<le> length (varint v)" "length (varint v) \<le> 9"
  using length_leb [of 8 v] by (simp_all add: varint_def)

text \<open>
  C30. Varints round-trip through every \<open>u64\<close>: in a buffer of at least 9 bytes the writer never
  panics, writes between 1 and 9 bytes and leaves the rest alone, and both readers, the one on a
  stream and the one on a slice of at least 9 bytes, get the value back and stop right behind it.
\<close>

theorem varint_roundtrip:
  assumes "9 \<le> length buf"
  shows "\<exists>bs. varint_write v buf = (Ok (bs @ drop (length bs) buf, length bs) :: (unit, _) res) \<and>
    1 \<le> length bs \<and> length bs \<le> 9 \<and>
    varint_read (bs @ rest, e) = Ok (v, (rest, e)) \<and>
    (length (bs @ rest) < 9 \<or> varint_read_slice (bs @ rest) = (Ok (v, length bs) :: (unit, _) res))"
  using length_varint [of v]
  by (intro exI [of _ "varint v"])
    (simp add: varint_write_eq [OF assms] varint_read_eq unvarint_varint varint_read_slice_unvarint not_less disj_imp)

theorem varint_roundtrip_witness:
  "\<exists>bs. varint_write 300 [0, 0, 0, 0, 0, 0, 0, 0, 0] =
      (Ok (bs @ drop (length bs) [0, 0, 0, 0, 0, 0, 0, 0, 0], length bs) :: (unit, _) res) \<and>
    1 \<le> length bs \<and> length bs \<le> 9 \<and> varint_read (bs @ [7], UnexpectedEof) = Ok (300, ([7], UnexpectedEof))"
  using varint_roundtrip [of "[0, 0, 0, 0, 0, 0, 0, 0, 0]" 300 "[7]" UnexpectedEof] by auto

text \<open>
  Zig-zag is a bijection between \<open>i64\<close> and \<open>u64\<close>: encoding and decoding are inverse on every
  bit pattern.
\<close>

theorem zig_zag_bijection: "zig_zag_decode (zig_zag_encode n) = n \<and> zig_zag_encode (zig_zag_decode e) = e"
  by simp

text \<open>
  The stream reader is the recursive decoder of the format on every input, malformed ones
  included: at most nine bytes, seven bits each, the ninth taken whole, and the stream's own error
  when it ends inside a number.
\<close>

theorem varint_read_is_unvarint:
  "varint_read (bs, e) = (case unvarint bs of Some (v, rest) \<Rightarrow> Ok (v, (rest, e)) | None \<Rightarrow> Err e)"
  by (rule varint_read_eq)

end
