(* ===== verification/Encoding.thy ===== *)
theory Encoding
  imports Varint Combining
begin

unbundle bit_operations_syntax

text \<open>
  The V2 format, writing side (\<open>serialization/mod.rs\<close>, \<open>v2_serializer.rs\<close>): a header of 40 bytes
  and the counts up to the bin of the maximum, each as a zig-zag varint, a run of empty bins as
  one negative number.
\<close>

section \<open>Operations\<close>

datatype v2_serialize_error =
    CountNotSerializable
  | SerUsizeTypeTooSmall
  | SerIoError io_error

definition V2_COOKIE_BASE :: u32 where
  "V2_COOKIE_BASE = 0x1c849303"

definition V2_COMPRESSED_COOKIE_BASE :: u32 where
  "V2_COMPRESSED_COOKIE_BASE = 0x1c849304"

definition V2_COOKIE :: u32 where
  "V2_COOKIE = V2_COOKIE_BASE OR 0x10"

definition V2_COMPRESSED_COOKIE :: u32 where
  "V2_COMPRESSED_COOKIE = V2_COMPRESSED_COOKIE_BASE OR 0x10"

definition V2_HEADER_SIZE :: nat where
  "V2_HEADER_SIZE = 40"

text \<open>The bits of the double \<open>1.0\<close>.\<close>

definition F64_ONE :: u64 where
  "F64_ONE = 0x3FF0000000000000"

definition counts_array_max_encoded_size :: "nat \<Rightarrow> nat option" where
  "counts_array_max_encoded_size n = (if n * 9 \<le> usize_max then Some (n * 9) else None)"

definition max_encoded_size :: "'c histogram \<Rightarrow> nat option" where
  "max_encoded_size h =
     Option.bind (index_for h (hist_max h)) (\<lambda>i.
     Option.bind (counts_array_max_encoded_size (i + 1)) (\<lambda>x.
       checked_add_usize x V2_HEADER_SIZE))"

definition count_to_i64 :: "'c::len word \<Rightarrow> i64 option" where
  "count_to_i64 c = (if unat c < 2 ^ 63 then Some (ucast c) else None)"

text \<open>
  \<open>get_unchecked\<close>: an index out of range is undefined behaviour, written \<open>Panic\<close>; that it never
  happens to a well-formed histogram is part of the theorems.
\<close>

definition get_unchecked :: "'a list \<Rightarrow> nat \<Rightarrow> ('e, 'a) res" where
  "get_unchecked xs i = (if i < length xs then Ok (xs ! i) else Panic)"

lemma bind_res_cong [fundef_cong]:
  "m = m' \<Longrightarrow> (\<And>x. m' = Ok x \<Longrightarrow> f x = f' x) \<Longrightarrow> bind_res m f = bind_res m' f'"
  by (cases m') simp_all

text \<open>The inner loop of \<open>encode_counts\<close>: the empty bins that follow one.\<close>

function skip_zeros :: "'c::len word list \<Rightarrow> nat \<Rightarrow> nat \<Rightarrow> i64 \<Rightarrow> ('e, nat \<times> i64) res" where
  "skip_zeros cs index_limit index zero_count =
     (if index \<le> index_limit then
        bind_res (get_unchecked cs index) (\<lambda>c.
          if c = 0 then skip_zeros cs index_limit (index + 1) (zero_count + 1)
          else Ok (index, zero_count))
      else Ok (index, zero_count))"
  by pat_completeness auto
termination
  by (relation "measure (\<lambda>(cs, index_limit, index, zc). index_limit + 1 - index)") auto

declare skip_zeros.simps [simp del]

lemma skip_zeros_le:
  "skip_zeros cs index_limit index zc = (Ok (i, z) :: ('e, _) res) \<Longrightarrow> index \<le> i"
proof (induction "index_limit + 1 - index" arbitrary: index zc)
  case 0
  then show ?case by (simp add: skip_zeros.simps [of cs index_limit index])
next
  case (Suc d)
  have ih: "skip_zeros cs index_limit (Suc index) (zc + 1) = (Ok (i, z) :: ('e, _) res) \<Longrightarrow> index \<le> i"
  proof -
    have "d = index_limit + 1 - Suc index" using Suc.hyps(2) by simp
    from Suc.hyps(1) [OF this] show "index \<le> i" if "skip_zeros cs index_limit (Suc index) (zc + 1) = (Ok (i, z) :: ('e, _) res)"
      using that Suc_leD by blast
  qed
  from Suc.hyps(2) Suc.prems ih show ?case
    by (auto simp: skip_zeros.simps [of cs index_limit index] bind_res_eq_Ok split: if_splits)
qed

text \<open>The outer loop; \<open>&mut buf[bytes_written..]\<close> panics when \<open>bytes_written\<close> is past the end.\<close>

function encode_loop ::
  "'c::len word list \<Rightarrow> nat \<Rightarrow> nat \<Rightarrow> u8 list \<Rightarrow> nat \<Rightarrow> (v2_serialize_error, u8 list \<times> nat) res" where
  "encode_loop cs index_limit index buf bytes_written =
     (if index \<le> index_limit then
        bind_res (get_unchecked cs index) (\<lambda>count.
        bind_res (if count = 0 then skip_zeros cs index_limit (index + 1) 1 else Ok (index + 1, 0))
          (\<lambda>(index', zero_count).
        bind_res (if sint zero_count > 1 then Ok (- zero_count)
                  else ok_or CountNotSerializable (count_to_i64 count)) (\<lambda>count_or_zeros.
        bind_res (assert_that (bytes_written \<le> length buf)) (\<lambda>_.
        bind_res (varint_write (zig_zag_encode count_or_zeros) (drop bytes_written buf)) (\<lambda>(b, n).
          encode_loop cs index_limit index' (take bytes_written buf @ b) (bytes_written + n))))))
      else Ok (buf, bytes_written))"
  by pat_completeness auto
termination
  by (relation "measure (\<lambda>(cs, index_limit, index, buf, w). index_limit + 1 - index)")
    (auto dest!: skip_zeros_le split: if_splits)

declare encode_loop.simps [simp del]

definition encode_counts ::
  "'c::len word histogram \<Rightarrow> u8 list \<Rightarrow> (v2_serialize_error, u8 list \<times> nat) res" where
  "encode_counts h buf =
     bind_res (expect (index_for h (hist_max h))) (\<lambda>index_limit.
     bind_res (assert_that (index_limit \<le> length (counts h))) (\<lambda>_.
       encode_loop (counts h) index_limit 0 buf 0))"

text \<open>
  \<open>serialize\<close>. A writer is its state with a function that writes all of a list of bytes. The
  memory \<open>set_len\<close> lays open has any contents, \<open>spare\<close>; every call clears the buffer first, so
  what an error leaves in it does not matter.
\<close>

record v2_serializer =
  ser_buf :: "u8 list"

definition v2_header :: "'c histogram \<Rightarrow> u8 list" where
  "v2_header h =
     be_u32 V2_COOKIE @ be_u32 0 @ be_u32 0 @ be_u32 (ucast (significant_value_digits h))
     @ be_u64 (lowest_discernible_value h) @ be_u64 (highest_trackable_value h) @ be_u64 F64_ONE"

definition v2_serialize ::
  "('w \<Rightarrow> u8 list \<Rightarrow> (io_error, 'w) res) \<Rightarrow> (nat \<Rightarrow> u8) \<Rightarrow> v2_serializer \<Rightarrow> 'c::len word histogram \<Rightarrow> 'w
    \<Rightarrow> (v2_serialize_error, v2_serializer \<times> 'w \<times> nat) res" where
  "v2_serialize write_all spare ser h writer =
     bind_res (ok_or SerUsizeTypeTooSmall (max_encoded_size h)) (\<lambda>max_size.
       let buf = v2_header h @ map spare [V2_HEADER_SIZE..<max_size]
       in bind_res (encode_counts h (drop V2_HEADER_SIZE buf)) (\<lambda>(payload, counts_len).
            let total_len = V2_HEADER_SIZE + counts_len;
                buf1 = take V2_HEADER_SIZE buf @ payload;
                buf2 = take 4 buf1 @ be_u32 (of_nat counts_len) @ drop 8 buf1
            in bind_res (assert_that (total_len \<le> length buf2)) (\<lambda>_.
               bind_res (map_err SerIoError (write_all writer (take total_len buf2))) (\<lambda>writer'.
                 Ok (ser\<lparr>ser_buf := buf2\<rparr>, writer', total_len)))))"

section \<open>The numbers that are written\<close>

function tokenize :: "'c::len word list \<Rightarrow> i64 list" where
  "tokenize [] = []"
| "tokenize (c # cs) =
     (if c \<noteq> 0 then ucast c # tokenize cs
      else let z = length (takeWhile (\<lambda>x. x = 0) cs)
           in (if z = 0 then 0 else - of_nat (z + 1)) # tokenize (dropWhile (\<lambda>x. x = 0) cs))"
  by pat_completeness auto
termination
  by (relation "measure length") (auto simp: le_imp_less_Suc length_dropWhile_le)

declare tokenize.simps [simp del]

definition encoded :: "i64 list \<Rightarrow> u8 list" where
  "encoded ts = concat (map (\<lambda>t. varint (zig_zag_encode t)) ts)"

lemma encoded_simps [simp]: "encoded [] = []" "encoded (t # ts) = varint (zig_zag_encode t) @ encoded ts"
  by (simp_all add: encoded_def)

lemma length_tokenize: "length (tokenize cs) \<le> length cs"
proof (induction cs rule: tokenize.induct)
  case (2 c cs)
  then show ?case using length_dropWhile_le [of "\<lambda>x. x = 0" cs]
    by (cases "c = 0") (auto simp: tokenize.simps Let_def)
qed (simp add: tokenize.simps)

lemma length_encoded: "length (encoded ts) \<le> 9 * length ts"
  by (induction ts) (use length_varint(2) in \<open>auto simp: add_mono\<close>)

section \<open>The loops\<close>

lemma skip_zeros_eq:
  assumes "index_limit < length (cs :: 'c::len word list)"
  shows "skip_zeros cs index_limit index zc =
    (let z = length (takeWhile (\<lambda>c. c = 0) (drop index (take (index_limit + 1) cs)))
     in Ok (index + z, zc + of_nat z) :: ('e, nat \<times> i64) res)"
proof (induction "index_limit + 1 - index" arbitrary: index zc)
  case 0
  then show ?case by (simp add: skip_zeros.simps [of cs index_limit index])
next
  case (Suc d)
  then have i: "index \<le> index_limit" by simp
  then have d: "drop index (take (index_limit + 1) cs) = cs ! index # drop (Suc index) (take (index_limit + 1) cs)"
    using assms by (subst Cons_nth_drop_Suc [symmetric]) auto
  have ih: "skip_zeros cs index_limit (Suc index) (zc + 1) =
    (let z = length (takeWhile (\<lambda>c. c = 0) (drop (Suc index) (take (index_limit + 1) cs)))
     in Ok (Suc index + z, zc + 1 + of_nat z) :: ('e, nat \<times> i64) res)"
    by (rule Suc.hyps(1)) (use Suc.hyps(2) in simp)
  show ?case
    unfolding d using i assms ih
    by (simp add: skip_zeros.simps [of cs index_limit index] get_unchecked_def Let_def algebra_simps)
qed

lemma sint_of_nat_small: "n < 2 ^ 62 \<Longrightarrow> sint (of_nat n :: i64) = int n"
  by (simp add: signed_of_nat signed_take_bit_int_eq_self)

text \<open>
  The outer loop writes the encoding of the tokens of the counts it covers, or stops at a count
  that does not fit \<open>i64\<close>.
\<close>

text \<open>A run of zeros is one token, any other count is one: what the first of them takes off the list.\<close>

definition zeros_at :: "'c::len word list \<Rightarrow> nat" where
  "zeros_at ys = length (takeWhile (\<lambda>c. c = 0) ys)"

definition first_token :: "'c::len word \<Rightarrow> 'c word list \<Rightarrow> i64" where
  "first_token c ys = (if c = 0 then if zeros_at ys = 0 then 0 else - of_nat (zeros_at ys + 1) else ucast c)"

definition token_width :: "'c::len word \<Rightarrow> 'c word list \<Rightarrow> nat" where
  "token_width c ys = (if c = 0 then zeros_at ys + 1 else 1)"

lemma zeros_at_le: "zeros_at ys \<le> length ys"
  unfolding zeros_at_def by (rule length_takeWhile_le)

lemma tokenize_Cons: "tokenize (c # ys) = first_token c ys # tokenize (drop (token_width c ys - 1) ys)"
  by (simp add: tokenize.simps first_token_def token_width_def zeros_at_def Let_def dropWhile_eq_drop)

lemma too_large_Cons:
  "(\<exists>x \<in> set (c # ys). 2 ^ 63 \<le> unat x) \<longleftrightarrow>
    2 ^ 63 \<le> unat c \<or> (\<exists>x \<in> set (drop (token_width c ys - 1) ys). 2 ^ 63 \<le> unat x)"
proof -
  have "set ys = set (takeWhile (\<lambda>c. c = 0) ys) \<union> set (dropWhile (\<lambda>c. c = 0) ys)"
    by (metis set_append takeWhile_dropWhile_id)
  moreover have "x \<in> set (takeWhile (\<lambda>c. c = 0) ys) \<Longrightarrow> \<not> 2 ^ 63 \<le> unat x" for x
    by (auto dest: set_takeWhileD)
  ultimately show ?thesis by (auto simp: token_width_def zeros_at_def simp flip: dropWhile_eq_drop)
qed

text \<open>One round of the loop writes the first token and goes on behind what it stands for.\<close>

lemma encode_loop_step:
  fixes cs :: "'c::len word list"
  assumes "index_limit < length cs" and "length cs < 2 ^ 62" and "index \<le> index_limit"
    and "bytes_written + 9 \<le> length buf"
    and "drop index (take (index_limit + 1) cs) = c # ys"
  defines "vb \<equiv> varint (zig_zag_encode (first_token c ys))"
  shows "encode_loop cs index_limit index buf bytes_written =
    (if 2 ^ 63 \<le> unat c then Err CountNotSerializable
     else encode_loop cs index_limit (index + token_width c ys)
       (take bytes_written buf @ vb @ drop (bytes_written + length vb) buf) (bytes_written + length vb))"
proof -
  let ?z = "zeros_at ys"
  have c: "c = cs ! index" and ys: "ys = drop (Suc index) (take (index_limit + 1) cs)"
    using assms(1,3,5) Cons_nth_drop_Suc [of index "take (index_limit + 1) cs"] by auto
  define zc where "zc = (if c = 0 then of_nat (?z + 1) else 0 :: i64)"
  have "skip_zeros cs index_limit (index + 1) 1 = (Ok (index + 1 + ?z, of_nat (?z + 1)) :: (v2_serialize_error, _) res)"
    using skip_zeros_eq [OF assms(1), of "index + 1" 1] by (simp add: Let_def zeros_at_def ys)
  then have a: "(if c = 0 then skip_zeros cs index_limit (index + 1) 1 else Ok (index + 1, 0))
      = (Ok (index + token_width c ys, zc) :: (v2_serialize_error, _) res)"
    by (simp add: token_width_def zc_def)
  have "?z + 1 < 2 ^ 62" using zeros_at_le [of ys] ys assms(1-3) by simp
  from sint_of_nat_small [OF this] have zc: "sint zc > 1 \<longleftrightarrow> c = 0 \<and> ?z \<noteq> 0"
    unfolding zc_def by (auto simp del: of_nat_Suc of_nat_add)
  have b: "(if sint zc > 1 then Ok (- zc) else ok_or CountNotSerializable (count_to_i64 c))
      = (if 2 ^ 63 \<le> unat c then Err CountNotSerializable else Ok (first_token c ys))"
    unfolding zc by (auto simp: zc_def first_token_def count_to_i64_def not_less)
  have g: "get_unchecked cs index = (Ok c :: (v2_serialize_error, _) res)"
    using assms(1,3) by (simp add: get_unchecked_def c)
  have room: "9 \<le> length (drop bytes_written buf)" using assms(4) by simp
  show ?thesis
    unfolding encode_loop.simps [of cs index_limit index] g bind_res.simps a prod.case b
    using assms(3,4) by (simp add: assert_that_def varint_write_eq [OF room] add.commute vb_def)
qed

lemma encode_loop_eq:
  fixes cs :: "'c::len word list"
  assumes "index_limit < length cs" and "length cs < 2 ^ 62"
  shows "bytes_written + 9 * (index_limit + 1 - index) \<le> length buf \<Longrightarrow>
    (let xs = drop index (take (index_limit + 1) cs); bs = encoded (tokenize xs)
     in encode_loop cs index_limit index buf bytes_written =
       (if \<exists>c \<in> set xs. 2 ^ 63 \<le> unat c then Err CountNotSerializable
        else Ok (take bytes_written buf @ bs @ drop (bytes_written + length bs) buf, bytes_written + length bs)))"
proof (induction "index_limit + 1 - index" arbitrary: index buf bytes_written rule: less_induct)
  case less
  show ?case
  proof (cases "index \<le> index_limit")
    case False
    then show ?thesis by (simp add: encode_loop.simps [of cs index_limit index] tokenize.simps Let_def)
  next
    case True
    define c ys where "c = cs ! index" and "ys = drop (Suc index) (take (index_limit + 1) cs)"
    have xs: "drop index (take (index_limit + 1) cs) = c # ys" unfolding c_def ys_def
      using True assms(1) by (subst Cons_nth_drop_Suc [symmetric]) auto
    let ?i = "index + token_width c ys" and ?rest = "drop (token_width c ys - 1) ys"
    let ?vb = "varint (zig_zag_encode (first_token c ys))"
    let ?buf = "take bytes_written buf @ ?vb @ drop (bytes_written + length ?vb) buf"
    have i: "index < ?i" "?i \<le> index_limit + 1" "drop ?i (take (index_limit + 1) cs) = ?rest"
      using zeros_at_le [of ys] assms(1) True by (auto simp: token_width_def ys_def add.commute)
    have "bytes_written + 9 \<le> length buf" using less.prems True by simp
    note step = encode_loop_step [OF assms True this xs]
    have "bytes_written + length ?vb + 9 * (index_limit + 1 - ?i) \<le> length ?buf"
      using less.prems length_varint(2) [of "zig_zag_encode (first_token c ys)"] i True by simp
    note ih = less.hyps [OF _ this, unfolded i(3) Let_def]
    have "take (bytes_written + length ?vb) ?buf = take bytes_written buf @ ?vb"
      and "drop (bytes_written + length ?vb + n) ?buf = drop (bytes_written + length ?vb + n) buf" for n
      using less.prems by (simp_all add: ac_simps)
    then show ?thesis
      unfolding Let_def xs step too_large_Cons tokenize_Cons using ih i(1,2) by (simp add: add.assoc)
  qed
qed

section \<open>The whole message\<close>

text \<open>The counts that are written: up to the bin of the maximum.\<close>

definition written_counts :: "'c::len word histogram \<Rightarrow> 'c word list" where
  "written_counts h = take (h_index h (unat (max_value h)) + 1) (counts h)"

definition payload :: "'c::len word histogram \<Rightarrow> u8 list" where
  "payload h = encoded (tokenize (written_counts h))"

definition message :: "'c::len word histogram \<Rightarrow> u8 list" where
  "message h =
     be_u32 V2_COOKIE @ be_u32 (of_nat (length (payload h))) @ be_u32 0
     @ be_u32 (ucast (significant_value_digits h))
     @ be_u64 (lowest_discernible_value h) @ be_u64 (highest_trackable_value h) @ be_u64 F64_ONE
     @ payload h"

lemma length_counts_bound:
  assumes "bins_ok h"
  shows "length (counts h) \<le> 65 * 2 ^ 17"
proof -
  have "bc h + 1 \<le> 65" using bins_okD [OF assms] by simp
  moreover have "(2::nat) ^ hm h \<le> 2 ^ 17"
    using layout_okD(1) [OF bins_okD(1) [OF assms]] by (intro power_increasing) simp_all
  ultimately have "(bc h + 1) * 2 ^ hm h \<le> 65 * 2 ^ 17" by (rule mult_le_mono)
  then show ?thesis using bins_okD(4) [OF assms] by simp
qed

lemma max_index_less: "wf h \<Longrightarrow> h_index h (unat (max_value h)) < length (counts h)"
  using less_capacity_iff [OF wfD(3)] wfD(5) by blast

lemma length_payload: "length (payload h) \<le> 9 * (h_index h (unat (max_value h)) + 1)"
proof -
  have "length (tokenize (written_counts h)) \<le> h_index h (unat (max_value h)) + 1"
    by (rule order_trans [OF length_tokenize]) (simp add: written_counts_def)
  then show ?thesis using length_encoded [of "tokenize (written_counts h)"] by (simp add: payload_def)
qed

lemma v2_serialize_eq:
  fixes h :: "'c::len word histogram"
  assumes "wf h"
  shows "if \<exists>c \<in> set (written_counts h). 2 ^ 63 \<le> unat c
    then v2_serialize write_all spare ser h writer = Err CountNotSerializable
    else \<exists>ser'. v2_serialize write_all spare ser h writer =
      bind_res (map_err SerIoError (write_all writer (message h))) (\<lambda>writer'.
        Ok (ser', writer', length (message h)))"
proof -
  note w = wfD [OF assms]
  define m where "m = h_index h (unat (max_value h))"
  have ix: "index_for h (hist_max h) = Some m"
    by (simp add: index_for_h_index [OF w(2)] h_index_hist_max [OF w(2)] m_def)
  have m: "m < length (counts h)" unfolding m_def by (rule max_index_less [OF assms])
  have len: "length (counts h) \<le> 65 * 2 ^ 17" by (rule length_counts_bound [OF w(3)])
  have size: "max_encoded_size h = Some (9 * (m + 1) + 40)"
    using m len by (simp add: max_encoded_size_def ix counts_array_max_encoded_size_def checked_add_usize_def
        usize_max_def V2_HEADER_SIZE_def)
  let ?spare = "map spare [V2_HEADER_SIZE..<9 * (m + 1) + 40]"
  have hdr: "length (v2_header h) = 40" by (simp add: v2_header_def)
  have d: "drop V2_HEADER_SIZE (v2_header h @ ?spare) = ?spare" "take V2_HEADER_SIZE (v2_header h @ ?spare) = v2_header h"
    using hdr by (simp_all add: V2_HEADER_SIZE_def)
  have ls: "length ?spare = 9 * (m + 1)" by (simp add: V2_HEADER_SIZE_def)
  have "length (counts h) < 2 ^ 62" using len by simp
  from encode_loop_eq [OF m this, of 0 0 ?spare] have enc:
    "encode_counts h ?spare = (if \<exists>c \<in> set (written_counts h). 2 ^ 63 \<le> unat c then Err CountNotSerializable
      else Ok (payload h @ drop (length (payload h)) ?spare, length (payload h)))"
    using ls m by (simp add: encode_counts_def ix written_counts_def payload_def m_def Let_def assert_that_def)
  have lp: "length (payload h) \<le> 9 * (m + 1)" unfolding m_def by (rule length_payload)
  show ?thesis
  proof (cases "\<exists>c \<in> set (written_counts h). 2 ^ 63 \<le> unat c")
    case True
    then have "encode_counts h ?spare = Err CountNotSerializable" using enc by simp
    then have "v2_serialize write_all spare ser h writer = Err CountNotSerializable"
      unfolding v2_serialize_def size by (simp only: ok_or.simps bind_res.simps Let_def d)
    then show ?thesis using True by simp
  next
    case False
    then have enc1: "encode_counts h ?spare = Ok (payload h @ drop (length (payload h)) ?spare, length (payload h))"
      using enc by simp
    let ?buf1 = "v2_header h @ payload h @ drop (length (payload h)) ?spare"
    let ?buf2 = "take 4 ?buf1 @ be_u32 (of_nat (length (payload h))) @ drop 8 ?buf1"
    have "take (V2_HEADER_SIZE + length (payload h)) ?buf2 = message h"
      by (simp add: v2_header_def message_def V2_HEADER_SIZE_def)
    moreover have "V2_HEADER_SIZE + length (payload h) = length (message h)"
      by (simp add: message_def V2_HEADER_SIZE_def)
    moreover have "V2_HEADER_SIZE + length (payload h) \<le> length ?buf2"
      using lp ls hdr by (simp add: V2_HEADER_SIZE_def)
    ultimately have "v2_serialize write_all spare ser h writer =
      bind_res (map_err SerIoError (write_all writer (message h))) (\<lambda>writer'.
        Ok (ser\<lparr>ser_buf := ?buf2\<rparr>, writer', length (message h)))"
      unfolding v2_serialize_def size
      by (simp only: ok_or.simps bind_res.simps Let_def d enc1 prod.case assert_that_True)
    then show ?thesis using False by auto
  qed
qed

end
