(* ===== verification/Decoding.thy ===== *)
theory Decoding
  imports Encoding
begin

unbundle bit_operations_syntax

text \<open>
  The V2 format, reading side (\<open>serialization/deserializer.rs\<close>), and the proof that reading what
  was written restores the histogram. The zlib decoder of the compressed form is a function from
  readers to readers, an argument of the definitions.
\<close>

section \<open>Operations\<close>

datatype deserialize_error =
    DeIoError io_error
  | InvalidCookie
  | UnsupportedFeature
  | UnsuitableCounterType
  | InvalidParameters
  | DeUsizeTypeTooSmall
  | EncodedArrayTooLong

text \<open>\<open>T::from_i64\<close> and \<open>u32::to_u8\<close>.\<close>

definition count_from_i64 :: "i64 \<Rightarrow> 'c::len word option" where
  "count_from_i64 x = (if 0 \<le> sint x \<and> sint x < 2 ^ LENGTH('c) then Some (ucast x) else None)"

definition to_u8 :: "u32 \<Rightarrow> u8 option" where
  "to_u8 w = (if w < 256 then Some (ucast w) else None)"

text \<open>
  \<open>DecodeLoopState::on_decoded_num\<close>; the state of the loops is the destination index, the
  statistics and the histogram. \<open>-count_or_zeros\<close> wraps for \<open>i64::MIN\<close>, which \<open>to_usize\<close> rejects.
\<close>

type_synonym 'c decode_state = "nat \<times> restat_state \<times> 'c histogram"

definition on_decoded_num ::
  "i64 \<Rightarrow> 'c::len word decode_state \<Rightarrow> (deserialize_error, 'c word decode_state) res" where
  "on_decoded_num count_or_zeros st =
     (case st of (dest_index, rs, h) \<Rightarrow>
        if sint count_or_zeros < 0 then
          bind_res (ok_or DeUsizeTypeTooSmall (to_usize (sint (- count_or_zeros)))) (\<lambda>zero_count.
          bind_res (ok_or DeUsizeTypeTooSmall (checked_add_usize dest_index zero_count)) (\<lambda>i.
            Ok (i, rs, h)))
        else
          bind_res (ok_or UnsuitableCounterType (count_from_i64 count_or_zeros)) (\<lambda>count.
          bind_res
            (if count > 0 then
               bind_res (map_err (\<lambda>_. EncodedArrayTooLong) (set_count_at_index h dest_index count))
                 (\<lambda>h'. Ok (on_nonzero_count dest_index count rs, h'))
             else Ok (rs, h)) (\<lambda>(rs', h').
          bind_res (ok_or DeUsizeTypeTooSmall (checked_add_usize dest_index 1)) (\<lambda>i.
            Ok (i, rs', h')))))"

text \<open>The fast loop reads from slices of 9 bytes until it is within 9 bytes of the end.\<close>

function fast_loop ::
  "u8 list \<Rightarrow> nat \<Rightarrow> 'c::len word decode_state \<Rightarrow> (deserialize_error, nat \<times> 'c word decode_state) res" where
  "fast_loop payload_slice payload_index st =
     (if payload_index < length payload_slice - 9 then
        bind_res (varint_read_slice (take 9 (drop payload_index payload_slice))) (\<lambda>(zz_num, bytes_read).
        bind_res (on_decoded_num (zig_zag_decode zz_num) st) (\<lambda>st'.
          fast_loop payload_slice (payload_index + bytes_read) st'))
      else Ok (payload_index, st))"
  by pat_completeness auto
termination
proof (relation "measure (\<lambda>(bs, i, st). length bs - i)", simp, goal_cases)
  case (1 payload_slice payload_index st x zz_num bytes_read st')
  then have "9 \<le> length (take 9 (drop payload_index payload_slice))" by simp
  then obtain v n where "varint_read_slice (take 9 (drop payload_index payload_slice))
      = (Ok (v, n) :: (deserialize_error, _) res)" and "1 \<le> n"
    by (rule varint_read_slice_eq)
  with 1 show ?case by auto
qed

declare fast_loop.simps [simp del]

text \<open>The slow loop reads the leftovers through a cursor.\<close>

function slow_loop :: "u8 list \<Rightarrow> 'c::len word decode_state \<Rightarrow> (deserialize_error, 'c word decode_state) res" where
  "slow_loop leftover st =
     (if leftover = [] then Ok st
      else
        bind_res (map_err DeIoError (varint_read (leftover, UnexpectedEof))) (\<lambda>(zz_num, (rest, e)).
        bind_res (on_decoded_num (zig_zag_decode zz_num) st) (\<lambda>st'. slow_loop rest st')))"
  by pat_completeness auto
termination
proof (relation "measure (\<lambda>(bs, st). length bs)", simp, goal_cases)
  case (1 leftover st x zz_num y rest e st')
  then have "unvarint leftover = Some (zz_num, rest)" by (auto simp: varint_read_eq split: option.splits)
  then show ?case using unleb_Some [of 8 leftover zz_num rest] 1(1) by (auto simp: unvarint_def)
qed

declare slow_loop.simps [simp del]

record deserializer =
  payload_buf :: "u8 list"

text \<open>
  \<open>deser_v2\<close>, from behind the cookie: first the header. The ratio is compared as the bits of the
  double, which for \<open>1.0\<close> are unique.
\<close>

definition read_header :: "reader \<Rightarrow> (deserialize_error, nat \<times> u8 \<times> u64 \<times> u64 \<times> reader) res" where
  "read_header r0 =
     bind_res (map_err DeIoError (read_u32 r0)) (\<lambda>(len32, r1).
     bind_res (ok_or DeUsizeTypeTooSmall (to_usize (uint len32))) (\<lambda>payload_len.
     bind_res (map_err DeIoError (read_u32 r1)) (\<lambda>(normalizing_offset, r2).
     if normalizing_offset \<noteq> 0 then Err UnsupportedFeature else
     bind_res (map_err DeIoError (read_u32 r2)) (\<lambda>(digits32, r3).
     bind_res (ok_or InvalidParameters (to_u8 digits32)) (\<lambda>num_digits.
     bind_res (map_err DeIoError (read_u64 r3)) (\<lambda>(lo, r4).
     bind_res (map_err DeIoError (read_u64 r4)) (\<lambda>(hi, r5).
     bind_res (map_err DeIoError (read_u64 r5)) (\<lambda>(int_double_ratio, r6).
     if int_double_ratio \<noteq> F64_ONE then Err UnsupportedFeature
     else Ok (payload_len, num_digits, lo, hi, r6)))))))))"

text \<open>Then the counts; the payload buffer of the deserializer only grows.\<close>

definition read_counts ::
  "deserializer \<Rightarrow> nat \<Rightarrow> 'c::len word histogram \<Rightarrow> reader
    \<Rightarrow> (deserialize_error, deserializer \<times> 'c word histogram \<times> reader) res" where
  "read_counts ds payload_len h r6 =
     (let buf = (if payload_len > length (payload_buf ds)
                then vec_resize (payload_buf ds) payload_len 0 else payload_buf ds) in
     bind_res (map_err DeIoError (read_exact payload_len r6)) (\<lambda>(bs, r7).
     let buf' = bs @ drop payload_len buf; payload_slice = take payload_len buf' in
     bind_res (fast_loop payload_slice 0 (0, restat_new, h)) (\<lambda>(payload_index, st).
     bind_res (slow_loop (drop payload_index payload_slice) st) (\<lambda>(i, rs, h').
     bind_res (update_histogram rs h') (\<lambda>h''.
       Ok (ds\<lparr>payload_buf := buf'\<rparr>, h'', r7))))))"

definition deser_v2 ::
  "deserializer \<Rightarrow> reader \<Rightarrow> (deserialize_error, deserializer \<times> 'c::len word histogram \<times> reader) res" where
  "deser_v2 ds r0 =
     bind_res (read_header r0) (\<lambda>(payload_len, num_digits, lo, hi, r6).
     bind_res (map_err (\<lambda>_. InvalidParameters) (new_with_bounds lo hi num_digits)) (\<lambda>h.
       read_counts ds payload_len h r6))"

definition deser_v2_compressed ::
  "(reader \<Rightarrow> reader) \<Rightarrow> deserializer \<Rightarrow> reader
    \<Rightarrow> (deserialize_error, deserializer \<times> 'c::len word histogram) res" where
  "deser_v2_compressed zlib_decoder ds r0 =
     bind_res (map_err DeIoError (read_u32 r0)) (\<lambda>(len32, r1).
     bind_res (ok_or DeUsizeTypeTooSmall (to_usize (uint len32))) (\<lambda>payload_len.
     bind_res (map_err DeIoError (read_u32 (zlib_decoder (take_reader payload_len r1)))) (\<lambda>(inner_cookie, r2).
     if inner_cookie \<noteq> V2_COOKIE then Err InvalidCookie
     else bind_res (deser_v2 ds r2) (\<lambda>(ds', h, _). Ok (ds', h)))))"

definition deserialize ::
  "(reader \<Rightarrow> reader) \<Rightarrow> deserializer \<Rightarrow> reader
    \<Rightarrow> (deserialize_error, deserializer \<times> 'c::len word histogram) res" where
  "deserialize zlib_decoder ds r0 =
     bind_res (map_err DeIoError (read_u32 r0)) (\<lambda>(cookie, r1).
       if cookie = V2_COOKIE then bind_res (deser_v2 ds r1) (\<lambda>(ds', h, _). Ok (ds', h))
       else if cookie = V2_COMPRESSED_COOKIE then deser_v2_compressed zlib_decoder ds r1
       else Err InvalidCookie)"

section \<open>The loops read the numbers that were written\<close>

primrec decode_tokens ::
  "i64 list \<Rightarrow> 'c::len word decode_state \<Rightarrow> (deserialize_error, 'c word decode_state) res" where
  "decode_tokens [] st = Ok st"
| "decode_tokens (t # ts) st = bind_res (on_decoded_num t st) (decode_tokens ts)"

lemma varint_not_Nil [simp]: "varint v \<noteq> []"
  using length_varint(1) [of v] by auto

lemma slow_loop_encoded: "slow_loop (encoded ts) st = decode_tokens ts st"
proof (induction ts arbitrary: st)
  case Nil
  then show ?case by (simp add: slow_loop.simps)
next
  case (Cons t ts)
  then show ?case
    by (subst slow_loop.simps) (simp add: varint_read_eq unvarint_varint cong: bind_res_cong)
qed

lemma fast_loop_encoded:
  assumes "drop i bs = encoded ts" and "decode_tokens ts st = Ok st'"
  shows "\<exists>j ts' st1. fast_loop bs i st = Ok (j, st1) \<and> drop j bs = encoded ts' \<and> decode_tokens ts' st1 = Ok st'"
  using assms
proof (induction ts arbitrary: i st)
  case Nil
  then have "\<not> i < length bs - 9" by simp
  then show ?case using Nil
    by (intro exI [of _ i] exI [of _ "[]"] exI [of _ st]) (simp add: fast_loop.simps [of bs i])
next
  case (Cons t ts)
  show ?case
  proof (cases "i < length bs - 9")
    case False
    then show ?thesis using Cons.prems
      by (intro exI [of _ i] exI [of _ "t # ts"] exI [of _ st]) (simp add: fast_loop.simps [of bs i])
  next
    case True
    let ?v = "varint (zig_zag_encode t)"
    have nine: "length (take 9 (drop i bs)) = 9" using True by simp
    have "take 9 (drop i bs) = ?v @ take (9 - length ?v) (encoded ts)"
      using Cons.prems(1) length_varint(2) [of "zig_zag_encode t"] by simp
    then have "unvarint (take 9 (drop i bs)) = Some (zig_zag_encode t, take (9 - length ?v) (encoded ts))"
      by (simp add: unvarint_varint)
    moreover have "length (take (9 - length ?v) (encoded ts)) = 9 - length ?v"
      using nine \<open>take 9 (drop i bs) = _\<close> by (metis length_append diff_add_inverse)
    ultimately have slice: "varint_read_slice (take 9 (drop i bs)) = (Ok (zig_zag_encode t, length ?v) :: (deserialize_error, _) res)"
      using nine length_varint(2) [of "zig_zag_encode t"] by (simp add: varint_read_slice_unvarint)
    obtain st2 where st2: "on_decoded_num t st = Ok st2" "decode_tokens ts st2 = Ok st'"
      using Cons.prems(2) by (auto simp: bind_res_eq_Ok)
    have "drop (i + length ?v) bs = drop (length ?v) (drop i bs)" by (simp add: add.commute)
    then have "drop (i + length ?v) bs = encoded ts" unfolding Cons.prems(1) by simp
    from Cons.IH [OF this st2(2)] show ?thesis
      using True slice st2(1) by (simp add: fast_loop.simps [of bs i])
  qed
qed

lemma decode_loops:
  assumes "decode_tokens ts st = Ok st'"
  shows "\<exists>j st1. fast_loop (encoded ts) 0 st = Ok (j, st1) \<and> slow_loop (drop j (encoded ts)) st1 = Ok st'"
proof -
  have "drop 0 (encoded ts) = encoded ts" by simp
  from fast_loop_encoded [OF this assms] obtain j ts' st1 where
    "fast_loop (encoded ts) 0 st = Ok (j, st1)" "drop j (encoded ts) = encoded ts'" "decode_tokens ts' st1 = Ok st'"
    by blast
  then show ?thesis using slow_loop_encoded by metis
qed

section \<open>The numbers restore the counts\<close>

lemma scan_counts_zeros:
  "scan_counts i (replicate z 0 @ cs) s = scan_counts (i + z) cs s"
  by (induction z arbitrary: i) simp_all

lemma scan_counts_append: "scan_counts i (xs @ ys) s = scan_counts (i + length xs) ys (scan_counts i xs s)"
  by (induction xs arbitrary: i s) simp_all

lemma sint_of_nat: "n < 2 ^ 63 \<Longrightarrow> sint (of_nat n :: i64) = int n"
  by (simp add: signed_of_nat signed_take_bit_int_eq_self)

lemma sint_minus_of_nat:
  assumes "n < 2 ^ 63"
  shows "sint (- of_nat n :: i64) = - int n"
proof -
  have "(- of_nat n :: i64) = of_int (- int n)" by simp
  then show ?thesis using assms by (simp only: signed_of_int) (simp add: signed_take_bit_int_eq_self)
qed

lemma on_decoded_zeros:
  assumes "0 < n" and "d + n < 2 ^ 62"
  shows "on_decoded_num (- of_nat n) (d, rs, h) = Ok (d + n, rs, h)"
proof -
  have n: "n < 2 ^ 63" using assms by simp
  show ?thesis using assms
    by (simp add: on_decoded_num_def sint_of_nat [OF n] sint_minus_of_nat [OF n] to_usize_def
        checked_add_usize_def usize_max_def)
qed

lemma sint_ucast_count:
  "unat (c :: 'c::len word) < 2 ^ 63 \<Longrightarrow> sint (ucast c :: i64) = int (unat c)"
proof -
  assume "unat c < 2 ^ 63"
  from sint_of_nat [OF this] show ?thesis by simp
qed

lemma count_from_i64_ucast:
  assumes "unat (c :: 'c::len word) < 2 ^ 63" and "LENGTH('c) \<le> 64"
  shows "count_from_i64 (ucast c) = Some c"
proof -
  have "ucast (ucast c :: i64) = c"
    by (rule bit_word_eqI) (use assms(2) in \<open>auto simp: bit_simps\<close>)
  moreover have "int (unat c) < 2 ^ LENGTH('c)"
    using unsigned_less [of c, where ?'a = int] by simp
  ultimately show ?thesis using sint_ucast_count [OF assms(1)] by (simp add: count_from_i64_def)
qed

lemma on_decoded_count:
  fixes c :: "'c::len word"
  assumes "unat c < 2 ^ 63" and "LENGTH('c) \<le> 64" and "d < length (counts h)" and "d < 2 ^ 62"
    and "c \<noteq> 0"
  shows "on_decoded_num (ucast c) (d, rs, h) =
    Ok (d + 1, on_nonzero_count d c rs, h\<lparr>counts := (counts h)[d := c]\<rparr>)"
  using assms(3-5)
  by (simp add: on_decoded_num_def sint_ucast_count [OF assms(1)] count_from_i64_ucast [OF assms(1,2)]
      word_gt_0 set_count_at_index_def checked_add_usize_def usize_max_def)

lemma on_decoded_zero:
  assumes "d < 2 ^ 62"
  shows "on_decoded_num 0 (d, rs, h) = Ok (d + 1, rs, h)"
  using assms by (simp add: on_decoded_num_def count_from_i64_def checked_add_usize_def usize_max_def)

text \<open>A token for a run of zeros moves on; on what is still empty it leaves what it stands for.\<close>

lemma on_decoded_run:
  assumes "\<forall>i. d \<le> i \<longrightarrow> i < length (counts h) \<longrightarrow> counts h ! i = 0"
    and "d + (z + 1) \<le> length (counts h)" and "length (counts h) < 2 ^ 62"
  shows "on_decoded_num (if z = 0 then 0 else - of_nat (z + 1)) (d, rs, h) = Ok (d + (z + 1), rs, h)"
    and "take (d + (z + 1)) (counts h) = take d (counts h) @ replicate (z + 1) 0"
proof -
  show "on_decoded_num (if z = 0 then 0 else - of_nat (z + 1)) (d, rs, h) = Ok (d + (z + 1), rs, h)"
    using on_decoded_zero [of d rs h] on_decoded_zeros [of "z + 1" d rs h] assms(2,3) by simp
  show "take (d + (z + 1)) (counts h) = take d (counts h) @ replicate (z + 1) 0"
  proof (rule nth_equalityI)
    show "length (take (d + (z + 1)) (counts h)) = length (take d (counts h) @ replicate (z + 1) 0)"
      using assms(2) by simp
    fix i assume "i < length (take (d + (z + 1)) (counts h))"
    then have i: "i < d + (z + 1)" "i < length (counts h)" by simp_all
    have "d \<le> i \<Longrightarrow> counts h ! i = 0" using assms(1) i(2) by blast
    then show "take (d + (z + 1)) (counts h) ! i = (take d (counts h) @ replicate (z + 1) 0) ! i"
      using i by (cases "i < d") (simp_all add: nth_append not_less del: replicate_Suc)
  qed
qed

lemma decode_tokenize:
  fixes h :: "'c::len word histogram"
  assumes "LENGTH('c) \<le> 64"
  shows "\<forall>c \<in> set cs. unat c < 2 ^ 63 \<Longrightarrow> d + length cs \<le> length (counts h) \<Longrightarrow> length (counts h) < 2 ^ 62 \<Longrightarrow>
    \<forall>i. d \<le> i \<longrightarrow> i < length (counts h) \<longrightarrow> counts h ! i = 0 \<Longrightarrow>
    decode_tokens (tokenize cs) (d, rs, h) = Ok (d + length cs, scan_counts d cs rs,
      h\<lparr>counts := take d (counts h) @ cs @ drop (d + length cs) (counts h)\<rparr>)"
proof (induction cs arbitrary: d rs h rule: tokenize.induct)
  case 1
  then show ?case by (simp add: tokenize.simps)
next
  case (2 c cs)
  show ?case
  proof (cases "c = 0")
    case False
    let ?h = "h\<lparr>counts := (counts h)[d := c]\<rparr>"
    have "decode_tokens (tokenize cs) (d + 1, on_nonzero_count d c rs, ?h) =
      Ok (d + 1 + length cs, scan_counts (d + 1) cs (on_nonzero_count d c rs),
        ?h\<lparr>counts := take (d + 1) (counts ?h) @ cs @ drop (d + 1 + length cs) (counts ?h)\<rparr>)"
      by (rule 2(1)) (use False 2 in auto)
    moreover have "on_decoded_num (ucast c) (d, rs, h) = Ok (d + 1, on_nonzero_count d c rs, ?h)"
      by (rule on_decoded_count [OF _ assms]) (use False 2 in auto)
    moreover have "take (d + 1) ((counts h)[d := c]) = take d (counts h) @ [c]"
      using 2(4) by (simp add: take_Suc_conv_app_nth)
    ultimately show ?thesis using False by (simp add: tokenize.simps)
  next
    case True
    let ?z = "length (takeWhile (\<lambda>x. x = 0) cs)" and ?ds = "dropWhile (\<lambda>x. x = 0) cs"
    have "cs = replicate ?z 0 @ ?ds"
      by (metis (mono_tags, lifting) replicate_length_same set_takeWhileD takeWhile_dropWhile_id)
    then have c_cs: "c # cs = replicate (?z + 1) 0 @ ?ds" using True by simp
    from arg_cong [OF this, of length] have len: "length (c # cs) = ?z + 1 + length ?ds" by simp
    then have d_len: "d + (?z + 1) + length ?ds = d + length (c # cs)" by simp
    note run = on_decoded_run [OF 2(6) _ 2(5), where z = ?z]
    have "set ?ds \<subseteq> set cs" by (auto dest: set_dropWhileD)
    then have dec: "decode_tokens (tokenize ?ds) (d + (?z + 1), rs, h) =
      Ok (d + (?z + 1) + length ?ds, scan_counts (d + (?z + 1)) ?ds rs,
        h\<lparr>counts := take (d + (?z + 1)) (counts h) @ ?ds @ drop (d + (?z + 1) + length ?ds) (counts h)\<rparr>)"
      using True 2(3-6) len by (intro 2(2)) auto
    have "tokenize (c # cs) = (if ?z = 0 then 0 else - of_nat (?z + 1)) # tokenize ?ds"
      using True by (simp add: tokenize.simps Let_def)
    then have "decode_tokens (tokenize (c # cs)) (d, rs, h) = decode_tokens (tokenize ?ds) (d + (?z + 1), rs, h)"
      using run(1) 2(4) len by (simp only: decode_tokens.simps) simp
    also note dec
    also have "scan_counts (d + (?z + 1)) ?ds rs = scan_counts d (c # cs) rs"
      unfolding c_cs by (rule scan_counts_zeros [symmetric])
    also have "take (d + (?z + 1)) (counts h) @ ?ds @ drop (d + (?z + 1) + length ?ds) (counts h)
        = take d (counts h) @ (c # cs) @ drop (d + length (c # cs)) (counts h)"
      unfolding d_len using run(2) 2(4) len unfolding c_cs by simp
    finally show ?thesis unfolding d_len .
  qed
qed

section \<open>Reading a message\<close>

lemma new_with_bounds_fields:
  assumes "new_with_bounds lo hi sf = (Ok t :: (creation_error, 'c::len word histogram) res)"
  shows "lowest_discernible_value t = lo" and "highest_trackable_value t = hi"
    and "significant_value_digits t = sf" and "max_value t = 0" and "min_non_zero_value t = - 1"
    and "auto_resize t = False" and "counts t = replicate (length (counts t)) 0"
  using assms by (auto simp: new_with_bounds_eq fresh_def Let_def split: if_splits)

lemma new_with_bounds_config:
  fixes h :: "'c::len word histogram"
  assumes "sized_ok h"
  obtains t where "new_with_bounds (lowest_discernible_value h) (highest_trackable_value h)
      (significant_value_digits h) = (Ok t :: (creation_error, 'c word histogram) res)"
    and "sized_ok t" and "length (counts t) = length (counts h)"
proof -
  obtain t where t: "new_with_bounds (lowest_discernible_value h) (highest_trackable_value h)
      (significant_value_digits h) = (Ok t :: (creation_error, 'c word histogram) res)"
    using new_from_eq [OF assms] by (auto simp: new_from_def bind_res_eq_Ok)
  note w = wfD(1) [OF new_with_bounds_wf [OF t]]
  show thesis
    by (rule that [OF t w sized_ok_same_layout(4) [OF w assms]]) (simp_all add: new_with_bounds_fields [OF t])
qed

definition message_body :: "'c::len word histogram \<Rightarrow> u8 list" where
  "message_body h =
     be_u32 (of_nat (length (payload h))) @ be_u32 0 @ be_u32 (ucast (significant_value_digits h))
     @ be_u64 (lowest_discernible_value h) @ be_u64 (highest_trackable_value h) @ be_u64 F64_ONE
     @ payload h"

lemma message_body: "message h = be_u32 V2_COOKIE @ message_body h"
  by (simp add: message_def message_body_def)

lemma rest_zero:
  assumes "wf h"
  shows "counts h = written_counts h @ replicate (length (counts h) - length (written_counts h)) 0"
proof (rule nth_equalityI)
  have m: "h_index h (unat (max_value h)) < length (counts h)" by (rule max_index_less [OF assms])
  show "length (counts h) = length (written_counts h @ replicate (length (counts h) - length (written_counts h)) 0)"
    using m by (simp add: written_counts_def)
  fix i assume i: "i < length (counts h)"
  show "counts h ! i = (written_counts h @ replicate (length (counts h) - length (written_counts h)) 0) ! i"
  proof (cases "i \<le> h_index h (unat (max_value h))")
    case True
    then show ?thesis using i m by (simp add: written_counts_def nth_append)
  next
    case False
    then have "counts h ! i = 0" using wfD(6) [OF assms] i unfolding extremes_ok_def by blast
    then show ?thesis using False i m by (simp add: written_counts_def nth_append)
  qed
qed

lemma to_u8_ucast: "to_u8 (ucast (d :: u8)) = Some d"
proof -
  have "unat (ucast d :: u32) < 256"
    using unsigned_less [of d, where ?'a = nat] by (simp add: unsigned_ucast_eq unsigned_take_bit_eq take_bit_nat_eq_self)
  moreover have "ucast (ucast d :: u32) = d" by (rule bit_word_eqI) (auto simp: bit_simps)
  ultimately show ?thesis by (simp add: to_u8_def word_less_nat_alt)
qed

lemma read_exact_append: "length bs = n \<Longrightarrow> read_exact n (bs @ rest, e) = Ok (bs, (rest, e))"
  by (simp add: read_exact_def)

text \<open>The loops on the payload of a histogram, from the empty one of its configuration on.\<close>

lemma decode_payload:
  fixes h t :: "'c::len word histogram"
  assumes "wf h" and "LENGTH('c) \<le> 64" and "\<forall>c \<in> set (written_counts h). unat c < 2 ^ 63"
    and "new_with_bounds (lowest_discernible_value h) (highest_trackable_value h)
      (significant_value_digits h) = (Ok t :: (creation_error, 'c word histogram) res)"
    and "sized_ok t" and "length (counts t) = length (counts h)"
  obtains j st d rs g h' where "fast_loop (payload h) 0 (0, restat_new, t) = Ok (j, st)"
    and "slow_loop (drop j (payload h)) st = Ok (d, rs, g)"
    and "update_histogram rs g = (Ok h' :: (deserialize_error, 'c word histogram) res)"
    and "restated (h\<lparr>auto_resize := False\<rparr>) h'"
proof -
  note w = wfD [OF assms(1)] and f = new_with_bounds_fields [OF assms(4)]
  let ?n = "length (counts h)" and ?cs = "written_counts h" and ?t = "t\<lparr>counts := counts h\<rparr>"
  have cs: "length ?cs \<le> ?n" by (simp add: written_counts_def)
  have n: "?n < 2 ^ 62" using length_counts_bound [OF w(3)] by simp
  have zero: "\<forall>i. 0 \<le> i \<longrightarrow> i < length (counts t) \<longrightarrow> counts t ! i = 0"
    using f(7) by (metis nth_replicate)
  have "take 0 (counts t) @ ?cs @ drop (0 + length ?cs) (counts t) = ?cs @ replicate (?n - length ?cs) 0"
    by (subst f(7)) (simp add: assms(6))
  also have "\<dots> = counts h" by (rule rest_zero [OF assms(1), symmetric])
  finally have "decode_tokens (tokenize ?cs) (0, restat_new, t) = Ok (0 + length ?cs, scan_counts 0 ?cs restat_new, ?t)"
    using decode_tokenize [OF assms(2,3), of 0 t restat_new] cs n assms(6) zero by simp
  from decode_loops [OF this] obtain j st where loops:
    "fast_loop (payload h) 0 (0, restat_new, t) = Ok (j, st)"
    "slow_loop (drop j (payload h)) st = Ok (0 + length ?cs, scan_counts 0 ?cs restat_new, ?t)"
    unfolding payload_def by blast
  have "scan_counts 0 (counts h) restat_new = scan_counts 0 ?cs restat_new"
    using scan_counts_zeros [of "length ?cs" "?n - length ?cs" "[]"]
    by (subst rest_zero [OF assms(1)]) (simp add: scan_counts_append)
  moreover have "sized_ok ?t" using assms(5,6) by simp
  moreover have "min_non_zero_value ?t = - 1" using f(5) by simp
  moreover have "h_index ?t (unat (max_value ?t)) = 0"
    using f(4) h_index_unit_0 [of ?t 0] sized_okD(1) [OF \<open>sized_ok ?t\<close>] by simp
  ultimately obtain h' where upd: "update_histogram (scan_counts 0 ?cs restat_new) ?t
      = (Ok h' :: (deserialize_error, 'c word histogram) res)" and re: "restated ?t h'"
    using update_histogram_restated [OF _ assms(2), of ?t] by auto
  have "restated (h\<lparr>auto_resize := False\<rparr>) h'"
    using re f by (simp add: restated_def)
  with loops upd show thesis by (rule that)
qed

lemma deser_v2_body:
  fixes h :: "'c::len word histogram"
  assumes "wf h" and "LENGTH('c) \<le> 64" and "\<forall>c \<in> set (written_counts h). unat c < 2 ^ 63"
  obtains ds' h' where "deser_v2 ds (message_body h @ rest, e) = Ok (ds', h', (rest, e))"
    and "restated (h\<lparr>auto_resize := False\<rparr>) h'"
proof -
  note w = wfD [OF assms(1)]
  obtain t where t: "new_with_bounds (lowest_discernible_value h) (highest_trackable_value h)
      (significant_value_digits h) = (Ok t :: (creation_error, 'c word histogram) res)"
    "sized_ok t" "length (counts t) = length (counts h)"
    by (rule new_with_bounds_config [OF w(1)])
  obtain j st d rs g h' where body: "fast_loop (payload h) 0 (0, restat_new, t) = Ok (j, st)"
    "slow_loop (drop j (payload h)) st = Ok (d, rs, g)"
    "update_histogram rs g = (Ok h' :: (deserialize_error, 'c word histogram) res)"
    and re: "restated (h\<lparr>auto_resize := False\<rparr>) h'"
    by (rule decode_payload [OF assms t])
  have lp: "length (payload h) < 2 ^ 32"
    using length_payload [of h] max_index_less [OF assms(1)] length_counts_bound [OF w(3)] by simp
  define lw where "lw = (of_nat (length (payload h)) :: u32)"
  have unat_lw: "unat lw = length (payload h)" unfolding lw_def by (rule unat_of_nat_less) (use lp in simp)
  have len: "to_usize (uint lw) = Some (length (payload h))"
  proof -
    have "uint lw = int (length (payload h))" unfolding unat_lw [symmetric] by simp
    then show ?thesis using lp by (simp add: to_usize_def usize_max_def)
  qed
  let ?buf = "if length (payload h) > length (payload_buf ds)
                then vec_resize (payload_buf ds) (length (payload h)) 0 else payload_buf ds"
  have "deser_v2 ds (message_body h @ rest, e) =
    Ok (ds\<lparr>payload_buf := payload h @ drop (length (payload h)) ?buf\<rparr>, h', (rest, e))"
    using body unfolding deser_v2_def read_header_def read_counts_def message_body_def lw_def [symmetric]
    by (simp add: len unat_lw to_u8_ucast t(1) read_exact_append Let_def)
  then show thesis using re by (rule that)
qed

section \<open>Any input\<close>

text \<open>What holds of the decoding loops whatever they read, from the empty histogram \<open>t\<close> on.\<close>

definition decoding_ok :: "'c::len word histogram \<Rightarrow> 'c word decode_state \<Rightarrow> bool" where
  "decoding_ok t st =
     (case st of (d, rs, h) \<Rightarrow>
        h = t\<lparr>counts := counts h\<rparr> \<and> length (counts h) = length (counts t) \<and>
        (\<forall>i < length (counts h). d \<le> i \<longrightarrow> counts h ! i = 0) \<and>
        rs = scan_counts 0 (counts h) restat_new)"

lemma scan_counts_all_zero: "\<forall>i < length cs. cs ! i = 0 \<Longrightarrow> scan_counts k cs s = s"
proof (induction cs arbitrary: k)
  case (Cons c cs)
  have "c = 0" using Cons.prems by fastforce
  moreover have "\<forall>i < length cs. cs ! i = 0"
  proof (intro allI impI)
    fix i assume "i < length cs"
    then show "cs ! i = 0" using Cons.prems [rule_format, of "Suc i"] by simp
  qed
  ultimately show ?case using Cons.IH by simp
qed simp

lemma scan_counts_update:
  assumes "d < length cs" and "\<forall>i < length cs. d \<le> i \<longrightarrow> cs ! i = 0" and "c \<noteq> 0"
  shows "scan_counts 0 (cs[d := c]) s = on_nonzero_count d c (scan_counts 0 cs s)"
proof -
  have z: "\<forall>i < length (drop d cs). drop d cs ! i = 0" "\<forall>i < length (drop (Suc d) cs). drop (Suc d) cs ! i = 0"
    using assms(2) by simp_all
  have "scan_counts 0 (cs[d := c]) s = scan_counts 0 (take d cs @ c # drop (Suc d) cs) s"
    using assms(1) by (simp add: upd_conv_take_nth_drop)
  also have "\<dots> = on_nonzero_count d c (scan_counts 0 (take d cs) s)"
    using assms(1,3) by (simp add: scan_counts_append scan_counts_all_zero [OF z(2)])
  also have "scan_counts 0 (take d cs) s = scan_counts 0 (take d cs @ drop d cs) s"
    by (simp only: scan_counts_append scan_counts_all_zero [OF z(1)])
  finally show ?thesis by simp
qed

lemma checked_add_usize_Some: "checked_add_usize a b = Some c \<Longrightarrow> c = a + b"
  by (simp add: checked_add_usize_def split: if_splits)

text \<open>A number that is read is refused, passes over zeros, or is stored as a count.\<close>

lemma on_decoded_num_cases:
  fixes h :: "'c::len word histogram"
  obtains (refused) e where "on_decoded_num x (d, rs, h) = Err e"
  | (zeros) i where "on_decoded_num x (d, rs, h) = Ok (i, rs, h)" and "d \<le> i"
  | (count) c where "d < length (counts h)" and "c \<noteq> 0"
      and "on_decoded_num x (d, rs, h) = Ok (Suc d, on_nonzero_count d c rs, h\<lparr>counts := (counts h)[d := c]\<rparr>)"
proof (cases "sint x < 0")
  case True
  then show thesis
    using refused zeros
    by (cases "to_usize (sint (- x))"; cases "checked_add_usize d (the (to_usize (sint (- x))))")
      (auto simp: on_decoded_num_def dest: checked_add_usize_Some)
next
  case False
  note step = False on_decoded_num_def [of x "(d, rs, h)", unfolded prod.case]
  show thesis
  proof (cases "count_from_i64 x :: 'c word option")
    case None
    then show thesis using False by (intro refused) (simp add: on_decoded_num_def)
  next
    case (Some c)
    note step = step Some and add = checked_add_usize_Some [of d 1]
    show thesis
    proof (cases "c = 0")
      case True
      then show thesis using refused zeros step add by (cases "checked_add_usize d 1") auto
    next
      case c: False
      show thesis
      proof (cases "d < length (counts h)")
        case True
        then show thesis
          using refused count [OF True c] step add c
          by (cases "checked_add_usize d 1") (auto simp: word_gt_0 set_count_at_index_def)
      next
        case False
        then show thesis using step c by (intro refused) (simp add: word_gt_0 set_count_at_index_def)
      qed
    qed
  qed
qed

lemma on_decoded_num_ok:
  fixes t :: "'c::len word histogram"
  assumes "decoding_ok t st"
  shows "case on_decoded_num x st of Ok st' \<Rightarrow> decoding_ok t st' | Err _ \<Rightarrow> True | Panic \<Rightarrow> False"
proof -
  obtain d rs h where st: "st = (d, rs, h)" by (cases st) auto
  note ok = assms [unfolded decoding_ok_def st prod.case]
  show ?thesis
    unfolding st
  proof (cases x d rs h rule: on_decoded_num_cases)
    case (count c)
    have "on_nonzero_count d c rs = scan_counts 0 ((counts h)[d := c]) restat_new"
      using scan_counts_update [OF count(1) _ count(2), of restat_new] ok by auto
    moreover have "h\<lparr>counts := (counts h)[d := c]\<rparr> = t\<lparr>counts := (counts h)[d := c]\<rparr>"
      using arg_cong [OF conjunct1 [OF ok], of "\<lambda>g. g\<lparr>counts := (counts h)[d := c]\<rparr>"] by simp
    ultimately show "case on_decoded_num x (d, rs, h) of Ok st' \<Rightarrow> decoding_ok t st' | Err _ \<Rightarrow> True | Panic \<Rightarrow> False"
      unfolding count(3) using ok by (simp add: decoding_ok_def)
  qed (use ok in \<open>simp_all add: decoding_ok_def\<close>)
qed

lemma fast_loop_ok:
  fixes t :: "'c::len word histogram"
  shows "decoding_ok t st \<Longrightarrow>
    case fast_loop bs i st of Ok (j, st') \<Rightarrow> decoding_ok t st' | Err _ \<Rightarrow> True | Panic \<Rightarrow> False"
proof (induction bs i st rule: fast_loop.induct)
  case (1 bs i st)
  show ?case
  proof (cases "i < length bs - 9")
    case False
    then show ?thesis using "1.prems" by (simp add: fast_loop.simps [of bs i])
  next
    case True
    then have "9 \<le> length (take 9 (drop i bs))" by simp
    then obtain v n where v: "varint_read_slice (take 9 (drop i bs)) = (Ok (v, n) :: (deserialize_error, _) res)"
      by (rule varint_read_slice_eq)
    show ?thesis
    proof (cases "on_decoded_num (zig_zag_decode v) st")
      case (Ok st')
      then have "decoding_ok t st'"
        using on_decoded_num_ok [OF "1.prems", of "zig_zag_decode v"] by simp
      from "1.IH" [OF True v refl Ok this] show ?thesis
        using True v Ok by (simp add: fast_loop.simps [of bs i])
    next
      case (Err e)
      then show ?thesis using True v by (simp add: fast_loop.simps [of bs i])
    next
      case Panic
      then show ?thesis using on_decoded_num_ok [OF "1.prems", of "zig_zag_decode v"] by simp
    qed
  qed
qed

lemma slow_loop_ok:
  fixes t :: "'c::len word histogram"
  shows "decoding_ok t st \<Longrightarrow>
    case slow_loop bs st of Ok st' \<Rightarrow> decoding_ok t st' | Err _ \<Rightarrow> True | Panic \<Rightarrow> False"
proof (induction bs st rule: slow_loop.induct)
  case (1 bs st)
  show ?case
  proof (cases "bs = []")
    case True
    then show ?thesis using "1.prems" by (simp add: slow_loop.simps)
  next
    case False
    show ?thesis
    proof (cases "unvarint bs")
      case None
      then show ?thesis using False by (simp add: slow_loop.simps [of bs] varint_read_eq)
    next
      case (Some vr)
      then obtain v rest where v: "varint_read (bs, UnexpectedEof) = Ok (v, (rest, UnexpectedEof))"
        by (cases vr) (simp add: varint_read_eq)
      show ?thesis
      proof (cases "on_decoded_num (zig_zag_decode v) st")
        case (Ok st')
        then have "decoding_ok t st'"
          using on_decoded_num_ok [OF "1.prems", of "zig_zag_decode v"] by simp
        from "1.IH" [OF False _ refl refl Ok this] v show ?thesis
          using False Ok by (simp add: slow_loop.simps [of bs])
      next
        case (Err e)
        then show ?thesis using False v by (simp add: slow_loop.simps [of bs])
      next
        case Panic
        then show ?thesis using on_decoded_num_ok [OF "1.prems", of "zig_zag_decode v"] by simp
      qed
    qed
  qed
qed

text \<open>Sequencing keeps a call safe.\<close>

definition safe :: "('a \<Rightarrow> bool) \<Rightarrow> ('e, 'a) res \<Rightarrow> bool" where
  "safe P r = (case r of Ok x \<Rightarrow> P x | Err _ \<Rightarrow> True | Panic \<Rightarrow> False)"

lemma safe_simps [simp]: "safe P (Ok x) = P x" "safe P (Err e)" "\<not> safe P Panic"
  by (simp_all add: safe_def)

lemma safe_bind:
  assumes "m \<noteq> Panic" and "\<And>x. m = Ok x \<Longrightarrow> safe P (f x)"
  shows "safe P (bind_res m f)"
  using assms by (cases m) simp_all

lemma not_Panic [simp]:
  "ok_or e x \<noteq> Panic" "map_err g m = Panic \<longleftrightarrow> m = Panic"
  "read_u32 r \<noteq> Panic" "read_u64 r \<noteq> Panic" "read_exact n r \<noteq> Panic"
  by (cases x; simp) (cases m; cases r; simp add: read_u32_def read_u64_def read_exact_def)+

lemma new_with_bounds_not_Panic: "new_with_bounds lo hi sf \<noteq> (Panic :: (creation_error, 'c::len word histogram) res)"
  by (simp add: new_with_bounds_eq)

lemma decoded_histogram:
  fixes t :: "'c::len word histogram"
  assumes "new_with_bounds lo hi sf = (Ok t :: (creation_error, 'c word histogram) res)"
    and "decoding_ok t (d, rs, h)" and "LENGTH('c) \<le> 64"
  shows "\<exists>h'. update_histogram rs h = (Ok h' :: ('e, 'c word histogram) res) \<and> wf h' \<and> exact h'"
proof -
  have ok: "h = t\<lparr>counts := counts h\<rparr>" "length (counts h) = length (counts t)" "rs = scan_counts 0 (counts h) restat_new"
    using assms(2) by (auto simp: decoding_ok_def)
  note f = new_with_bounds_fields [OF assms(1)]
  have t: "sized_ok t" by (rule wfD(1) [OF new_with_bounds_wf [OF assms(1)]])
  have s: "sized_ok h" by (subst ok(1)) (simp add: t ok(2))
  have "min_non_zero_value h = - 1" by (subst ok(1)) (simp add: f)
  moreover have "h_index h (unat (max_value h)) = 0"
  proof -
    have "max_value h = 0" by (subst ok(1)) (simp add: f)
    then show ?thesis using h_index_unit_0 [OF sized_okD(1) [OF s], of 0] by simp
  qed
  ultimately show ?thesis
    using update_histogram_restated [OF s assms(3)] ok(3) unfolding restated_def by metis
qed

lemma decoding_ok_start: "new_with_bounds lo hi sf = Ok t \<Longrightarrow> decoding_ok t (0, restat_new, t)"
  using new_with_bounds_fields(7) [of lo hi sf t] scan_counts_all_zero [of "counts t" 0 restat_new]
  by (simp add: decoding_ok_def) (metis nth_replicate)

lemma decode_safe:
  fixes t :: "'c::len word histogram"
  assumes "new_with_bounds lo hi sf = (Ok t :: (creation_error, 'c word histogram) res)" and "LENGTH('c) \<le> 64"
  shows "safe (\<lambda>(ds, h, r). wf h \<and> exact h)
    (bind_res (fast_loop bs 0 (0, restat_new, t)) (\<lambda>(payload_index, st).
     bind_res (slow_loop (drop payload_index bs) st) (\<lambda>(i, rs, h').
     bind_res (update_histogram rs h') (\<lambda>h''. Ok (ds', h'', r')))))"
proof (rule safe_bind)
  note f = fast_loop_ok [OF decoding_ok_start [OF assms(1)], of bs 0]
  from f show "fast_loop bs 0 (0, restat_new, t) \<noteq> Panic" by auto
  fix x assume x: "fast_loop bs 0 (0, restat_new, t) = Ok x"
  obtain j st where x': "x = (j, st)" by (cases x) auto
  with f x have st: "decoding_ok t st" by simp
  note s = slow_loop_ok [OF st, of "drop j bs"]
  show "safe (\<lambda>(ds, h, r). wf h \<and> exact h) (case x of (payload_index, st) \<Rightarrow>
     bind_res (slow_loop (drop payload_index bs) st) (\<lambda>(i, rs, h').
     bind_res (update_histogram rs h') (\<lambda>h''. Ok (ds', h'', r'))))"
    unfolding x' prod.case
  proof (rule safe_bind)
    from s show "slow_loop (drop j bs) st \<noteq> Panic" by auto
    fix y assume y: "slow_loop (drop j bs) st = Ok y"
    obtain i rs h where y': "y = (i, rs, h)" by (cases y) auto
    with s y have "decoding_ok t (i, rs, h)" by simp
    from decoded_histogram [OF assms(1) this assms(2), where 'e = deserialize_error] obtain h' where
      "update_histogram rs h = (Ok h' :: (deserialize_error, 'c word histogram) res)" "wf h'" "exact h'" by blast
    then show "safe (\<lambda>(ds, h, r). wf h \<and> exact h) (case y of (i, rs, h') \<Rightarrow>
      bind_res (update_histogram rs h' :: (deserialize_error, 'c word histogram) res) (\<lambda>h''. Ok (ds', h'', r')))"
      by (simp add: y')
  qed
qed

lemma bind_res_eq_Panic: "bind_res m f = Panic \<longleftrightarrow> m = Panic \<or> (\<exists>x. m = Ok x \<and> f x = Panic)"
  by (cases m) auto

lemma read_header_not_Panic: "read_header r \<noteq> Panic"
  by (auto simp: read_header_def bind_res_eq_Panic split: prod.splits if_splits)

lemma read_counts_safe:
  fixes t :: "'c::len word histogram"
  assumes "new_with_bounds lo hi sf = (Ok t :: (creation_error, 'c word histogram) res)" and "LENGTH('c) \<le> 64"
  shows "safe (\<lambda>(ds, h, r). wf h \<and> exact h) (read_counts ds n t r)"
  unfolding read_counts_def Let_def
proof (rule safe_bind, simp)
  fix x assume "map_err DeIoError (read_exact n r) = Ok x"
  then obtain bs r7 where x: "x = (bs, r7)" by (cases x) auto
  show "safe (\<lambda>(ds, h, r). wf h \<and> exact h)
     (case x of (bs, r7) \<Rightarrow>
       bind_res (fast_loop (take n (bs @ drop n (if n > length (payload_buf ds)
          then vec_resize (payload_buf ds) n 0 else payload_buf ds))) 0 (0, restat_new, t)) (\<lambda>(payload_index, st).
       bind_res (slow_loop (drop payload_index (take n (bs @ drop n (if n > length (payload_buf ds)
          then vec_resize (payload_buf ds) n 0 else payload_buf ds)))) st) (\<lambda>(i, rs, h').
       bind_res (update_histogram rs h') (\<lambda>h''.
         Ok (ds\<lparr>payload_buf := bs @ drop n (if n > length (payload_buf ds)
          then vec_resize (payload_buf ds) n 0 else payload_buf ds)\<rparr>, h'', r7)))))"
    unfolding x prod.case by (rule decode_safe [OF assms])
qed

lemma deser_v2_safe:
  assumes "LENGTH('c::len) \<le> 64"
  shows "safe (\<lambda>(ds, h, r). wf h \<and> exact h)
    (deser_v2 ds r :: (deserialize_error, deserializer \<times> 'c word histogram \<times> reader) res)"
  unfolding deser_v2_def
proof (rule safe_bind [OF read_header_not_Panic])
  fix x assume "read_header r = Ok x"
  obtain n sf lo hi r6 where x: "x = (n, sf, lo, hi, r6)" by (cases x)
  show "safe (\<lambda>(ds, h, r). wf h \<and> exact h) (case x of (payload_len, num_digits, lo, hi, r6) \<Rightarrow>
     bind_res (map_err (\<lambda>_. InvalidParameters)
       (new_with_bounds lo hi num_digits :: (creation_error, 'c word histogram) res)) (\<lambda>h.
       read_counts ds payload_len h r6))"
    unfolding x prod.case
    by (rule safe_bind) (auto simp: new_with_bounds_not_Panic intro: read_counts_safe [OF _ assms])
qed

lemma deserialize_safe:
  assumes "LENGTH('c::len) \<le> 64"
  shows "safe (\<lambda>(ds, h). wf h \<and> exact h)
    (deserialize zlib ds r :: (deserialize_error, deserializer \<times> 'c word histogram) res)"
proof -
  have v2: "safe (\<lambda>(ds, h). wf h \<and> exact h) (bind_res (deser_v2 ds r) (\<lambda>(ds', h, _). Ok (ds', h))
    :: (deserialize_error, deserializer \<times> 'c word histogram) res)" for r
    using deser_v2_safe [OF assms, of ds r] by (cases "deser_v2 ds r :: (deserialize_error, deserializer \<times> 'c word histogram \<times> reader) res") auto
  have "safe (\<lambda>(ds, h). wf h \<and> exact h)
    (deser_v2_compressed zlib ds r :: (deserialize_error, deserializer \<times> 'c word histogram) res)" for r
    unfolding deser_v2_compressed_def by (intro safe_bind) (auto intro!: v2 safe_bind)
  then show ?thesis
    unfolding deserialize_def by (intro safe_bind) (auto intro!: v2)
qed

section \<open>Writing to a vector, and reading back\<close>

definition vec_write :: "u8 list \<Rightarrow> u8 list \<Rightarrow> (io_error, u8 list) res" where
  "vec_write w bs = Ok (w @ bs)"

lemma v2_serialize_vec:
  fixes h :: "'c::len word histogram"
  assumes "wf h"
  shows "if \<exists>c \<in> set (written_counts h). 2 ^ 63 \<le> unat c
    then v2_serialize vec_write spare ser h w = Err CountNotSerializable
    else \<exists>ser'. v2_serialize vec_write spare ser h w = Ok (ser', w @ message h, length (message h))"
  using v2_serialize_eq [OF assms, of vec_write spare ser w]
  by (cases "\<exists>c \<in> set (written_counts h). 2 ^ 63 \<le> unat c") (simp_all add: vec_write_def)

lemma deserialize_message:
  fixes h :: "'c::len word histogram"
  assumes "wf h" and "LENGTH('c) \<le> 64" and "\<forall>c \<in> set (written_counts h). unat c < 2 ^ 63"
  obtains ds' h' where "deserialize zlib ds (message h @ rest, e) = Ok (ds', h')"
    and "restated (h\<lparr>auto_resize := False\<rparr>) h'"
proof -
  obtain ds' h' where "deser_v2 ds (message_body h @ rest, e) = Ok (ds', h', (rest, e))"
    "restated (h\<lparr>auto_resize := False\<rparr>) h'" by (rule deser_v2_body [OF assms])
  then show thesis by (intro that [of ds' h']) (simp_all add: deserialize_def message_body)
qed

lemma set_written_counts: "set (written_counts h) \<subseteq> set (counts h)"
  by (auto simp: written_counts_def dest: in_set_takeD)

section \<open>Properties\<close>

text \<open>
  C2. The V2 format round-trips. Serializing a well-formed histogram into a vector never panics
  and never reads outside the counts; it fails only for a count above \<open>i64::MAX\<close>. Otherwise it
  reports the length of what it wrote, whatever the uninitialized memory holds, and
  deserializing it, with anything behind it and with any deserializer, gives a well-formed
  histogram of the same configuration and the same counts, with total and extremes recomputed
  (only the resizing flag is lost).
\<close>

theorem v2_roundtrip:
  fixes h :: "'c::len word histogram"
  assumes "wf h" and "LENGTH('c) \<le> 64"
  shows "case v2_serialize vec_write spare ser h [] of
      Ok (ser', bs, n) \<Rightarrow> n = length bs \<and> (\<exists>ds' h'. deserialize zlib ds (bs @ rest, e) = Ok (ds', h') \<and>
        restated (h\<lparr>auto_resize := False\<rparr>) h')
    | Err er \<Rightarrow> er = CountNotSerializable \<and> (\<exists>c \<in> set (counts h). 2 ^ 63 \<le> unat c)
    | Panic \<Rightarrow> False"
proof (cases "\<exists>c \<in> set (written_counts h). 2 ^ 63 \<le> unat c")
  case True
  then have "v2_serialize vec_write spare ser h [] = Err CountNotSerializable"
    using v2_serialize_vec [OF assms(1), of spare ser "[]"] by simp
  then show ?thesis using True set_written_counts [of h] by auto
next
  case False
  then obtain ser' where "v2_serialize vec_write spare ser h [] = Ok (ser', message h, length (message h))"
    using v2_serialize_vec [OF assms(1), of spare ser "[]"] by auto
  moreover from False have "\<forall>c \<in> set (written_counts h). unat c < 2 ^ 63" by auto
  from deserialize_message [OF assms this] obtain ds' h' where
    "deserialize zlib ds (message h @ rest, e) = Ok (ds', h')" "restated (h\<lparr>auto_resize := False\<rparr>) h'" .
  ultimately show ?thesis by auto
qed

theorem v2_roundtrip_witness:
  "case v2_serialize vec_write (\<lambda>_. 0) \<lparr>ser_buf = []\<rparr> sample [] of
      Ok (ser', bs, n) \<Rightarrow> n = length bs \<and> (\<exists>ds' h'.
        deserialize id \<lparr>payload_buf = []\<rparr> (bs @ [], UnexpectedEof) = Ok (ds', h') \<and>
        restated (sample\<lparr>auto_resize := False\<rparr>) h')
    | Err er \<Rightarrow> er = CountNotSerializable \<and> (\<exists>c \<in> set (counts sample). 2 ^ 63 \<le> unat c)
    | Panic \<Rightarrow> False"
  by (rule v2_roundtrip [OF wf_sample]) simp

text \<open>
  C8. Deserializing is safe on every input: whatever the reader yields, well-formed or not,
  compressed or not, with any decompressor and any state of the deserializer, \<open>deserialize\<close> never
  panics, and a histogram it accepts is well-formed with an exact total.
\<close>

theorem deserialize_any_input:
  fixes zlib :: "reader \<Rightarrow> reader"
  assumes "LENGTH('c::len) \<le> 64"
  shows "case deserialize zlib ds r :: (deserialize_error, deserializer \<times> 'c word histogram) res of
    Ok (ds', h) \<Rightarrow> wf h \<and> exact h | Err e \<Rightarrow> True | Panic \<Rightarrow> False"
  using deserialize_safe [OF assms, of zlib ds r] by (simp add: safe_def)

theorem deserialize_any_input_witness:
  "case deserialize id \<lparr>payload_buf = []\<rparr> ([1, 2, 3], UnexpectedEof)
      :: (deserialize_error, deserializer \<times> u64 histogram) res of
    Ok (ds', h) \<Rightarrow> wf h \<and> exact h | Err e \<Rightarrow> True | Panic \<Rightarrow> False"
  by (rule deserialize_any_input) simp

text \<open>
  The serializer on any writer: it writes exactly once, the same message whatever the writer
  and the spare memory are, and passes the writer's error on.
\<close>

theorem v2_serialize_message:
  fixes h :: "'c::len word histogram"
  assumes "wf h" and "\<forall>c \<in> set (counts h). unat c < 2 ^ 63"
  shows "\<exists>ser'. v2_serialize write_all spare ser h writer =
    (case write_all writer (message h) of
       Ok writer' \<Rightarrow> Ok (ser', writer', length (message h))
     | Err e \<Rightarrow> Err (SerIoError e) | Panic \<Rightarrow> Panic)"
proof -
  have "\<not> (\<exists>c \<in> set (written_counts h). 2 ^ 63 \<le> unat c)"
    using assms(2) set_written_counts [of h] by fastforce
  then show ?thesis
    using v2_serialize_eq [OF assms(1), of write_all spare ser writer]
    by (cases "write_all writer (message h)") auto
qed

theorem v2_serialize_message_witness:
  "\<exists>ser'. v2_serialize (\<lambda>w bs. Err (OtherIoError ''full'') :: (io_error, unit) res) (\<lambda>_. 0) \<lparr>ser_buf = []\<rparr> sample () =
    (case Err (OtherIoError ''full'') :: (io_error, unit) res of
       Ok writer' \<Rightarrow> Ok (ser', writer', length (message sample))
     | Err e \<Rightarrow> Err (SerIoError e) | Panic \<Rightarrow> Panic)"
  by (rule v2_serialize_message [OF wf_sample]) (simp add: sample_eq)

end
