(* ===== verification/Deflate.thy ===== *)
theory Deflate
  imports Queries Decoding
begin

unbundle bit_operations_syntax

text \<open>
  The compressed form of the V2 format (\<open>serialization/v2_deflate_serializer.rs\<close>): the V2 message
  through zlib, behind a cookie and a length. The compressor (flate2) is an argument of the
  definitions: what \<open>write_all\<close> and \<open>finish\<close> on a \<open>ZlibEncoder\<close> append to the buffer. That the
  decoder undoes it is a hypothesis of the round trip. A locale states what the users of a
  serializer rely on, and the V2 serializer provides it.
\<close>

section \<open>Operations\<close>

datatype v2_deflate_serialize_error =
    InternalSerializationError v2_serialize_error
  | DeflateIoError io_error

record v2_deflate_serializer =
  uncompressed_buf :: "u8 list"
  compressed_buf :: "u8 list"
  inner_serializer :: v2_serializer \<comment> \<open>\<open>v2_serializer\<close>\<close>

definition v2_deflate_serialize ::
  "(u8 list \<Rightarrow> (io_error, u8 list) res) \<Rightarrow> ('w \<Rightarrow> u8 list \<Rightarrow> (io_error, 'w) res) \<Rightarrow> (nat \<Rightarrow> u8)
    \<Rightarrow> v2_deflate_serializer \<Rightarrow> 'c::len word histogram \<Rightarrow> 'w
    \<Rightarrow> (v2_deflate_serialize_error, v2_deflate_serializer \<times> 'w \<times> nat) res" where
  "v2_deflate_serialize zlib_encode write_all spare ser h writer =
     bind_res (map_err InternalSerializationError (v2_serialize vec_write spare (inner_serializer ser) h []))
       (\<lambda>(inner, uncompressed, uncompressed_len).
     let header = be_u32 V2_COMPRESSED_COOKIE @ be_u32 0 in
     bind_res (assert_that (uncompressed_len \<le> length uncompressed)) (\<lambda>_.
     bind_res (map_err DeflateIoError (zlib_encode (take uncompressed_len uncompressed))) (\<lambda>compressed.
     let buf = header @ compressed;
         total_compressed_len = length buf;
         buf1 = take 4 buf @ be_u32 (of_nat total_compressed_len - 8) @ drop 8 buf
     in bind_res (map_err DeflateIoError (write_all writer buf1)) (\<lambda>writer'.
          Ok (\<lparr>uncompressed_buf = uncompressed, compressed_buf = buf1, inner_serializer = inner\<rparr>,
              writer', total_compressed_len)))))"

section \<open>The compressed message\<close>

definition compressed_message :: "u8 list \<Rightarrow> u8 list" where
  "compressed_message z = be_u32 V2_COMPRESSED_COOKIE @ be_u32 (of_nat (length z)) @ z"

lemma v2_deflate_serialize_eq:
  fixes h :: "'c::len word histogram"
  assumes "wf h"
  shows "if \<exists>c \<in> set (written_counts h). 2 ^ 63 \<le> unat c
    then v2_deflate_serialize zlib_encode write_all spare ser h writer
      = Err (InternalSerializationError CountNotSerializable)
    else \<exists>ser'. v2_deflate_serialize zlib_encode write_all spare ser h writer =
      bind_res (map_err DeflateIoError (zlib_encode (message h))) (\<lambda>z.
      bind_res (map_err DeflateIoError (write_all writer (compressed_message z))) (\<lambda>writer'.
        Ok (ser' z, writer', length (compressed_message z))))"
proof (cases "\<exists>c \<in> set (written_counts h). 2 ^ 63 \<le> unat c")
  case True
  then have "v2_serialize vec_write spare (inner_serializer ser) h [] = Err CountNotSerializable"
    using v2_serialize_vec [OF assms, of spare "inner_serializer ser" "[]"] by simp
  then show ?thesis using True by (simp add: v2_deflate_serialize_def)
next
  case False
  then obtain inner where s: "v2_serialize vec_write spare (inner_serializer ser) h [] = Ok (inner, message h, length (message h))"
    using v2_serialize_vec [OF assms, of spare "inner_serializer ser" "[]"] by auto
  define ser' where "ser' z = \<lparr>uncompressed_buf = message h, compressed_buf = compressed_message z,
    inner_serializer = inner\<rparr>" for z
  have buf: "take 4 (be_u32 V2_COMPRESSED_COOKIE @ be_u32 0 @ z)
      @ be_u32 (of_nat (length (be_u32 V2_COMPRESSED_COOKIE @ be_u32 0 @ z)) - 8)
      @ drop 8 (be_u32 V2_COMPRESSED_COOKIE @ be_u32 0 @ z) = compressed_message z" for z
    by (simp add: compressed_message_def)
  have "v2_deflate_serialize zlib_encode write_all spare ser h writer =
      bind_res (map_err DeflateIoError (zlib_encode (message h))) (\<lambda>z.
      bind_res (map_err DeflateIoError (write_all writer (compressed_message z))) (\<lambda>writer'.
        Ok (ser' z, writer', length (compressed_message z))))"
    unfolding v2_deflate_serialize_def s Let_def map_err.simps bind_res.simps prod.case append_assoc buf ser'_def
    by (simp add: compressed_message_def)
  then show ?thesis using False by auto
qed

text \<open>What the round trip relies on of zlib: a reader of exactly the compressed bytes decodes to the input.\<close>

definition zlib_inverse :: "(u8 list \<Rightarrow> (io_error, u8 list) res) \<Rightarrow> (reader \<Rightarrow> reader) \<Rightarrow> bool" where
  "zlib_inverse zlib_encode zlib_decoder \<longleftrightarrow>
     (\<forall>bs z. zlib_encode bs = Ok z \<longrightarrow> zlib_decoder (z, UnexpectedEof) = (bs, UnexpectedEof))"

lemma deserialize_compressed_message:
  fixes h :: "'c::len word histogram"
  assumes "wf h" and "LENGTH('c) \<le> 64" and "\<forall>c \<in> set (written_counts h). unat c < 2 ^ 63"
    and "zlib_decoder (z, UnexpectedEof) = (message h, UnexpectedEof)" and "length z < 2 ^ 32"
  obtains ds' h' where "deserialize zlib_decoder ds (compressed_message z @ rest, e) = Ok (ds', h')"
    and "restated (h\<lparr>auto_resize := False\<rparr>) h'"
proof -
  obtain ds' h' where d: "deser_v2 ds (message_body h @ [], UnexpectedEof) = Ok (ds', h', ([], UnexpectedEof))"
    and r: "restated (h\<lparr>auto_resize := False\<rparr>) h'"
    by (rule deser_v2_body [OF assms(1-3), of ds "[]" UnexpectedEof])
  define lz where "lz = (of_nat (length z) :: u32)"
  have unat_lz: "unat lz = length z" unfolding lz_def by (rule unat_of_nat_less) (use assms(5) in simp)
  have "uint lz = int (length z)" unfolding unat_lz [symmetric] by simp
  then have len: "to_usize (uint lz) = Some (length z)"
    using assms(5) by (simp add: to_usize_def usize_max_def)
  have "V2_COMPRESSED_COOKIE \<noteq> V2_COOKIE"
    by (simp add: V2_COMPRESSED_COOKIE_def V2_COOKIE_def V2_COMPRESSED_COOKIE_BASE_def V2_COOKIE_BASE_def)
  then have "deserialize zlib_decoder ds (compressed_message z @ rest, e) = Ok (ds', h')"
    unfolding deserialize_def compressed_message_def lz_def [symmetric] deser_v2_compressed_def
    using d assms(4)
    by (simp add: len unat_lz take_reader_def message_body)
  with r show thesis using that by blast
qed

section \<open>What a restored histogram keeps\<close>

lemma restated_record:
  assumes "sized_ok h" and "restated h h'"
  shows "h' = h\<lparr>max_value := max_value h', min_non_zero_value := min_non_zero_value h', total_count := total_count h'\<rparr>"
proof -
  have h': "sized_ok h'" "counts h' = counts h" "highest_trackable_value h' = highest_trackable_value h"
    "auto_resize h' = auto_resize h" "lowest_discernible_value h' = lowest_discernible_value h"
    "significant_value_digits h' = significant_value_digits h"
    using assms(2) wfD(1) by (auto simp: restated_def)
  note l = sized_ok_same_layout [OF h'(1) assms(1) h'(5,3,6)]
  have "um h' = um h" using l(3) by simp
  moreover have hm: "hm h' = hm h"
    using layout_okD(3) [OF sized_okD(1) [OF h'(1)]] layout_okD(3) [OF sized_okD(1) [OF assms(1)]] l(2) by simp
  ultimately show ?thesis
    using h' l hm layout_okD [OF sized_okD(1) [OF h'(1)]] layout_okD [OF sized_okD(1) [OF assms(1)]]
    by (intro histogram.equality) (simp_all add: word_unat_eq_iff)
qed

text \<open>The queries look at the counts, the total and the layout, not at the extremes.\<close>

lemma queries_without_extremes:
  fixes h :: "'c::len word histogram" and ar mx mn
  defines "g \<equiv> h\<lparr>auto_resize := ar, max_value := mx, min_non_zero_value := mn\<rparr>"
  shows "value_at_quantile g q = (value_at_quantile h q :: ('f, u64) res)"
    and "quantile_below g v = (quantile_below h v :: ('f, f64) res)"
    and "count_at g v = (count_at h v :: ('f, 'c word) res)"
    and "count_between g a b = (count_between h a b :: ('f, u64) res)"
proof -
  have "lowest_equivalent g = lowest_equivalent h" "highest_equivalent g = highest_equivalent h"
    "(value_for g :: nat \<Rightarrow> ('f, u64) res) = value_for h" "counts g = counts h" "total_count g = total_count h"
    by (simp_all add: g_def)
  then show "value_at_quantile g q = (value_at_quantile h q :: ('f, u64) res)"
    unfolding value_at_quantile_def count_at_quantile_def by metis
  have sum: "sum_range g is t = (sum_range h is t :: ('f, u64) res)" for "is" t
    by (induction "is" arbitrary: t) (simp_all add: g_def count_at_index_def)
  have c: "count_at_index g = count_at_index h" by (simp add: g_def count_at_index_def fun_eq_iff)
  have ix: "index_for_or_last g x = (index_for_or_last h x :: ('f, nat) res)" for x
    by (simp add: g_def index_for_or_last_def last_index_def distinct_values_def)
  show "count_between g a b = (count_between h a b :: ('f, u64) res)"
    by (simp add: count_between_def ix sum)
  show "quantile_below g v = (quantile_below h v :: ('f, f64) res)"
    by (simp add: quantile_below_def ix sum) (simp add: g_def)
  show "count_at g v = (count_at h v :: ('f, 'c word) res)"
    by (simp add: count_at_def ix c)
qed

text \<open>
  The contract of the trait \<open>Serializer\<close> with its deserializer, as its users see it: bytes out,
  bytes in.
\<close>

locale serializer_contract =
  fixes to_bytes :: "'c::len word histogram \<Rightarrow> ('e, u8 list) res"
    and from_bytes :: "u8 list \<Rightarrow> ('d, 'c word histogram) res"
  assumes to_bytes_not_Panic: "wf h \<Longrightarrow> to_bytes h \<noteq> Panic"
    and from_bytes_restores: "LENGTH('c) \<le> 64 \<Longrightarrow> wf h \<Longrightarrow> to_bytes h = Ok bs \<Longrightarrow>
      \<exists>h'. from_bytes bs = Ok h' \<and> restated (h\<lparr>auto_resize := False\<rparr>) h'"
begin

lemma counts_restored:
  assumes "LENGTH('c) \<le> 64" and "wf h" and "to_bytes h = Ok bs"
  obtains h' where "from_bytes bs = Ok h'" and "wf h'" and "exact h'" and "counts h' = counts h"
  using from_bytes_restores [OF assms] by (auto simp: restated_def)

text \<open>Queries on the restored histogram give what they give on the original.\<close>

lemma queries_restored:
  assumes "wf h" and "exact h" and "LENGTH('c) \<le> 64" and "to_bytes h = Ok bs"
  obtains h' where "from_bytes bs = Ok h'" and "len h' = len h"
    and "\<And>q. value_at_quantile h' q = (value_at_quantile h q :: ('f, u64) res)"
    and "\<And>v. quantile_below h' v = (quantile_below h v :: ('f, f64) res)"
    and "\<And>v. count_at h' v = (count_at h v :: ('f, 'c word) res)"
    and "\<And>a b. count_between h' a b = (count_between h a b :: ('f, u64) res)"
proof -
  obtain h' where h': "from_bytes bs = Ok h'" "restated (h\<lparr>auto_resize := False\<rparr>) h'"
    using from_bytes_restores [OF assms(3,1,4)] by blast
  have s: "sized_ok (h\<lparr>auto_resize := False\<rparr>)" using wfD(1) [OF assms(1)] by simp
  note r = restated_record [OF s h'(2)]
  have tot: "total_count h' = total_count h"
    using h'(2) assms(2) by (simp add: restated_def exact_def word_unat_eq_iff)
  have e: "h\<lparr>auto_resize := False, max_value := x, min_non_zero_value := y, total_count := total_count h\<rparr>
      = h\<lparr>auto_resize := False, max_value := x, min_non_zero_value := y\<rparr>" for x y
    by (intro histogram.equality) simp_all
  have h'_eq: "h' = h\<lparr>auto_resize := False, max_value := max_value h', min_non_zero_value := min_non_zero_value h'\<rparr>"
    using r unfolding tot e .
  note q = queries_without_extremes [where h = h and ar = False and mx = "max_value h'" and mn = "min_non_zero_value h'", folded h'_eq]
  show thesis by (rule that [OF h'(1) _ q]) (simp add: len_def tot)
qed

end

text \<open>The V2 serializer provides it, through vectors of bytes, for counters of any width.\<close>

definition v2_bytes :: "'c::len word histogram \<Rightarrow> (v2_serialize_error, u8 list) res" where
  "v2_bytes h = bind_res (v2_serialize vec_write (\<lambda>_. 0) \<lparr>ser_buf = []\<rparr> h []) (\<lambda>(_, bs, _). Ok bs)"

definition from_v2_bytes :: "u8 list \<Rightarrow> (deserialize_error, 'c::len word histogram) res" where
  "from_v2_bytes bs = bind_res (deserialize id \<lparr>payload_buf = []\<rparr> (bs, UnexpectedEof)) (\<lambda>(_, h). Ok h)"

interpretation v2: serializer_contract v2_bytes from_v2_bytes
proof
  fix h :: "'c::len word histogram" and bs
  assume w: "wf h"
  note s = v2_serialize_vec [OF w, of "\<lambda>_. 0" "\<lparr>ser_buf = []\<rparr>" "[]"]
  show "v2_bytes h \<noteq> Panic"
    using s by (auto simp: v2_bytes_def split: if_splits)
  assume l: "LENGTH('c) \<le> 64" and "v2_bytes h = Ok bs"
  then have bs: "bs = message h" "\<forall>c \<in> set (written_counts h). unat c < 2 ^ 63"
    using s by (auto simp: v2_bytes_def not_le split: if_splits)
  obtain ds' h' where
    "deserialize id \<lparr>payload_buf = []\<rparr> (message h @ [], UnexpectedEof) = Ok (ds', h')"
    "restated (h\<lparr>auto_resize := False\<rparr>) h'" by (rule deserialize_message [OF w l bs(2)])
  then show "\<exists>h'. from_v2_bytes bs = Ok h' \<and> restated (h\<lparr>auto_resize := False\<rparr>) h'"
    using bs(1) by (simp add: from_v2_bytes_def)
qed

section \<open>Properties\<close>

text \<open>
  C29. A well-formed histogram, of counters of at most 64 bits, whose total is the sum of its counts (which
  excludes narrow counters that have saturated) and that serializes to V2 reads back as one that answers
  \<open>len\<close>, \<open>value_at_quantile\<close>, \<open>quantile_below\<close>, \<open>count_at\<close> and \<open>count_between\<close> as the original does,
  for all arguments.
\<close>

theorem v2_restores_queries:
  fixes h :: "'c::len word histogram"
  assumes "wf h" and "exact h" and "LENGTH('c) \<le> 64" and "v2_bytes h = Ok bs"
  shows "\<exists>h'. from_v2_bytes bs = Ok h' \<and> len h' = len h \<and>
    (\<forall>q. value_at_quantile h' q = (value_at_quantile h q :: (unit, u64) res)) \<and>
    (\<forall>v. quantile_below h' v = (quantile_below h v :: (unit, f64) res)) \<and>
    (\<forall>v. count_at h' v = (count_at h v :: (unit, 'c word) res)) \<and>
    (\<forall>a b. count_between h' a b = (count_between h a b :: (unit, u64) res))"
  using v2.queries_restored [OF assms] by metis

lemma v2_bytes_Ok:
  assumes "wf h" and "\<forall>c \<in> set (counts h). unat c < 2 ^ 63"
  shows "v2_bytes h = Ok (message h)"
proof -
  have "\<not> (\<exists>c \<in> set (written_counts h). 2 ^ 63 \<le> unat c)"
    using assms(2) set_written_counts [of h] by fastforce
  then show ?thesis
    using v2_serialize_vec [OF assms(1), of "\<lambda>_. 0" "\<lparr>ser_buf = []\<rparr>" "[]"] by (auto simp: v2_bytes_def)
qed

theorem v2_restores_queries_witness:
  "\<exists>h'. from_v2_bytes (message sample) = Ok h' \<and> len h' = len sample \<and>
    (\<forall>q. value_at_quantile h' q = (value_at_quantile sample q :: (unit, u64) res)) \<and>
    (\<forall>v. quantile_below h' v = (quantile_below sample v :: (unit, f64) res)) \<and>
    (\<forall>v. count_at h' v = (count_at sample v :: (unit, u64) res)) \<and>
    (\<forall>a b. count_between h' a b = (count_between sample a b :: (unit, u64) res))"
  by (rule v2_restores_queries [OF wf_sample exact_sample])
    (simp, rule v2_bytes_Ok [OF wf_sample], simp add: sample_eq)

text \<open>
  C28. The compressed format round-trips, if the decompressor undoes the compressor and the
  compressed message is shorter than 4 GiB: serializing never panics, fails only for a count
  above \<open>i64::MAX\<close> or with an error of the compressor, and deserializing restores configuration
  and counts.
\<close>

theorem deflate_roundtrip:
  fixes h :: "'c::len word histogram"
  assumes "wf h" and "LENGTH('c) \<le> 64" and "zlib_inverse zlib_encode zlib_decoder"
    and "\<forall>bs. zlib_encode bs \<noteq> Panic" and "\<forall>z. zlib_encode (message h) = Ok z \<longrightarrow> length z < 2 ^ 32"
  shows "case v2_deflate_serialize zlib_encode vec_write spare ser h [] of
      Ok (ser', bs, n) \<Rightarrow> n = length bs \<and> (\<exists>ds' h'. deserialize zlib_decoder ds (bs @ rest, e) = Ok (ds', h') \<and>
        restated (h\<lparr>auto_resize := False\<rparr>) h')
    | Err (InternalSerializationError er) \<Rightarrow> er = CountNotSerializable \<and> (\<exists>c \<in> set (counts h). 2 ^ 63 \<le> unat c)
    | Err (DeflateIoError er) \<Rightarrow> zlib_encode (message h) = Err er
    | Panic \<Rightarrow> False"
proof (cases "\<exists>c \<in> set (written_counts h). 2 ^ 63 \<le> unat c")
  case True
  then show ?thesis using v2_deflate_serialize_eq [OF assms(1), of zlib_encode vec_write spare ser "[]"]
      set_written_counts [of h] by auto
next
  case False
  then obtain ser' where s: "v2_deflate_serialize zlib_encode vec_write spare ser h [] =
      bind_res (map_err DeflateIoError (zlib_encode (message h))) (\<lambda>z.
        Ok (ser' z, compressed_message z, length (compressed_message z)))"
    using v2_deflate_serialize_eq [OF assms(1), of zlib_encode vec_write spare ser "[]"]
    by (auto simp: vec_write_def)
  show ?thesis
  proof (cases "zlib_encode (message h)")
    case (Ok z)
    have "\<forall>c \<in> set (written_counts h). unat c < 2 ^ 63" using False by auto
    moreover have "zlib_decoder (z, UnexpectedEof) = (message h, UnexpectedEof)"
      using assms(3) Ok by (simp add: zlib_inverse_def)
    ultimately obtain ds' h' where "deserialize zlib_decoder ds (compressed_message z @ rest, e) = Ok (ds', h')"
      "restated (h\<lparr>auto_resize := False\<rparr>) h'"
      using deserialize_compressed_message [OF assms(1,2)] assms(5) Ok by metis
    then show ?thesis using s Ok by auto
  qed (use s assms(4) in \<open>simp_all add: s\<close>)
qed

theorem deflate_roundtrip_witness:
  "case v2_deflate_serialize Ok vec_write (\<lambda>_. 0) \<lparr>uncompressed_buf = [], compressed_buf = [],
        inner_serializer = \<lparr>ser_buf = []\<rparr>\<rparr> sample [] of
      Ok (ser', bs, n) \<Rightarrow> n = length bs \<and> (\<exists>ds' h'.
        deserialize id \<lparr>payload_buf = []\<rparr> (bs @ [], UnexpectedEof) = Ok (ds', h') \<and>
        restated (sample\<lparr>auto_resize := False\<rparr>) h')
    | Err (InternalSerializationError er) \<Rightarrow> er = CountNotSerializable \<and> (\<exists>c \<in> set (counts sample). 2 ^ 63 \<le> unat c)
    | Err (DeflateIoError er) \<Rightarrow> (Ok (message sample) :: (io_error, u8 list) res) = Err er
    | Panic \<Rightarrow> False"
proof (rule deflate_roundtrip [OF wf_sample])
  have "length (payload sample) \<le> 9 * (h_index sample (unat (max_value sample)) + 1)" by (rule length_payload)
  moreover have "h_index sample (unat (max_value sample)) < length (counts sample)" by (rule max_index_less [OF wf_sample])
  moreover have "length (counts sample) = 8" by (simp add: sample_eq)
  ultimately show "\<forall>z. (Ok (message sample) :: (io_error, u8 list) res) = Ok z \<longrightarrow> length z < 2 ^ 32"
    by (simp add: message_def)
qed (simp_all add: zlib_inverse_def)

end
