(* ===== verification/Interval_Log.thy ===== *)
theory Interval_Log
  imports Text Deflate
begin

text \<open>
  The interval log (\<open>serialization/interval_log/mod.rs\<close>): a text file of comments, headers and
  lines with a serialized histogram each. The parsers are written with the combinators of
  \<open>nom\<close>, which are arguments of the definitions here (the record \<open>nom\<close>), as are the formatting of
  doubles with three decimals and the encoding in base 64. What is relied on of them is stated
  below as \<open>nom_documented\<close> and \<open>fmt_documented\<close>.
\<close>

section \<open>Time\<close>

record duration =
  secs :: u64
  subsec_nanos :: u32

definition duration_new :: "u64 \<Rightarrow> u32 \<Rightarrow> ('e, duration) res" where
  "duration_new s n =
     (if n < 1000000000 then Ok \<lparr>secs = s, subsec_nanos = n\<rparr>
      else bind_res (expect (checked_add s (ucast (n div 1000000000)))) (\<lambda>s'.
             Ok \<lparr>secs = s', subsec_nanos = n mod 1000000000\<rparr>))"

definition duration_as_fp_seconds :: "duration \<Rightarrow> f64" where
  "duration_as_fp_seconds d =
     f64_add (u64_as_f64 (secs d)) (f64_div (Fin (of_nat (unat (subsec_nanos d)))) (Fin 1000000000))"

text \<open>A \<open>SystemTime\<close> is given as its \<open>duration_since(UNIX_EPOCH)\<close>: \<open>Err\<close> when it is before.\<close>

definition system_time_as_fp_seconds :: "(duration, duration) res \<Rightarrow> f64" where
  "system_time_as_fp_seconds time =
     (case time of
        Ok dur_after_epoch \<Rightarrow> duration_as_fp_seconds dur_after_epoch
      | Err t \<Rightarrow> f64_mul (duration_as_fp_seconds t) (Fin (- 1))
      | Panic \<Rightarrow> NaN)"

section \<open>Tags\<close>

type_synonym tag = "u8 list"

definition tag_new :: "u8 list \<Rightarrow> tag option" where
  "tag_new s = (if list_ex (\<lambda>c. c = 44 \<or> c = 13 \<or> c = 10 \<or> c = 32) s then None else Some s)"

section \<open>Writing\<close>

record log_builder =
  comments :: "u8 list list"
  builder_start_time :: "f64 option"
  builder_base_time :: "f64 option"
  builder_max_value_divisor :: f64

definition builder_new :: log_builder where
  "builder_new = \<lparr>comments = [], builder_start_time = None, builder_base_time = None,
     builder_max_value_divisor = Fin 1\<rparr>"

definition add_comment :: "log_builder \<Rightarrow> u8 list \<Rightarrow> log_builder" where
  "add_comment b s = b\<lparr>comments := comments b @ [s]\<rparr>"

definition with_start_time :: "log_builder \<Rightarrow> (duration, duration) res \<Rightarrow> log_builder" where
  "with_start_time b time = b\<lparr>builder_start_time := Some (system_time_as_fp_seconds time)\<rparr>"

definition with_base_time :: "log_builder \<Rightarrow> (duration, duration) res \<Rightarrow> log_builder" where
  "with_base_time b time = b\<lparr>builder_base_time := Some (system_time_as_fp_seconds time)\<rparr>"

definition with_max_value_divisor :: "log_builder \<Rightarrow> f64 \<Rightarrow> log_builder" where
  "with_max_value_divisor b d = b\<lparr>builder_max_value_divisor := d\<rparr>"

text \<open>
  The writer underneath is its state and \<open>write_all\<close>, which leaves a state when it fails too; the
  serializer is its state and \<open>serialize\<close>, which appends to a buffer. How the formatter splits a
  line among calls of the writer is left open: it is one call here.
\<close>

record ('w, 's) log_writer =
  out :: 'w
  serializer :: 's
  text_buf :: "u8 list"
  serialize_buf :: "u8 list"
  max_value_divisor :: f64

datatype 'e log_writer_error = SerializeError 'e | LogIoError io_error

type_synonym 'w write_all = "'w \<Rightarrow> u8 list \<Rightarrow> (io_error \<times> 'w, 'w) res"

type_synonym ('s, 'c, 'e) serialize =
  "'s \<Rightarrow> 'c histogram \<Rightarrow> u8 list \<Rightarrow> ('e \<times> 's \<times> u8 list, 's \<times> u8 list \<times> nat) res"

definition write_text ::
  "'w write_all \<Rightarrow> ('w, 's) log_writer \<Rightarrow> u8 list
    \<Rightarrow> (io_error \<times> ('w, 's) log_writer, ('w, 's) log_writer) res" where
  "write_text write_all lw t =
     bind_res (map_err (\<lambda>(e, w). (e, lw\<lparr>out := w\<rparr>)) (write_all (out lw) t)) (\<lambda>w. Ok (lw\<lparr>out := w\<rparr>))"

fun write_lines ::
  "'w write_all \<Rightarrow> ('w, 's) log_writer \<Rightarrow> u8 list list
    \<Rightarrow> (io_error \<times> ('w, 's) log_writer, ('w, 's) log_writer) res" where
  "write_lines write_all lw [] = Ok lw"
| "write_lines write_all lw (l # ls) =
     bind_res (write_text write_all lw (ascii ''#'' @ l @ [10])) (\<lambda>lw'. write_lines write_all lw' ls)"

definition write_comment ::
  "'w write_all \<Rightarrow> ('w, 's) log_writer \<Rightarrow> u8 list
    \<Rightarrow> (io_error \<times> ('w, 's) log_writer, ('w, 's) log_writer) res" where
  "write_comment write_all lw s = write_lines write_all lw (split_at 10 s)"

fun write_comments ::
  "'w write_all \<Rightarrow> ('w, 's) log_writer \<Rightarrow> u8 list list
    \<Rightarrow> (io_error \<times> ('w, 's) log_writer, ('w, 's) log_writer) res" where
  "write_comments write_all lw [] = Ok lw"
| "write_comments write_all lw (c # cs) =
     bind_res (write_comment write_all lw c) (\<lambda>lw'. write_comments write_all lw' cs)"

definition write_header ::
  "'w write_all \<Rightarrow> (f64 \<Rightarrow> u8 list) \<Rightarrow> ('w, 's) log_writer \<Rightarrow> string \<Rightarrow> f64 \<Rightarrow> string
    \<Rightarrow> (io_error \<times> ('w, 's) log_writer, ('w, 's) log_writer) res" where
  "write_header write_all fmt3 lw before x after =
     write_text write_all lw (ascii before @ fmt3 x @ ascii after @ [10])"

definition begin_log_with ::
  "'w write_all \<Rightarrow> (f64 \<Rightarrow> u8 list) \<Rightarrow> log_builder \<Rightarrow> 'w \<Rightarrow> 's
    \<Rightarrow> (io_error \<times> ('w, 's) log_writer, ('w, 's) log_writer) res" where
  "begin_log_with write_all fmt3 b w s =
     (let lw = \<lparr>out = w, serializer = s, text_buf = [], serialize_buf = [],
                max_value_divisor = builder_max_value_divisor b\<rparr>
      in bind_res (write_comments write_all lw (comments b)) (\<lambda>lw1.
         bind_res (case builder_start_time b of
                     None \<Rightarrow> Ok lw1
                   | Some st \<Rightarrow> write_header write_all fmt3 lw1 ''#[StartTime: '' st '' (seconds since epoch)]'') (\<lambda>lw2.
         bind_res (case builder_base_time b of
                     None \<Rightarrow> Ok lw2
                   | Some bt \<Rightarrow> write_header write_all fmt3 lw2 ''#[BaseTime: '' bt '' (seconds since epoch)]'') (\<lambda>lw3.
           if \<not> f64_eq (builder_max_value_divisor b) (Fin 1)
           then write_header write_all fmt3 lw3 ''#[MaxValueDivisor: '' (builder_max_value_divisor b) '']''
           else Ok lw3))))"

text \<open>The text before the histogram.\<close>

definition interval_prefix ::
  "(f64 \<Rightarrow> u8 list) \<Rightarrow> tag option \<Rightarrow> duration \<Rightarrow> duration \<Rightarrow> f64 \<Rightarrow> u8 list" where
  "interval_prefix fmt3 tag start dur mx =
     (case tag of None \<Rightarrow> [] | Some s \<Rightarrow> ascii ''Tag='' @ s @ [44])
       @ fmt3 (duration_as_fp_seconds start) @ [44] @ fmt3 (duration_as_fp_seconds dur) @ [44]
       @ fmt3 mx @ [44]"

definition write_histogram ::
  "'w write_all \<Rightarrow> (f64 \<Rightarrow> u8 list) \<Rightarrow> (u8 list \<Rightarrow> u8 list) \<Rightarrow> ('s, 'c, 'e) serialize
    \<Rightarrow> ('w, 's) log_writer \<Rightarrow> 'c histogram \<Rightarrow> duration \<Rightarrow> duration \<Rightarrow> tag option
    \<Rightarrow> ('e log_writer_error \<times> ('w, 's) log_writer, ('w, 's) log_writer) res" where
  "write_histogram write_all fmt3 base64 serialize lw h start dur tag =
     (let lw0 = lw\<lparr>serialize_buf := [], text_buf := []\<rparr>;
          io = map_err (\<lambda>(e, w). (LogIoError e, w))
      in bind_res (io (write_text write_all lw0 (interval_prefix fmt3 tag start dur
              (f64_div (u64_as_f64 (hist_max h)) (max_value_divisor lw0))))) (\<lambda>lw1.
         bind_res (map_err (\<lambda>(e, s, buf). (SerializeError e, lw1\<lparr>serializer := s, serialize_buf := buf\<rparr>))
                     (serialize (serializer lw1) h (serialize_buf lw1))) (\<lambda>(s, buf, n).
         let lw2 = lw1\<lparr>serializer := s, serialize_buf := buf, text_buf := base64 buf\<rparr>
         in bind_res (io (write_text write_all lw2 (text_buf lw2))) (\<lambda>lw3.
              io (write_text write_all lw3 [10])))))"

section \<open>Reading\<close>

record interval_log_histogram =
  log_tag :: "tag option"
  start_timestamp :: duration
  log_duration :: duration
  log_max :: f64
  encoded_histogram :: "u8 list"

datatype log_entry =
    StartTime duration
  | BaseTime duration
  | Interval interval_log_histogram

datatype log_iterator_error = ParseError nat

text \<open>A parser of \<open>nom\<close>: the rest of the input and a value, or an error, of which nothing is used.\<close>

type_synonym 'a parser = "u8 list \<Rightarrow> (unit, u8 list \<times> 'a) res"

record nom =
  nom_tag :: "u8 list \<Rightarrow> u8 list parser"
  nom_char :: "u8 \<Rightarrow> u8 parser"
  nom_take_until :: "u8 list \<Rightarrow> u8 list parser"
  nom_take :: "nat \<Rightarrow> u8 list parser"
  nom_digits1 :: "u8 list parser" \<comment> \<open>\<open>take_while1(is_digit)\<close>\<close>
  nom_double :: "f64 parser"
  nom_recognize :: "u8 list parser \<Rightarrow> u8 list parser"
  nom_complete :: "u8 list parser \<Rightarrow> u8 list parser"
  nom_complete_entry :: "log_entry parser \<Rightarrow> log_entry parser"
  nom_map_str :: "u8 list parser \<Rightarrow> (u8 list \<Rightarrow> u8 list option) \<Rightarrow> u8 list parser" \<comment> \<open>\<open>map_res\<close>\<close>
  nom_map_u64 :: "u8 list parser \<Rightarrow> (u8 list \<Rightarrow> u64 option) \<Rightarrow> u64 parser" \<comment> \<open>\<open>map_res\<close>\<close>
  nom_opt :: "u8 list parser \<Rightarrow> u8 list option parser"
  nom_alt :: "log_entry parser list \<Rightarrow> log_entry parser"
  nom_alt_unit :: "unit parser list \<Rightarrow> unit parser"

definition fract_sec_tuple :: "nom \<Rightarrow> (u64 \<times> u8 list) parser" where
  "fract_sec_tuple N input0 =
     bind_res (nom_map_u64 N (nom_map_str N (nom_recognize N (nom_take_until N (ascii ''.''))) from_utf8) parse_u64 input0)
       (\<lambda>(input1, secs).
     bind_res (nom_tag N (ascii ''.'') input1) (\<lambda>(input2, _).
     bind_res (nom_map_str N (nom_complete N (nom_digits1 N)) from_utf8 input2) (\<lambda>(input3, nanos_str).
       Ok (input3, (secs, nanos_str)))))"

definition fract_sec_duration :: "nom \<Rightarrow> duration parser" where
  "fract_sec_duration N input0 =
     bind_res (fract_sec_tuple N input0) (\<lambda>(rest, (secs, nanos_str)).
       case (if length nanos_str > 9 then parse_u32 (take 9 nanos_str)
             else if length nanos_str = 9 then parse_u32 nanos_str
             else map_option (\<lambda>n. n * 10 ^ (9 - length nanos_str)) (parse_u32 nanos_str)) of
         Some nanos \<Rightarrow> bind_res (duration_new secs nanos) (\<lambda>d. Ok (rest, d))
       | None \<Rightarrow> Err ())"

definition start_time :: "nom \<Rightarrow> log_entry parser" where
  "start_time N input0 =
     bind_res (nom_tag N (ascii ''#[StartTime: '') input0) (\<lambda>(input1, _).
     bind_res (fract_sec_duration N input1) (\<lambda>(input2, duration).
     bind_res (nom_char N 32 input2) (\<lambda>(input3, _).
     bind_res (nom_take_until N [10] input3) (\<lambda>(input4, _).
     bind_res (nom_take N 1 input4) (\<lambda>(input5, _).
       Ok (input5, StartTime duration))))))"

definition base_time :: "nom \<Rightarrow> log_entry parser" where
  "base_time N input0 =
     bind_res (nom_tag N (ascii ''#[BaseTime: '') input0) (\<lambda>(input1, _).
     bind_res (fract_sec_duration N input1) (\<lambda>(input2, duration).
     bind_res (nom_char N 32 input2) (\<lambda>(input3, _).
     bind_res (nom_take_until N [10] input3) (\<lambda>(input4, _).
     bind_res (nom_take N 1 input4) (\<lambda>(input5, _).
       Ok (input5, BaseTime duration))))))"

definition tag_bytes :: "nom \<Rightarrow> u8 list parser" where
  "tag_bytes N input0 =
     bind_res (nom_tag N (ascii ''Tag='') input0) (\<lambda>(input1, _).
     bind_res (nom_take_until N (ascii '','') input1) (\<lambda>(input2, tag).
     bind_res (nom_take N 1 input2) (\<lambda>(input3, _).
       Ok (input3, tag))))"

definition tag_parser :: "nom \<Rightarrow> tag parser" where
  "tag_parser N input0 =
     bind_res (nom_map_str N (tag_bytes N) from_utf8 input0) (\<lambda>(input1, tag). Ok (input1, tag))"

definition interval_hist :: "nom \<Rightarrow> log_entry parser" where
  "interval_hist N input0 =
     bind_res (nom_opt N (tag_parser N) input0) (\<lambda>(input1, tag).
     bind_res (fract_sec_duration N input1) (\<lambda>(input2, start).
     bind_res (nom_char N 44 input2) (\<lambda>(input3, _).
     bind_res (fract_sec_duration N input3) (\<lambda>(input4, duration).
     bind_res (nom_char N 44 input4) (\<lambda>(input5, _).
     bind_res (nom_double N input5) (\<lambda>(input6, mx).
     bind_res (nom_char N 44 input6) (\<lambda>(input7, _).
     bind_res (nom_map_str N (nom_take_until N [10]) from_utf8 input7) (\<lambda>(input8, encoded).
     bind_res (nom_take N 1 input8) (\<lambda>(input9, _).
       Ok (input9, Interval \<lparr>log_tag = tag, start_timestamp = start, log_duration = duration,
                            log_max = mx, encoded_histogram = encoded\<rparr>))))))))))"

definition parse_log_entry :: "nom \<Rightarrow> log_entry parser" where
  "parse_log_entry N input0 =
     nom_complete_entry N (nom_alt N [start_time N, base_time N, interval_hist N]) input0"

definition comment_line :: "nom \<Rightarrow> unit parser" where
  "comment_line N input0 =
     bind_res (nom_tag N (ascii ''#'') input0) (\<lambda>(input1, _).
     bind_res (nom_take_until N [10] input1) (\<lambda>(input2, _).
     bind_res (nom_take N 1 input2) (\<lambda>(input3, _). Ok (input3, ()))))"

definition legend :: "nom \<Rightarrow> unit parser" where
  "legend N input0 =
     bind_res (nom_tag N ([34] @ ascii ''StartTimestamp'' @ [34]) input0) (\<lambda>(input1, _).
     bind_res (nom_take_until N [10] input1) (\<lambda>(input2, _).
     bind_res (nom_take N 1 input2) (\<lambda>(input3, _). Ok (input3, ()))))"

definition ignored_line :: "nom \<Rightarrow> unit parser" where
  "ignored_line N input0 = nom_alt_unit N [comment_line N, legend N] input0"

record log_iterator =
  orig_len :: nat
  input :: "u8 list"
  log_ended :: bool

definition log_iterator_new :: "u8 list \<Rightarrow> log_iterator" where
  "log_iterator_new bs = \<lparr>orig_len = length bs, input = bs, log_ended = False\<rparr>"

text \<open>\<open>next\<close>; \<open>None\<close> would stand for a loop that does not end.\<close>

partial_function (option) log_next ::
  "nom \<Rightarrow> log_iterator
    \<Rightarrow> (unit, log_iterator \<times> (log_iterator_error, log_entry) res option) res option" where
  "log_next N it =
     (if log_ended it then Some (Ok (it, None))
      else if input it = [] then Some (Ok (it\<lparr>log_ended := True\<rparr>, None))
      else case parse_log_entry N (input it) of
        Ok (rest, e) \<Rightarrow> Some (Ok (it\<lparr>input := rest\<rparr>, Some (Ok e)))
      | Panic \<Rightarrow> Some Panic
      | Err _ \<Rightarrow>
          (case ignored_line N (input it) of
             Ok (rest, _) \<Rightarrow> log_next N (it\<lparr>input := rest\<rparr>)
           | Panic \<Rightarrow> Some Panic
           | Err _ \<Rightarrow>
               Some (Ok (it\<lparr>log_ended := True\<rparr>,
                         Some (Err (ParseError (orig_len it - length (input it))))))))"

text \<open>A loop over the iterator collects what it yields.\<close>

partial_function (option) log_collect ::
  "nom \<Rightarrow> log_iterator \<Rightarrow> (log_iterator_error, log_entry) res list
    \<Rightarrow> (unit, (log_iterator_error, log_entry) res list) res option" where
  "log_collect N it acc =
     (case log_next N it of
        None \<Rightarrow> None
      | Some r \<Rightarrow>
          (case r of
             Ok (it', v) \<Rightarrow>
               (case v of None \<Rightarrow> Some (Ok (rev acc)) | Some x \<Rightarrow> log_collect N it' (x # acc))
           | Err e \<Rightarrow> Some (Err e)
           | Panic \<Rightarrow> Some Panic))"

end
