(* ===== verification/Log_Reading.thy ===== *)
theory Log_Reading
  imports Interval_Log
begin

text \<open>
  Reading an interval log (\<open>serialization/interval_log/mod.rs\<close>): what is relied on of \<open>nom\<close>, every
  parser reads a prefix of its input without a panic, and the iterator ends on every input.
\<close>

section \<open>What is relied on of nom and of the formatting of doubles\<close>

text \<open>The parsers and combinators of \<open>nom\<close>, in their \<open>complete\<close> forms, as they are documented.\<close>

definition nom_documented :: "nom \<Rightarrow> bool" where
  "nom_documented N \<longleftrightarrow>
     (\<forall>t i. nom_tag N t i = (if take (length t) i = t then Ok (drop (length t) i, t) else Err ())) \<and>
     (\<forall>c i. nom_char N c i = (case i of [] \<Rightarrow> Err () | b # r \<Rightarrow> if b = c then Ok (r, b) else Err ())) \<and>
     (\<forall>c i. nom_take_until N [c] i =
        (if c \<in> set i then Ok (dropWhile (\<lambda>b. b \<noteq> c) i, takeWhile (\<lambda>b. b \<noteq> c) i) else Err ())) \<and>
     (\<forall>n i. nom_take N n i = (if n \<le> length i then Ok (drop n i, take n i) else Err ())) \<and>
     (\<forall>i. nom_digits1 N i =
        (if takeWhile is_digit i = [] then Err () else Ok (dropWhile is_digit i, takeWhile is_digit i))) \<and>
     (\<forall>p i. nom_recognize N p i =
        bind_res (p i) (\<lambda>(r, x). Ok (r, take (length i - length r) i))) \<and>
     (\<forall>p i. nom_complete N p i = p i) \<and>
     (\<forall>p i. nom_complete_entry N p i = p i) \<and>
     (\<forall>p f i. nom_map_str N p f i = bind_res (p i) (\<lambda>(r, x). case f x of Some y \<Rightarrow> Ok (r, y) | None \<Rightarrow> Err ())) \<and>
     (\<forall>p f i. nom_map_u64 N p f i = bind_res (p i) (\<lambda>(r, x). case f x of Some y \<Rightarrow> Ok (r, y) | None \<Rightarrow> Err ())) \<and>
     (\<forall>p i. nom_opt N p i =
        (case p i of Ok (r, x) \<Rightarrow> Ok (r, Some x) | Err e \<Rightarrow> Ok (i, None) | Panic \<Rightarrow> Panic)) \<and>
     (\<forall>p q s i. nom_alt N [p, q, s] i =
        (case p i of Err _ \<Rightarrow> (case q i of Err _ \<Rightarrow> s i | r \<Rightarrow> r) | r \<Rightarrow> r)) \<and>
     (\<forall>p q i. nom_alt_unit N [p, q] i = (case p i of Err _ \<Rightarrow> q i | r \<Rightarrow> r)) \<and>
     (\<forall>i. nom_double N i \<noteq> Panic) \<and>
     (\<forall>i r x. nom_double N i = Ok (r, x) \<longrightarrow> (\<exists>u. i = u @ r)) \<and>
     (\<forall>n m r. m < 1000 \<longrightarrow>
        nom_double N (decimal n @ [46] @ three_digits m @ [44] @ r)
          = Ok ([44] @ r, f64_round (of_nat (1000 * n + m) / 1000)))"

lemma nom_laws:
  assumes "nom_documented N"
  shows "nom_tag N t i = (if take (length t) i = t then Ok (drop (length t) i, t) else Err ())"
    and "nom_char N c i = (case i of [] \<Rightarrow> Err () | b # r \<Rightarrow> if b = c then Ok (r, b) else Err ())"
    and "nom_take_until N [c] i =
        (if c \<in> set i then Ok (dropWhile (\<lambda>b. b \<noteq> c) i, takeWhile (\<lambda>b. b \<noteq> c) i) else Err ())"
    and "nom_take N n i = (if n \<le> length i then Ok (drop n i, take n i) else Err ())"
    and "nom_digits1 N i =
        (if takeWhile is_digit i = [] then Err () else Ok (dropWhile is_digit i, takeWhile is_digit i))"
    and "nom_recognize N p i = bind_res (p i) (\<lambda>(r, x). Ok (r, take (length i - length r) i))"
    and "nom_complete N p i = p i" and "nom_complete_entry N pe i = pe i"
    and "nom_map_str N p f i = bind_res (p i) (\<lambda>(r, x). case f x of Some y \<Rightarrow> Ok (r, y) | None \<Rightarrow> Err ())"
    and "nom_map_u64 N p g i = bind_res (p i) (\<lambda>(r, x). case g x of Some y \<Rightarrow> Ok (r, y) | None \<Rightarrow> Err ())"
    and "nom_opt N p i = (case p i of Ok (r, x) \<Rightarrow> Ok (r, Some x) | Err e \<Rightarrow> Ok (i, None) | Panic \<Rightarrow> Panic)"
    and "nom_alt N [pe, qe, se] i = (case pe i of Err _ \<Rightarrow> (case qe i of Err _ \<Rightarrow> se i | r \<Rightarrow> r) | r \<Rightarrow> r)"
    and "nom_alt_unit N [pu, qu] i = (case pu i of Err _ \<Rightarrow> qu i | r \<Rightarrow> r)"
    and "nom_double N i \<noteq> Panic"
    and "nom_double N i = Ok (r, x) \<Longrightarrow> \<exists>u. i = u @ r"
    and "m < 1000 \<Longrightarrow> nom_double N (decimal k @ [46] @ three_digits m @ [44] @ r)
      = Ok ([44] @ r, f64_round (of_nat (1000 * k + m) / 1000))"
  using assms unfolding nom_documented_def
  by - (elim conjE, erule allE, erule allE, assumption | simp only: ; fail | blast)+

section \<open>Parsers read a prefix\<close>

definition reads :: "'a parser \<Rightarrow> bool" where
  "reads p \<longleftrightarrow> (\<forall>i. p i \<noteq> Panic \<and> (\<forall>r x. p i = Ok (r, x) \<longrightarrow> (\<exists>u. i = u @ r)))"

definition consumes :: "'a parser \<Rightarrow> bool" where
  "consumes p \<longleftrightarrow> (\<forall>i. p i \<noteq> Panic \<and> (\<forall>r x. p i = Ok (r, x) \<longrightarrow> (\<exists>u. u \<noteq> [] \<and> i = u @ r)))"

named_theorems reads_intros \<open>parsers read a prefix of their input\<close>

lemma consumes_reads: "consumes p \<Longrightarrow> reads p"
  by (fastforce simp: consumes_def reads_def)

lemma reads_bind [reads_intros]:
  assumes "reads p" and "\<And>x. reads (f x)"
  shows "reads (\<lambda>i. bind_res (p i) (\<lambda>(r, x). f x r))"
  unfolding reads_def
proof (intro allI conjI impI)
  fix i
  show "bind_res (p i) (\<lambda>(r, x). f x r) \<noteq> Panic"
    using assms by (cases "p i") (auto simp: reads_def)
  fix r x assume "bind_res (p i) (\<lambda>(r, x). f x r) = Ok (r, x)"
  then obtain r1 y where 1: "p i = Ok (r1, y)" and 2: "f y r1 = Ok (r, x)"
    by (auto simp: bind_res_eq_Ok)
  obtain u where "i = u @ r1" using assms(1) 1 by (auto simp: reads_def)
  moreover obtain v where "r1 = v @ r" using assms(2) 2 unfolding reads_def by blast
  ultimately show "\<exists>u. i = u @ r" by simp
qed

lemma consumes_bind:
  assumes "consumes p" and "\<And>x. reads (f x)"
  shows "consumes (\<lambda>i. bind_res (p i) (\<lambda>(r, x). f x r))"
  unfolding consumes_def
proof (intro allI conjI impI)
  fix i
  show "bind_res (p i) (\<lambda>(r, x). f x r) \<noteq> Panic"
    using assms by (cases "p i") (auto simp: reads_def consumes_def)
  fix r x assume "bind_res (p i) (\<lambda>(r, x). f x r) = Ok (r, x)"
  then obtain r1 y where 1: "p i = Ok (r1, y)" and 2: "f y r1 = Ok (r, x)"
    by (auto simp: bind_res_eq_Ok)
  obtain u where u: "u \<noteq> []" "i = u @ r1" using assms(1) 1 by (auto simp: consumes_def)
  moreover obtain v where "r1 = v @ r" using assms(2) 2 unfolding reads_def by blast
  ultimately show "\<exists>u. u \<noteq> [] \<and> i = u @ r" by (intro exI [of _ "u @ v"]) simp
qed

lemma reads_consumes_bind:
  assumes "reads p" and "\<And>x. consumes (f x)"
  shows "consumes (\<lambda>i. bind_res (p i) (\<lambda>(r, x). f x r))"
  unfolding consumes_def
proof (intro allI conjI impI)
  fix i
  show "bind_res (p i) (\<lambda>(r, x). f x r) \<noteq> Panic"
    using assms by (cases "p i") (auto simp: reads_def consumes_def)
  fix r x assume "bind_res (p i) (\<lambda>(r, x). f x r) = Ok (r, x)"
  then obtain r1 y where 1: "p i = Ok (r1, y)" and 2: "f y r1 = Ok (r, x)"
    by (auto simp: bind_res_eq_Ok)
  obtain u where "i = u @ r1" using assms(1) 1 by (auto simp: reads_def)
  moreover obtain v where "v \<noteq> []" "r1 = v @ r" using assms(2) 2 unfolding consumes_def by blast
  ultimately show "\<exists>u. u \<noteq> [] \<and> i = u @ r" by (intro exI [of _ "u @ v"]) simp
qed

lemma reads_Ok [reads_intros]: "reads (\<lambda>i. Ok (i, x))"
  by (simp add: reads_def)

lemma reads_Err [reads_intros]: "reads (\<lambda>i. Err ())"
  by (simp add: reads_def)

lemma reads_base [reads_intros]:
  assumes "nom_documented N"
  shows "reads (nom_tag N t)" and "reads (nom_char N c)" and "reads (nom_take_until N [c])"
    and "reads (nom_take N n)" and "reads (nom_digits1 N)" and "reads (nom_double N)"
proof -
  note l = nom_laws [OF assms]
  have split: "\<exists>u. i = u @ drop n i" "\<exists>u. i = u @ dropWhile P i" for n P and i :: "u8 list"
    by (rule exI [of _ "take n i"], simp) (rule exI [of _ "takeWhile P i"], simp)
  show "reads (nom_tag N t)" unfolding reads_def l(1) using split(1) by simp
  show "reads (nom_char N c)" unfolding reads_def l(2) by (simp split: list.split)
  show "reads (nom_take_until N [c])" unfolding reads_def l(3) using split(2) by simp
  show "reads (nom_take N n)" unfolding reads_def l(4) using split(1) by simp
  show "reads (nom_digits1 N)" unfolding reads_def l(5) using split(2) by simp
  show "reads (nom_double N)" unfolding reads_def using l(14,15) by blast
qed

lemma reads_combinators [reads_intros]:
  assumes "nom_documented N"
  shows "reads p \<Longrightarrow> reads (nom_recognize N p)" and "reads p \<Longrightarrow> reads (nom_complete N p)"
    and "reads p \<Longrightarrow> reads (nom_map_str N p f)" and "reads p \<Longrightarrow> reads (nom_map_u64 N p g)"
    and "reads p \<Longrightarrow> reads (nom_opt N p)"
proof -
  note l = nom_laws [OF assms]
  show "reads (nom_recognize N p)" if "reads p"
    unfolding reads_def l(6)
  proof (intro allI)
    fix i show "bind_res (p i) (\<lambda>(r, x). Ok (r, take (length i - length r) i)) \<noteq> Panic \<and>
      (\<forall>r x. bind_res (p i) (\<lambda>(r, x). Ok (r, take (length i - length r) i)) = Ok (r, x) \<longrightarrow> (\<exists>u. i = u @ r))"
      using that by (cases "p i") (auto simp: reads_def)
  qed
  show "reads (nom_complete N p)" if "reads p"
    using that unfolding reads_def l(7) .
  show "reads (nom_map_str N p f)" if "reads p"
    unfolding reads_def l(9)
  proof (intro allI)
    fix i show "bind_res (p i) (\<lambda>(r, x). case f x of None \<Rightarrow> Err () | Some y \<Rightarrow> Ok (r, y)) \<noteq> Panic \<and>
      (\<forall>r x. bind_res (p i) (\<lambda>(r, x). case f x of None \<Rightarrow> Err () | Some y \<Rightarrow> Ok (r, y)) = Ok (r, x) \<longrightarrow> (\<exists>u. i = u @ r))"
      using that by (cases "p i") (auto simp: reads_def split: option.splits)
  qed
  show "reads (nom_map_u64 N p g)" if "reads p"
    unfolding reads_def l(10)
  proof (intro allI)
    fix i show "bind_res (p i) (\<lambda>(r, x). case g x of None \<Rightarrow> Err () | Some y \<Rightarrow> Ok (r, y)) \<noteq> Panic \<and>
      (\<forall>r x. bind_res (p i) (\<lambda>(r, x). case g x of None \<Rightarrow> Err () | Some y \<Rightarrow> Ok (r, y)) = Ok (r, x) \<longrightarrow> (\<exists>u. i = u @ r))"
      using that by (cases "p i") (auto simp: reads_def split: option.splits)
  qed
  show "reads (nom_opt N p)" if "reads p"
    unfolding reads_def l(11)
  proof (intro allI)
    fix i show "(case p i of Ok (r, x) \<Rightarrow> Ok (r, Some x) | Err e \<Rightarrow> Ok (i, None) | Panic \<Rightarrow> Panic) \<noteq> Panic \<and>
      (\<forall>r x. (case p i of Ok (r, x) \<Rightarrow> Ok (r, Some x) | Err e \<Rightarrow> Ok (i, None) | Panic \<Rightarrow> Panic) = Ok (r, x) \<longrightarrow> (\<exists>u. i = u @ r))"
      using that by (cases "p i") (auto simp: reads_def)
  qed
qed

lemma consumes_base:
  assumes "nom_documented N"
  shows "consumes (nom_take N 1)" and "t \<noteq> [] \<Longrightarrow> consumes (nom_tag N t)"
proof -
  note l = nom_laws [OF assms]
  show "consumes (nom_take N 1)"
    unfolding consumes_def l(4)
  proof (intro allI)
    fix i show "(if 1 \<le> length i then Ok (drop 1 i, take 1 i) else Err ()) \<noteq> Panic \<and>
      (\<forall>r x. (if 1 \<le> length i then Ok (drop 1 i, take 1 i) else Err ()) = Ok (r, x) \<longrightarrow> (\<exists>u. u \<noteq> [] \<and> i = u @ r))"
      by (cases i) auto
  qed
  show "consumes (nom_tag N t)" if "t \<noteq> []"
    unfolding consumes_def l(1)
    using that by (auto intro!: exI [of _ t]) (metis append_take_drop_id)
qed


text \<open>The digits after the point are below a billion nanoseconds, so that \<open>Duration::new\<close> has nothing to carry.\<close>

lemma foldl_digits_less:
  "list_all is_digit ds \<Longrightarrow> n < 10 ^ k \<Longrightarrow> foldl (\<lambda>n b. 10 * n + digit_value b) n ds < 10 ^ (k + length ds)"
proof (induction ds arbitrary: n k)
  case (Cons d ds)
  have "digit_value d \<le> 9" using Cons.prems(1) by (auto simp: is_digit_def digit_value_def word_le_nat_alt)
  then have "10 * n + digit_value d < 10 ^ Suc k" using Cons.prems(2) by simp
  from Cons.IH [OF _ this] show ?case using Cons.prems(1) by simp
qed simp

lemma parse_u32_digits_less:
  assumes "list_all is_digit ds" and "parse_u32 ds = Some n"
  shows "unat n < 10 ^ length ds"
proof -
  have "digits_value ds < 10 ^ length ds"
    using foldl_digits_less [of ds 0 0] assms(1) by (simp add: digits_value_def)
  moreover obtain k where k: "parse_uint (2 ^ 32) ds = Some k" "n = of_nat k"
    using assms(2) by (auto simp: parse_u32_def)
  moreover have "(case ds of [] \<Rightarrow> [] | b # r \<Rightarrow> if b = 43 then r else ds) = ds"
    using assms(1) is_digit_not_sign by (cases ds) auto
  ultimately show ?thesis
    by (auto simp: parse_uint_def unat_of_nat_less split: if_splits)
qed

definition nanos_of :: "u8 list \<Rightarrow> u32 option" where
  "nanos_of ds = (if length ds > 9 then parse_u32 (take 9 ds)
     else if length ds = 9 then parse_u32 ds else map_option (\<lambda>n. n * 10 ^ (9 - length ds)) (parse_u32 ds))"

lemma nanos_of_less:
  assumes "list_all is_digit ds" and "nanos_of ds = Some n"
  shows "n < 1000000000"
proof -
  have nine: "m < 1000000000" if "unat m < 10 ^ 9" for m :: u32
    using that by (simp add: word_less_nat_alt)
  consider "length ds \<ge> 9" "parse_u32 (take 9 ds) = Some n"
    | m where "length ds < 9" "parse_u32 ds = Some m" "n = m * 10 ^ (9 - length ds)"
    using assms(2) by (auto simp: nanos_of_def split: if_splits)
  then show ?thesis
  proof cases
    case 1
    have "list_all is_digit (take 9 ds)" using assms(1) by (auto simp: list_all_iff dest: in_set_takeD)
    from parse_u32_digits_less [OF this 1(2)] 1(1) show ?thesis by (intro nine) (simp add: min_absorb2)
  next
    case 2
    let ?k = "9 - length ds"
    have "unat m * 10 ^ ?k < 10 ^ length ds * 10 ^ ?k"
      using parse_u32_digits_less [OF assms(1) 2(2)] by simp
    also have "\<dots> = 10 ^ 9" using 2(1) by (simp flip: power_add)
    finally have less: "unat m * 10 ^ ?k < 10 ^ 9" .
    have "(10::nat) ^ ?k \<le> 10 ^ 9" by (intro power_increasing) simp_all
    then have "unat (10 ^ ?k :: u32) = 10 ^ ?k"
      using unat_of_nat_less [of "10 ^ ?k", where 'a = 32] by simp
    then have "unat n = unat m * 10 ^ ?k mod 2 ^ 32" by (simp add: 2(3) unat_word_ariths)
    then show ?thesis using less by (intro nine) simp
  qed
qed


lemma fract_sec_tuple_digits:
  assumes "nom_documented N" and "fract_sec_tuple N i = Ok (r, (s, ds))"
  shows "list_all is_digit ds"
proof -
  note l = nom_laws [OF assms(1)]
  have "list_all is_digit (takeWhile is_digit j)" for j by (simp add: list_all_iff) (metis set_takeWhileD)
  then show ?thesis
    using assms(2)
    by (auto simp: fract_sec_tuple_def bind_res_eq_Ok l from_utf8_def split: option.splits if_splits)
qed

lemma fract_sec_duration_nanos_of:
  "fract_sec_duration N i = bind_res (fract_sec_tuple N i) (\<lambda>(rest, (secs, ds)).
     case nanos_of ds of Some nanos \<Rightarrow> bind_res (duration_new secs nanos) (\<lambda>d. Ok (rest, d)) | None \<Rightarrow> Err ())"
  by (simp add: fract_sec_duration_def nanos_of_def)

lemma fract_sec_duration_reads:
  assumes "nom_documented N"
  shows "reads (fract_sec_duration N)"
proof -
  note r = reads_base [OF assms] reads_combinators [OF assms] reads_Ok reads_Err
  have tuple: "reads (fract_sec_tuple N)"
    unfolding fract_sec_tuple_def by (intro reads_bind r) (simp add: r)
  have "fract_sec_duration N i \<noteq> Panic \<and> (\<forall>r x. fract_sec_duration N i = Ok (r, x) \<longrightarrow> (\<exists>u. i = u @ r))" for i
  proof (cases "fract_sec_tuple N i")
    case (Ok y)
    then obtain r s ds where y: "fract_sec_tuple N i = Ok (r, s, ds)" by (cases y) auto
    then show ?thesis
      using tuple nanos_of_less [OF fract_sec_tuple_digits [OF assms y]]
      by (auto simp: fract_sec_duration_nanos_of reads_def duration_new_def split: option.split)
  qed (use tuple in \<open>auto simp: fract_sec_duration_nanos_of reads_def\<close>)
  then show ?thesis by (simp add: reads_def)
qed

section \<open>Every item takes a part of the input\<close>

lemma parsers_consume:
  assumes "nom_documented N"
  shows "consumes (start_time N)" and "consumes (base_time N)" and "consumes (interval_hist N)"
    and "consumes (comment_line N)" and "consumes (legend N)" and "reads (tag_parser N)"
proof -
  note r = reads_bind reads_base [OF assms] reads_combinators [OF assms] reads_Ok fract_sec_duration_reads [OF assms]
  show t: "reads (tag_parser N)"
    unfolding tag_parser_def tag_bytes_def by (intro r) (simp add: r)
  show "consumes (start_time N)" "consumes (base_time N)"
    unfolding start_time_def base_time_def by (intro consumes_bind consumes_base [OF assms] r; simp)+
  show "consumes (comment_line N)" "consumes (legend N)"
    unfolding comment_line_def legend_def by (intro consumes_bind consumes_base [OF assms] r; simp)+
  show "consumes (interval_hist N)"
    unfolding interval_hist_def
    by (rule consumes_bind [OF consumes_base(1) [OF assms] reads_Ok] | (rule reads_consumes_bind, intro r t))+
qed

lemma items_consume:
  assumes "nom_documented N"
  shows "consumes (parse_log_entry N)" and "consumes (ignored_line N)"
proof -
  note l = nom_laws [OF assms] and c = parsers_consume [OF assms]
  show "consumes (parse_log_entry N)"
    unfolding consumes_def parse_log_entry_def l(8,12)
    using c(1-3) by (auto simp: consumes_def split: res.split)
  show "consumes (ignored_line N)"
    unfolding consumes_def ignored_line_def l(13)
    using c(4,5) by (auto simp: consumes_def split: res.split)
qed

lemma consumesD:
  assumes "consumes p"
  shows "p i \<noteq> Panic" and "p i = Ok (r, x) \<Longrightarrow> \<exists>u. u \<noteq> [] \<and> i = u @ r"
  using assms unfolding consumes_def by blast+

section \<open>The iterator ends\<close>

text \<open>
  An iterator inside an input, and what \<open>next\<close> does: it ends, or it yields an entry and has less to
  read, or it yields an error where neither parser succeeds.
\<close>

definition iterates :: "u8 list \<Rightarrow> log_iterator \<Rightarrow> bool" where
  "iterates bs it \<longleftrightarrow> orig_len it = length bs \<and> (\<exists>u. bs = u @ input it)"

definition fails_at :: "nom \<Rightarrow> u8 list \<Rightarrow> nat \<Rightarrow> bool" where
  "fails_at N bs off \<longleftrightarrow> off < length bs \<and>
     parse_log_entry N (drop off bs) = Err () \<and> ignored_line N (drop off bs) = Err ()"

lemma iterates_rest: "iterates bs it \<Longrightarrow> input it = u @ r \<Longrightarrow> iterates bs (it\<lparr>input := r\<rparr>)"
  by (auto simp: iterates_def)

lemma log_next_result:
  assumes "nom_documented N" and "iterates bs it"
  shows "(\<exists>it'. log_next N it = Some (Ok (it', None)) \<and> log_ended it')
      \<or> (\<exists>it' e. log_next N it = Some (Ok (it', Some (Ok e))) \<and> iterates bs it' \<and> length (input it') < length (input it))
      \<or> (\<exists>it' off. log_next N it = Some (Ok (it', Some (Err (ParseError off)))) \<and> log_ended it' \<and> fails_at N bs off)"
  using assms(2)
proof (induction "length (input it)" arbitrary: it rule: less_induct)
  case less
  note c = items_consume [OF assms(1), THEN consumesD(1), of "input it"]
    items_consume [OF assms(1), THEN consumesD(2)]
  show ?case
  proof (cases "log_ended it \<or> input it = []")
    case False
    consider (entry) rest e where "parse_log_entry N (input it) = Ok (rest, e)"
      | (ignored) rest where "parse_log_entry N (input it) = Err ()" "ignored_line N (input it) = Ok (rest, ())"
      | (bad) "parse_log_entry N (input it) = Err ()" "ignored_line N (input it) = Err ()"
      using c by (cases "parse_log_entry N (input it)"; cases "ignored_line N (input it)") auto
    then show ?thesis
    proof cases
      case entry
      obtain u where u: "u \<noteq> []" "input it = u @ rest" using c(3) [OF entry] by blast
      have "log_next N it = Some (Ok (it\<lparr>input := rest\<rparr>, Some (Ok e)))"
        using False entry by (simp add: log_next.simps [of N it])
      then show ?thesis using iterates_rest [OF less.prems u(2)] u by auto
    next
      case ignored
      let ?it = "it\<lparr>input := rest\<rparr>"
      obtain u where u: "u \<noteq> []" "input it = u @ rest" using c(4) [OF ignored(2)] by blast
      then have shorter: "length (input ?it) < length (input it)" by simp
      have "log_next N it = log_next N ?it" using False ignored by (simp add: log_next.simps [of N it])
      with less.hyps [OF shorter iterates_rest [OF less.prems u(2)]] shorter show ?thesis
        by (elim disjE exE) force+
    next
      case bad
      let ?off = "orig_len it - length (input it)"
      have "drop ?off bs = input it" "?off < length bs"
        using less.prems False by (auto simp: iterates_def)
      then show ?thesis using False bad by (simp add: log_next.simps [of N it] fails_at_def)
    qed
  qed (auto simp: log_next.simps [of N it])
qed

lemma log_collect_result:
  assumes "nom_documented N" and "iterates bs it"
  shows "\<exists>es err. log_collect N it acc = Some (Ok (rev acc @ map Ok es @ err)) \<and>
    (err = [] \<or> (\<exists>off. err = [Err (ParseError off)] \<and> fails_at N bs off))"
  using assms(2)
proof (induction "length (input it)" arbitrary: it acc rule: less_induct)
  case less
  from log_next_result [OF assms(1) less.prems]
  consider (over) it' where "log_next N it = Some (Ok (it', None))"
    | (entry) it' e where "log_next N it = Some (Ok (it', Some (Ok e)))" "iterates bs it'" "length (input it') < length (input it)"
    | (error) it' off where "log_next N it = Some (Ok (it', Some (Err (ParseError off))))" "log_ended it'" "fails_at N bs off"
    by blast
  then show ?case
  proof cases
    case over
    then have "log_collect N it acc = Some (Ok (rev acc))" by (subst log_collect.simps) simp
    then show ?thesis by (intro exI [of _ "[]"]) simp
  next
    case entry
    from less.hyps [OF entry(3,2), of "Ok e # acc"] obtain es err where
      "log_collect N it' (Ok e # acc) = Some (Ok (rev acc @ map Ok (e # es) @ err))"
      "err = [] \<or> (\<exists>off. err = [Err (ParseError off)] \<and> fails_at N bs off)" by auto
    moreover have "log_collect N it acc = log_collect N it' (Ok e # acc)"
      by (subst log_collect.simps) (simp add: entry(1))
    ultimately show ?thesis by (intro exI [of _ "e # es"] exI [of _ err]) simp
  next
    case error
    have "log_next N it' = Some (Ok (it', None))" by (subst log_next.simps) (simp add: error(2))
    then have "log_collect N it' (Err (ParseError off) # acc) = Some (Ok (rev acc @ [Err (ParseError off)]))"
      by (subst log_collect.simps) simp
    moreover have "log_collect N it acc = log_collect N it' (Err (ParseError off) # acc)"
      by (subst log_collect.simps) (simp add: error(1))
    ultimately show ?thesis using error(3)
      by (intro exI [of _ "[]"] exI [of _ "[Err (ParseError off)]"]) simp
  qed
qed

end
