(* ===== verification/Log_Lines.thy ===== *)
theory Log_Lines
  imports Log_Reading
begin

text \<open>
  The lines of an interval log (\<open>serialization/interval_log/mod.rs\<close>): how a timestamp comes back
  through a double with three decimals, what the parsers make of each line the writer writes, and
  what the iterator makes of a text of such lines.
\<close>

section \<open>Timestamps through doubles with three decimals\<close>

text \<open>\<open>{:.3}\<close> writes a number of thousandths next to the double (either one of two at the same distance).\<close>

definition fmt_documented :: "(f64 \<Rightarrow> u8 list) \<Rightarrow> bool" where
  "fmt_documented fmt3 \<longleftrightarrow>
     (\<forall>x \<ge> 0. \<exists>n m. m < 1000 \<and> fmt3 (Fin x) = decimal n @ [46] @ three_digits m \<and>
        \<bar>of_nat (1000 * n + m) - 1000 * x\<bar> \<le> 1 / 2)"


lemma rne_rat_near: "\<bar>of_int (rne_rat z) - z\<bar> \<le> 1 / 2"
proof -
  have "of_int \<lfloor>z\<rfloor> \<le> z" "z < of_int \<lfloor>z\<rfloor> + 1" by linarith+
  then show ?thesis by (auto simp: rne_rat_def Let_def)
qed

lemma round_val_near: "\<bar>round_val x - x\<bar> \<le> quantum x / 2"
proof -
  let ?q = "quantum x" and ?n = "of_int (rne_rat (x / quantum x)) :: rat"
  have "?q \<noteq> 0" by (metis less_irrefl quantum_pos)
  then have "round_val x - x = (?n - x / ?q) * ?q" by (simp add: round_val_def field_simps)
  then have "\<bar>round_val x - x\<bar> = \<bar>?n - x / ?q\<bar> * ?q" by (simp add: abs_mult less_imp_le)
  also have "\<dots> \<le> 1 / 2 * ?q"
    using rne_rat_near [of "x / ?q"] by (intro mult_right_mono) (simp_all add: less_imp_le)
  finally show ?thesis by simp
qed

lemma f64_round_near:
  assumes "0 \<le> x" and "x < 2 ^ k" and "13 \<le> k" and "k \<le> 1000"
  obtains y where "f64_round x = Fin y" and "0 \<le> y" and "\<bar>y - x\<bar> \<le> 2 powi (int k - 54)"
proof (cases "x = 0")
  case True
  then show ?thesis by (intro that [of 0]) (simp_all add: f64_round_def)
next
  case False
  then have x: "0 < x" using assms(1) by simp
  have "2 powi flog2 x < (2::rat) powi int k"
    using flog2_bounds(1) [OF x] assms(2) by simp
  then have "flog2 x < int k" by (rule powi_less_imp_less)
  then have "max (flog2 x - 52) (- 1074) \<le> int k - 53" by simp
  then have "quantum x \<le> 2 powi (int k - 53)" unfolding quantum_def by (intro power_int_increasing) simp_all
  moreover have "(2::rat) powi (int k - 53) = 2 * 2 powi (int k - 54)"
    using power_int_add [of "2::rat" 1 "int k - 54"] by simp
  ultimately have near: "\<bar>round_val x - x\<bar> \<le> 2 powi (int k - 54)" using round_val_near [of x] by linarith
  have "0 \<le> rne_rat (x / quantum x)" by (intro rne_rat_nonneg) (simp add: x less_imp_le)
  then have nonneg: "0 \<le> round_val x" by (simp add: round_val_def less_imp_le)
  have "(2::rat) ^ k \<le> 2 ^ 1001" "(2::rat) powi (int k - 54) \<le> 2 powi (int 1001)"
    using assms(4) by (intro power_increasing power_int_increasing; simp)+
  then have "round_val x < 2 ^ 1001 + 2 ^ 1001" using near assms(2) unfolding power_int_of_nat by (simp only: abs_le_iff) linarith
  also have "\<dots> < (2 ^ 1024 :: rat)" by simp
  finally have "round_val x < 2 ^ 1024" .
  then show ?thesis using near nonneg by (intro that [of "round_val x"]) (simp_all add: f64_round_pos x)
qed

text \<open>A duration in nanoseconds, and as it comes back from the log.\<close>

definition nanos_total :: "duration \<Rightarrow> nat" where
  "nanos_total d = unat (secs d) * 1000000000 + unat (subsec_nanos d)"

definition logged_as :: "duration \<Rightarrow> duration \<Rightarrow> bool" where
  "logged_as d d' \<longleftrightarrow>
     subsec_nanos d' < 1000000000 \<and> nanos_total d' mod 1000000 = 0 \<and>
     \<bar>int (nanos_total d') - int (nanos_total d)\<bar> \<le> 700000"

lemma duration_as_fp_seconds_near:
  assumes "unat (secs d) < 2 ^ 40" and "unat (subsec_nanos d) < 1000000000"
  obtains x where "duration_as_fp_seconds d = Fin x" and "0 \<le> x"
    and "\<bar>1000000000 * x - of_nat (nanos_total d)\<bar> \<le> 150000"
proof -
  define s n where "s = unat (secs d)" and "n = unat (subsec_nanos d)"
  let ?q = "of_nat n / 1000000000 :: rat"
  have n: "of_nat n < (1000000000 :: rat)" using assms(2) unfolding n_def by (metis of_nat_less_iff of_nat_numeral)
  have s: "of_nat s + 1 \<le> (2 ^ 40 :: rat)"
    using assms(1) unfolding s_def by (metis Suc_leI of_nat_Suc add.commute of_nat_le_iff of_nat_numeral of_nat_power)
  obtain y where y: "f64_round ?q = Fin y" "0 \<le> y" "\<bar>y - ?q\<bar> \<le> 2 powi (int 13 - 54)"
    by (rule f64_round_near [of ?q 13]) (use n in simp_all)
  have small: "(2::rat) powi (int 13 - 54) \<le> 1 / 1000000000" "(2::rat) powi (int 41 - 54) = 1 / 8192"
    by (simp_all add: power_int_def power_divide)
  have "y < 2" using y(3) n small(1) by linarith
  then have sum: "of_nat s + y < 2 ^ 41" using s by simp
  obtain x where x: "f64_round (of_nat s + y) = Fin x" "0 \<le> x" "\<bar>x - (of_nat s + y)\<bar> \<le> 2 powi (int 41 - 54)"
    by (rule f64_round_near [of "of_nat s + y" 41]) (use y(2) sum in simp_all)
  show thesis
  proof (rule that)
    show "duration_as_fp_seconds d = Fin x"
      using x(1) y(1) assms(1) unfolding s_def n_def by (simp add: duration_as_fp_seconds_def u64_as_f64_exact)
    have "\<bar>x - (of_nat s + ?q)\<bar> \<le> 1 / 1000000000 + 1 / 8192" using x(3) y(3) small by linarith
    moreover have "of_nat (nanos_total d) = 1000000000 * of_nat s + (of_nat n :: rat)"
      by (simp add: nanos_total_def s_def n_def)
    ultimately show "\<bar>1000000000 * x - of_nat (nanos_total d)\<bar> \<le> 150000"
      unfolding abs_le_iff by linarith
  qed (rule x(2))
qed

lemma thousandths_near:
  fixes t k x y :: rat
  assumes "t = 1000000 * k" and "\<bar>k - 1000 * x\<bar> \<le> 1 / 2" and "\<bar>1000000000 * x - y\<bar> \<le> 150000"
  shows "\<bar>t - y\<bar> \<le> 700000"
  using assms unfolding abs_le_iff by linarith

lemma of_nat_near: "\<bar>of_nat a - of_nat b\<bar> \<le> (of_nat c :: rat) \<Longrightarrow> \<bar>int a - int b\<bar> \<le> int c"
  by (metis (mono_tags) of_int_abs of_int_diff of_int_le_iff of_int_of_nat_eq)

text \<open>The text of a duration: seconds, a point, milliseconds.\<close>

lemma logged_text:
  assumes "fmt_documented fmt3" and "unat (secs d) < 2 ^ 40" and "unat (subsec_nanos d) < 1000000000"
  obtains n m where "fmt3 (duration_as_fp_seconds d) = decimal n @ [46] @ three_digits m"
    and "m < 1000" and "n < 2 ^ 41" and "logged_as d \<lparr>secs = of_nat n, subsec_nanos = of_nat (m * 1000000)\<rparr>"
proof -
  obtain x where x: "duration_as_fp_seconds d = Fin x" "0 \<le> x" "\<bar>1000000000 * x - of_nat (nanos_total d)\<bar> \<le> 150000"
    by (rule duration_as_fp_seconds_near [OF assms(2,3)])
  obtain n m where f: "m < 1000" "fmt3 (Fin x) = decimal n @ [46] @ three_digits m"
    "\<bar>of_nat (1000 * n + m) - 1000 * x\<bar> \<le> 1 / 2"
    using assms(1) x(2) by (auto simp: fmt_documented_def)
  let ?t = "(1000 * n + m) * 1000000"
  have "(of_nat ?t :: rat) = 1000000 * of_nat (1000 * n + m)" by simp
  then have "\<bar>of_nat ?t - of_nat (nanos_total d)\<bar> \<le> (700000 :: rat)" using f(3) x(3) by (rule thousandths_near)
  then have near: "\<bar>int ?t - int (nanos_total d)\<bar> \<le> 700000"
    using of_nat_near [of ?t "nanos_total d" 700000] by simp
  have "nanos_total d < 2 ^ 40 * 1000000000" using assms(2,3) by (simp add: nanos_total_def)
  then have n: "n < 2 ^ 41" using near by simp
  have u: "unat (of_nat n :: u64) = n" "unat (of_nat (m * 1000000) :: u32) = m * 1000000"
    using n f(1) by (simp_all add: unat_of_nat_less del: of_nat_mult)
  let ?d = "\<lparr>secs = of_nat n, subsec_nanos = of_nat (m * 1000000)\<rparr>"
  have "nanos_total ?d = ?t" by (simp add: nanos_total_def u del: of_nat_mult)
  moreover have "of_nat (m * 1000000) < (1000000000 :: u32)" using u(2) f(1) by (simp add: word_less_nat_alt del: of_nat_mult)
  ultimately have "logged_as d ?d" using near by (simp add: logged_as_def)
  then show thesis using f x(1) n by (intro that [of n m]) simp_all
qed


section \<open>The parsers on what the writer writes\<close>

lemma until_char: "c \<notin> set u \<Longrightarrow> takeWhile (\<lambda>b. b \<noteq> c) (u @ c # r) = u \<and> dropWhile (\<lambda>b. b \<noteq> c) (u @ c # r) = c # r"
  by (induction u) auto

lemma digits_then:
  "list_all is_digit u \<Longrightarrow> r = [] \<or> \<not> is_digit (hd r)
    \<Longrightarrow> takeWhile is_digit (u @ r) = u \<and> dropWhile is_digit (u @ r) = r"
  by (induction u; cases r) auto

lemma digit_ge: "list_all is_digit ds \<Longrightarrow> \<not> is_digit c \<Longrightarrow> c \<notin> set ds"
  by (auto simp: list_all_iff)

lemma not_digits [simp]: "\<not> is_digit 46" "\<not> is_digit 44" "\<not> is_digit 32" "\<not> is_digit 10" "\<not> is_digit 35" "\<not> is_digit 84"
  by (simp_all add: is_digit_def)

lemma fract_sec_duration_text:
  assumes "nom_documented N" and "m < 1000" and "n < 2 ^ 64" and "r = [] \<or> \<not> is_digit (hd r)"
  shows "fract_sec_duration N (decimal n @ [46] @ three_digits m @ r)
    = Ok (r, \<lparr>secs = of_nat n, subsec_nanos = of_nat (m * 1000000)\<rparr>)"
proof -
  note l = nom_laws [OF assms(1)] and d = decimal_facts [of n] and t = three_digits_facts [OF assms(2)]
  have u: "takeWhile (\<lambda>b. b \<noteq> 46) (decimal n @ 46 # three_digits m @ r) = decimal n"
    "dropWhile (\<lambda>b. b \<noteq> 46) (decimal n @ 46 # three_digits m @ r) = 46 # three_digits m @ r"
    using until_char [of 46 "decimal n"] d digit_ge [of "decimal n" 46] by auto
  have w: "takeWhile is_digit (three_digits m @ r) = three_digits m" "dropWhile is_digit (three_digits m @ r) = r"
    using digits_then [OF t(1) assms(4)] by auto
  have ne: "three_digits m \<noteq> []" using t(4) by auto
  have tuple: "fract_sec_tuple N (decimal n @ [46] @ three_digits m @ r) = Ok (r, (of_nat n, three_digits m))"
    using d t(1,3) ne parse_uint_decimal [OF assms(3)]
    by (simp add: fract_sec_tuple_def l u w from_utf8_ascii parse_u64_def)
  have "m < 2 ^ 32" using assms(2) by simp
  then have "parse_u32 (three_digits m) = Some (of_nat m)"
    using parse_uint_digits [OF t(1) ne, of "2 ^ 32"] t(2) by (simp add: parse_u32_def)
  then have "nanos_of (three_digits m) = Some (of_nat (m * 1000000))"
    by (simp add: nanos_of_def t(4))
  moreover have "unat (of_nat (m * 1000000) :: u32) = m * 1000000"
    using assms(2) by (intro unat_of_nat_less) simp
  then have "(of_nat (m * 1000000) :: u32) < 1000000000" using assms(2) by (simp add: word_less_nat_alt del: of_nat_mult)
  ultimately show ?thesis
    unfolding fract_sec_duration_nanos_of tuple by (simp add: duration_new_def del: of_nat_mult)
qed

lemma fract_sec_duration_not_digit:
  assumes "nom_documented N" and "c \<noteq> 43" and "c \<noteq> 46" and "\<not> is_digit c"
  shows "fract_sec_duration N (c # r) = Err ()"
proof -
  note l = nom_laws [OF assms(1)]
  have "parse_u64 (c # u) = None" for u using assms(2,4) by (simp add: parse_u64_def parse_uint_def)
  then show ?thesis
    using assms(3)
    by (simp add: fract_sec_duration_def fract_sec_tuple_def l from_utf8_def Suc_diff_le length_dropWhile_le)
qed

section \<open>Texts and the entries they hold\<close>

text \<open>\<open>log_text N bs es\<close>: \<open>bs\<close> is a sequence of lines that are ignored and of entries, the \<open>es\<close>.\<close>

definition skipped :: "nom \<Rightarrow> u8 list \<Rightarrow> bool" where
  "skipped N t \<longleftrightarrow> t \<noteq> [] \<and> (\<forall>r. parse_log_entry N (t @ r) = Err () \<and> ignored_line N (t @ r) = Ok (r, ()))"

definition entered :: "nom \<Rightarrow> u8 list \<Rightarrow> log_entry \<Rightarrow> bool" where
  "entered N t e \<longleftrightarrow> t \<noteq> [] \<and> (\<forall>r. parse_log_entry N (t @ r) = Ok (r, e))"

inductive log_text :: "nom \<Rightarrow> u8 list \<Rightarrow> log_entry list \<Rightarrow> bool" for N where
  none: "log_text N [] []"
| skip: "skipped N t \<Longrightarrow> log_text N bs es \<Longrightarrow> log_text N (t @ bs) es"
| enter: "entered N t e \<Longrightarrow> log_text N bs es \<Longrightarrow> log_text N (t @ bs) (e # es)"

lemma log_text_append: "log_text N as es \<Longrightarrow> log_text N bs fs \<Longrightarrow> log_text N (as @ bs) (es @ fs)"
  by (induction rule: log_text.induct) (auto intro: log_text.intros)

lemma log_text_skipped: "skipped N t \<Longrightarrow> log_text N t []"
  using log_text.skip [OF _ log_text.none] by simp

lemma log_text_entered: "entered N t e \<Longrightarrow> log_text N t [e]"
  using log_text.enter [OF _ log_text.none] by simp

lemma log_collect_text:
  "log_text N bs es \<Longrightarrow> input it = bs \<Longrightarrow> \<not> log_ended it \<Longrightarrow> log_collect N it acc = Some (Ok (rev acc @ map Ok es))"
proof (induction arbitrary: it acc rule: log_text.induct)
  case none
  then have "log_next N it = Some (Ok (it\<lparr>log_ended := True\<rparr>, None))" by (subst log_next.simps) simp
  then show ?case by (subst log_collect.simps) simp
next
  case (skip t bs es)
  let ?it = "it\<lparr>input := bs\<rparr>"
  have "log_next N it = log_next N ?it"
    using skip.hyps(1) skip.prems by (subst log_next.simps) (simp add: skipped_def)
  then have "log_collect N it acc = log_collect N ?it acc"
    by (subst (1 2) log_collect.simps) simp
  then show ?case using skip.IH [of ?it acc] skip.prems by simp
next
  case (enter t e bs es)
  let ?it = "it\<lparr>input := bs\<rparr>"
  have "log_next N it = Some (Ok (?it, Some (Ok e)))"
    using enter.hyps(1) enter.prems by (subst log_next.simps) (simp add: entered_def)
  then have "log_collect N it acc = log_collect N ?it (Ok e # acc)"
    by (subst log_collect.simps) simp
  then show ?case using enter.IH [of ?it "Ok e # acc"] enter.prems by simp
qed


section \<open>Lines\<close>

definition prefixed :: "u8 list \<Rightarrow> u8 list \<Rightarrow> bool" where
  "prefixed t l \<longleftrightarrow> take (length t) l = t"

lemma take_line:
  assumes "c \<notin> set t"
  shows "take (length t) (l @ c # r) = t \<longleftrightarrow> prefixed t l"
proof (cases "length t \<le> length l")
  case False
  then have "c \<in> set (take (length t) (l @ c # r))" by (cases "length t - length l") auto
  moreover have "take (length t) l = l" using False by simp
  ultimately show ?thesis using assms False by (metis linorder_le_cases order_refl prefixed_def)
qed (simp add: prefixed_def)

definition header_names :: "u8 list list" where
  "header_names = [ascii ''[StartTime: '', ascii ''[BaseTime: '']"

text \<open>A comment that is not taken for a header.\<close>

definition plain_comment :: "u8 list \<Rightarrow> bool" where
  "plain_comment l \<longleftrightarrow> (\<forall>t \<in> set header_names. \<not> prefixed t l)"

lemma interval_hist_not_digit:
  assumes "nom_documented N" and "c \<noteq> 43" and "c \<noteq> 46" and "c \<noteq> 84" and "\<not> is_digit c"
  shows "interval_hist N (c # r) = Err ()"
  using assms(4) fract_sec_duration_not_digit [OF assms(1-3,5), of r]
  by (simp add: interval_hist_def tag_parser_def tag_bytes_def nom_laws [OF assms(1)])

lemma comment_skipped:
  assumes "nom_documented N" and "10 \<notin> set l" and "plain_comment l"
  shows "skipped N (ascii ''#'' @ l @ [10])"
  unfolding skipped_def
proof (intro conjI allI)
  fix r
  note n = nom_laws [OF assms(1)]
  let ?i = "35 # l @ 10 # r"
  have "nom_tag N (ascii ''#[StartTime: '') ?i = Err ()" "nom_tag N (ascii ''#[BaseTime: '') ?i = Err ()"
    using assms(3) take_line [of 10 "ascii ''[StartTime: ''" l r] take_line [of 10 "ascii ''[BaseTime: ''" l r]
    by (simp_all add: n plain_comment_def header_names_def)
  then have "start_time N ?i = Err ()" "base_time N ?i = Err ()"
    by (simp_all only: start_time_def base_time_def bind_res.simps)
  moreover have "interval_hist N ?i = Err ()" using assms(1) by (rule interval_hist_not_digit) simp_all
  ultimately show "parse_log_entry N ((ascii ''#'' @ l @ [10]) @ r) = Err ()"
    by (simp add: parse_log_entry_def n)
  show "ignored_line N ((ascii ''#'' @ l @ [10]) @ r) = Ok (r, ())"
    using until_char [OF assms(2), of r] by (simp add: ignored_line_def comment_line_def n)
qed simp

lemma header_entered:
  assumes "nom_documented N" and "fmt_documented fmt3"
    and "unat (secs d) < 2 ^ 40" and "unat (subsec_nanos d) < 1000000000"
  obtains d' where "logged_as d d'"
    and "entered N (ascii ''#[StartTime: '' @ fmt3 (duration_as_fp_seconds d) @ ascii '' (seconds since epoch)]'' @ [10]) (StartTime d')"
    and "entered N (ascii ''#[BaseTime: '' @ fmt3 (duration_as_fp_seconds d) @ ascii '' (seconds since epoch)]'' @ [10]) (BaseTime d')"
proof -
  note l = nom_laws [OF assms(1)]
  obtain n m where t: "fmt3 (duration_as_fp_seconds d) = decimal n @ [46] @ three_digits m" "m < 1000" "n < 2 ^ 41"
    and d': "logged_as d \<lparr>secs = of_nat n, subsec_nanos = of_nat (m * 1000000)\<rparr>"
    by (rule logged_text [OF assms(2-4)])
  let ?rest = "ascii '' (seconds since epoch)]''"
  have n: "n < 2 ^ 64" using t(3) by simp
  have f: "fract_sec_duration N (decimal n @ [46] @ three_digits m @ ?rest @ [10] @ r)
    = Ok (?rest @ [10] @ r, \<lparr>secs = of_nat n, subsec_nanos = of_nat (m * 1000000)\<rparr>)" for r
    using fract_sec_duration_text [OF assms(1) t(2) n] by simp
  show thesis
  proof (rule that [OF d'])
    show "entered N (ascii ''#[StartTime: '' @ fmt3 (duration_as_fp_seconds d) @ ?rest @ [10])
        (StartTime \<lparr>secs = of_nat n, subsec_nanos = of_nat (m * 1000000)\<rparr>)"
      using f by (simp add: entered_def t(1) parse_log_entry_def start_time_def l del: of_nat_mult)
    show "entered N (ascii ''#[BaseTime: '' @ fmt3 (duration_as_fp_seconds d) @ ?rest @ [10])
        (BaseTime \<lparr>secs = of_nat n, subsec_nanos = of_nat (m * 1000000)\<rparr>)"
      using f by (simp add: entered_def t(1) parse_log_entry_def start_time_def base_time_def l del: of_nat_mult)
  qed
qed


text \<open>The maximum as it comes back: the double nearest a number of thousandths nearest the one written.\<close>

definition logged_max :: "f64 \<Rightarrow> f64 \<Rightarrow> bool" where
  "logged_max x x' \<longleftrightarrow>
     (\<exists>y k. x = Fin y \<and> x' = f64_round (of_nat k / 1000) \<and> \<bar>of_nat k - 1000 * y\<bar> \<le> 1 / 2)"

text \<open>An entry as written, and as it comes back.\<close>

fun logged_entry :: "log_entry \<Rightarrow> log_entry \<Rightarrow> bool" where
  "logged_entry (StartTime d) (StartTime d') \<longleftrightarrow> logged_as d d'"
| "logged_entry (BaseTime d) (BaseTime d') \<longleftrightarrow> logged_as d d'"
| "logged_entry (Interval i) (Interval i') \<longleftrightarrow>
     log_tag i' = log_tag i \<and> encoded_histogram i' = encoded_histogram i
     \<and> logged_as (start_timestamp i) (start_timestamp i') \<and> logged_as (log_duration i) (log_duration i')
     \<and> logged_max (log_max i) (log_max i')"
| "logged_entry _ _ \<longleftrightarrow> False"

definition short_duration :: "duration \<Rightarrow> bool" where
  "short_duration d \<longleftrightarrow> unat (secs d) < 2 ^ 40 \<and> unat (subsec_nanos d) < 1000000000"

definition tag_ok :: "tag option \<Rightarrow> bool" where
  "tag_ok t \<longleftrightarrow> (case t of None \<Rightarrow> True | Some s \<Rightarrow> tag_new s = Some s \<and> utf8 s)"

lemma starts_with_digit:
  obtains c u where "decimal n @ r = c # u" and "is_digit c"
  using decimal_facts [of n] by (cases "decimal n") auto

lemma is_digit_neq: "is_digit c \<Longrightarrow> c \<noteq> 35 \<and> c \<noteq> 84"
  by (auto simp: is_digit_def)

lemma headers_other:
  assumes "nom_documented N" and "c \<noteq> 35"
  shows "start_time N (c # r) = Err ()" and "base_time N (c # r) = Err ()"
  using assms(2) by (simp_all add: start_time_def base_time_def nom_laws [OF assms(1)])

lemma opt_tag_text:
  assumes "nom_documented N" and "tag_ok t" and "is_digit c"
  shows "nom_opt N (tag_parser N) ((case t of None \<Rightarrow> [] | Some s \<Rightarrow> ascii ''Tag='' @ s @ [44]) @ c # r) = Ok (c # r, t)"
proof (cases t)
  case None
  then show ?thesis
    using is_digit_neq [OF assms(3)] by (simp add: tag_parser_def tag_bytes_def nom_laws [OF assms(1)])
next
  case (Some s)
  then have "44 \<notin> set s" and "utf8 s"
    using assms(2) by (auto simp: tag_ok_def tag_new_def list_ex_iff split: if_splits)
  then show ?thesis
    using Some until_char [of 44 s "c # r"]
    by (simp add: tag_parser_def tag_bytes_def nom_laws [OF assms(1)] from_utf8_def)
qed

text \<open>The line of an interval as its parser sees it: the tag, three numbers, the histogram.\<close>

definition line_tail :: "nat \<Rightarrow> nat \<Rightarrow> nat \<Rightarrow> nat \<Rightarrow> nat \<Rightarrow> nat \<Rightarrow> u8 list \<Rightarrow> u8 list" where
  "line_tail n m n' m' k j text = decimal n @ [46] @ three_digits m @ [44] @ decimal n' @ [46] @ three_digits m' @ [44]
    @ decimal k @ [46] @ three_digits j @ [44] @ text @ [10]"

definition line_tag :: "u8 list option \<Rightarrow> u8 list" where
  "line_tag t = (case t of None \<Rightarrow> [] | Some s \<Rightarrow> ascii ''Tag='' @ s @ [44])"

lemma interval_line:
  fixes t :: "u8 list option"
  assumes "nom_documented N" and "tag_ok t" and "n < 2 ^ 64" and "m < 1000" and "n' < 2 ^ 64" and "m' < 1000"
    and "j < 1000" and "10 \<notin> set text" and "utf8 text"
  shows "parse_log_entry N (line_tag t @ line_tail n m n' m' k j text @ r) =
    Ok (r, Interval \<lparr>log_tag = t, start_timestamp = \<lparr>secs = of_nat n, subsec_nanos = of_nat (m * 1000000)\<rparr>,
      log_duration = \<lparr>secs = of_nat n', subsec_nanos = of_nat (m' * 1000000)\<rparr>,
      log_max = f64_round (of_nat (1000 * k + j) / 1000), encoded_histogram = text\<rparr>)"
    (is "_ = Ok (r, ?e)")
proof -
  note l = nom_laws [OF assms(1)]
  let ?tail = "line_tail n m n' m' k j text @ r"
  obtain c u where c: "?tail = c # u" "is_digit c"
    unfolding line_tail_def append_assoc by (rule starts_with_digit)
  have o: "nom_opt N (tag_parser N) (line_tag t @ ?tail) = Ok (?tail, t)"
    unfolding c(1) line_tag_def by (rule opt_tag_text [OF assms(1,2) c(2)])
  have sep: "[44] @ i = [] \<or> \<not> is_digit (hd ([44] @ i))" for i by simp
  note f = fract_sec_duration_text [OF assms(1,4,3) sep] fract_sec_duration_text [OF assms(1,6,5) sep]
  have comma: "nom_char N 44 ([44] @ i) = Ok (i, 44)" for i by (simp add: l(2))
  have e: "nom_map_str N (nom_take_until N [10]) from_utf8 (text @ [10] @ r) = Ok ([10] @ r, text)"
    using until_char [OF assms(8), of r] assms(9) by (simp add: l(3,9) from_utf8_def)
  have end1: "nom_take N 1 ([10] @ r) = Ok (r, [10])" by (simp add: l(4))
  have parse: "interval_hist N (line_tag t @ ?tail) = Ok (r, ?e)"
    unfolding interval_hist_def o
    by (simp only: line_tail_def append_assoc bind_res.simps prod.case f comma l(16) [OF assms(7)] e end1)
  obtain c u where "line_tag t @ ?tail = c # u" "c \<noteq> 35"
  proof (cases t)
    case None
    then show thesis using c is_digit_neq [of c] by (intro that [of c u]) (simp_all add: line_tag_def)
  next
    case (Some s)
    then show thesis by (intro that [of 84]) (simp_all add: line_tag_def)
  qed
  then show ?thesis using headers_other [OF assms(1)] parse by (simp add: parse_log_entry_def l)
qed

lemma interval_entered:
  assumes "nom_documented N" and "fmt_documented fmt3"
    and "short_duration start" and "short_duration dur" and "tag_ok t" and "0 \<le> x"
    and "10 \<notin> set text" and "utf8 text"
  obtains e where "entered N (interval_prefix fmt3 t start dur (Fin x) @ text @ [10]) e"
    and "logged_entry (Interval \<lparr>log_tag = t, start_timestamp = start, log_duration = dur,
      log_max = Fin x, encoded_histogram = text\<rparr>) e"
proof -
  obtain n m where t1: "fmt3 (duration_as_fp_seconds start) = decimal n @ [46] @ three_digits m" "m < 1000" "n < 2 ^ 41"
    and d1: "logged_as start \<lparr>secs = of_nat n, subsec_nanos = of_nat (m * 1000000)\<rparr>"
    using assms(3) unfolding short_duration_def by (elim conjE) (rule logged_text [OF assms(2)])
  obtain n' m' where t2: "fmt3 (duration_as_fp_seconds dur) = decimal n' @ [46] @ three_digits m'" "m' < 1000" "n' < 2 ^ 41"
    and d2: "logged_as dur \<lparr>secs = of_nat n', subsec_nanos = of_nat (m' * 1000000)\<rparr>"
    using assms(4) unfolding short_duration_def by (elim conjE) (rule logged_text [OF assms(2)])
  obtain k j where t3: "fmt3 (Fin x) = decimal k @ [46] @ three_digits j" "j < 1000"
    "\<bar>of_nat (1000 * k + j) - 1000 * x\<bar> \<le> 1 / 2"
    using assms(2,6) by (auto simp: fmt_documented_def)
  let ?e = "Interval \<lparr>log_tag = t, start_timestamp = \<lparr>secs = of_nat n, subsec_nanos = of_nat (m * 1000000)\<rparr>,
      log_duration = \<lparr>secs = of_nat n', subsec_nanos = of_nat (m' * 1000000)\<rparr>,
      log_max = f64_round (of_nat (1000 * k + j) / 1000), encoded_histogram = text\<rparr>"
  have n: "n < 2 ^ 64" "n' < 2 ^ 64" using t1(3) t2(3) by simp_all
  have "interval_prefix fmt3 t start dur (Fin x) @ text @ [10] = line_tag t @ line_tail n m n' m' k j text"
    by (simp add: interval_prefix_def t1(1) t2(1) t3(1) line_tag_def line_tail_def)
  then have "entered N (interval_prefix fmt3 t start dur (Fin x) @ text @ [10]) ?e"
    using interval_line [OF assms(1,5) n(1) t1(2) n(2) t2(2) t3(2) assms(7,8)] by (simp add: entered_def line_tail_def)
  moreover have "logged_max (Fin x) (f64_round (of_nat (1000 * k + j) / 1000))"
    using t3(3) unfolding logged_max_def by blast
  ultimately show thesis using d1 d2 by (intro that [of ?e]) simp_all
qed

end
