(* ===== verification/Log_Roundtrip.thy ===== *)
theory Log_Roundtrip
  imports Log_Lines
begin

text \<open>
  What the writer of an interval log writes, the iterator reads back
  (\<open>serialization/interval_log/mod.rs\<close>): entries in order, tags and encoded histograms as they were,
  timestamps to the millisecond.
\<close>

section \<open>A client of the writer\<close>

text \<open>Comments and histograms written one after the other into a vector, behind the headers.\<close>

datatype 'c log_op = Comment "u8 list" | Hist "'c histogram" duration duration "tag option"

definition vec_write_all :: "u8 list write_all" where
  "vec_write_all w bs = Ok (w @ bs)"

fun write_ops where
  "write_ops fmt3 b64enc serialize lw [] = Ok lw"
| "write_ops fmt3 b64enc serialize lw (Comment s # ops) =
     bind_res (map_err (\<lambda>(e, w). (LogIoError e, w)) (write_comment vec_write_all lw s)) (\<lambda>lw'.
       write_ops fmt3 b64enc serialize lw' ops)"
| "write_ops fmt3 b64enc serialize lw (Hist h start dur t # ops) =
     bind_res (write_histogram vec_write_all fmt3 b64enc serialize lw h start dur t) (\<lambda>lw'.
       write_ops fmt3 b64enc serialize lw' ops)"

definition configured :: "u8 list list \<Rightarrow> duration option \<Rightarrow> duration option \<Rightarrow> rat \<Rightarrow> log_builder" where
  "configured cs st bt dv =
     (let b1 = foldl add_comment builder_new cs;
          b2 = (case st of None \<Rightarrow> b1 | Some d \<Rightarrow> with_start_time b1 (Ok d));
          b3 = (case bt of None \<Rightarrow> b2 | Some d \<Rightarrow> with_base_time b2 (Ok d))
      in with_max_value_divisor b3 (Fin dv))"

definition log_written where
  "log_written fmt3 b64enc serialize ser cs st bt dv ops =
     bind_res (map_err (\<lambda>(e, w). (LogIoError e, w))
       (begin_log_with vec_write_all fmt3 (configured cs st bt dv) [] ser)) (\<lambda>lw. write_ops fmt3 b64enc serialize lw ops)"

text \<open>The entries of the log as they were given to the writer; \<open>ser_bytes\<close> is what the serializer makes of a histogram.\<close>

definition hist_entry ::
  "(u8 list \<Rightarrow> u8 list) \<Rightarrow> ('c histogram \<Rightarrow> u8 list) \<Rightarrow> rat \<Rightarrow> 'c histogram \<Rightarrow> duration \<Rightarrow> duration \<Rightarrow> tag option \<Rightarrow> log_entry" where
  "hist_entry b64enc ser_bytes dv h start dur t =
     Interval \<lparr>log_tag = t, start_timestamp = start, log_duration = dur,
       log_max = f64_div (u64_as_f64 (hist_max h)) (Fin dv), encoded_histogram = b64enc (ser_bytes h)\<rparr>"

fun ops_entries where
  "ops_entries b64enc ser_bytes dv [] = []"
| "ops_entries b64enc ser_bytes dv (Comment s # ops) = ops_entries b64enc ser_bytes dv ops"
| "ops_entries b64enc ser_bytes dv (Hist h start dur t # ops) =
     hist_entry b64enc ser_bytes dv h start dur t # ops_entries b64enc ser_bytes dv ops"

definition log_entries where
  "log_entries b64enc ser_bytes st bt dv ops =
     (case st of None \<Rightarrow> [] | Some d \<Rightarrow> [StartTime d]) @ (case bt of None \<Rightarrow> [] | Some d \<Rightarrow> [BaseTime d])
       @ ops_entries b64enc ser_bytes dv ops"

fun op_ok :: "'c log_op \<Rightarrow> bool" where
  "op_ok (Comment s) \<longleftrightarrow> list_all plain_comment (split_at 10 s)"
| "op_ok (Hist h start dur t) \<longleftrightarrow> short_duration start \<and> short_duration dur \<and> tag_ok t"

text \<open>A serializer makes the bytes \<open>ser_bytes h\<close> of a histogram; base 64 is ASCII without line ends.\<close>

fun op_serialized :: "('s, 'c, 'e) serialize \<Rightarrow> ('c histogram \<Rightarrow> u8 list) \<Rightarrow> 'c log_op \<Rightarrow> bool" where
  "op_serialized serialize ser_bytes (Comment s) \<longleftrightarrow> True"
| "op_serialized serialize ser_bytes (Hist h start dur t) \<longleftrightarrow> (\<forall>s. \<exists>s' n. serialize s h [] = Ok (s', ser_bytes h, n))"

definition line_encoding :: "(u8 list \<Rightarrow> u8 list) \<Rightarrow> bool" where
  "line_encoding b64enc \<longleftrightarrow> (\<forall>bs. \<forall>b \<in> set (b64enc bs). b \<noteq> 10 \<and> b < 0x80)"

text \<open>A writer that has appended a text which reads as entries like those given.\<close>

definition appended :: "nom \<Rightarrow> (u8 list, 's) log_writer \<Rightarrow> (u8 list, 's) log_writer \<Rightarrow> log_entry list \<Rightarrow> bool" where
  "appended N lw lw' es \<longleftrightarrow> max_value_divisor lw' = max_value_divisor lw \<and>
     (\<exists>t es'. out lw' = out lw @ t \<and> log_text N t es' \<and> list_all2 logged_entry es es')"

lemma appended_refl: "appended N lw lw []"
  by (auto simp: appended_def intro: log_text.none)

lemma appended_trans:
  assumes "appended N a b es" and "appended N b c fs"
  shows "appended N a c (es @ fs)"
proof -
  obtain t es' u fs' where t: "out b = out a @ t" "log_text N t es'" "list_all2 logged_entry es es'"
    and u: "out c = out b @ u" "log_text N u fs'" "list_all2 logged_entry fs fs'"
    using assms unfolding appended_def by blast
  then have "out c = out a @ t @ u" "log_text N (t @ u) (es' @ fs')" "list_all2 logged_entry (es @ fs) (es' @ fs')"
    using log_text_append by (auto intro: list_all2_appendI)
  then show ?thesis using assms unfolding appended_def by auto
qed

lemma write_text_vec: "write_text vec_write_all lw t = Ok (lw\<lparr>out := out lw @ t\<rparr>)"
  by (simp add: write_text_def vec_write_all_def)

lemma write_lines_appends:
  assumes "nom_documented N" and "\<forall>l \<in> set ls. 10 \<notin> set l \<and> plain_comment l"
  shows "\<exists>lw'. write_lines vec_write_all lw ls = Ok lw' \<and> appended N lw lw' []"
  using assms(2)
proof (induction ls arbitrary: lw)
  case (Cons l ls)
  let ?lw = "lw\<lparr>out := out lw @ ascii ''#'' @ l @ [10]\<rparr>"
  have "skipped N (ascii ''#'' @ l @ [10])" using Cons.prems comment_skipped [OF assms(1), of l] by simp
  then have "appended N lw ?lw []"
    unfolding appended_def by (intro conjI exI [of _ "ascii ''#'' @ l @ [10]"] exI [of _ "[]"] log_text_skipped) simp_all
  moreover obtain lw' where "write_lines vec_write_all ?lw ls = Ok lw'" "appended N ?lw lw' []"
    using Cons by (metis list.set_intros(2))
  ultimately show ?case using appended_trans [of N lw ?lw "[]" lw' "[]"] by (simp add: write_text_vec)
qed (simp add: appended_refl)

lemma write_comment_appends:
  assumes "nom_documented N" and "list_all plain_comment (split_at 10 s)"
  shows "\<exists>lw'. write_comment vec_write_all lw s = Ok lw' \<and> appended N lw lw' []"
  unfolding write_comment_def
  using assms split_at_lines by (intro write_lines_appends) (auto simp: list_all_iff)

lemma write_comments_appends:
  assumes "nom_documented N" and "\<forall>s \<in> set cs. list_all plain_comment (split_at 10 s)"
  shows "\<exists>lw'. write_comments vec_write_all lw cs = Ok lw' \<and> appended N lw lw' []"
  using assms(2)
proof (induction cs arbitrary: lw)
  case (Cons s cs)
  obtain lw1 where "write_comment vec_write_all lw s = Ok lw1" "appended N lw lw1 []"
    using write_comment_appends [OF assms(1)] Cons.prems by (metis list.set_intros(1))
  moreover obtain lw' where "write_comments vec_write_all lw1 cs = Ok lw'" "appended N lw1 lw' []"
    using Cons by (metis list.set_intros(2))
  ultimately show ?case using appended_trans [of N lw lw1 "[]" lw' "[]"] by simp
qed (simp add: appended_refl)


lemma appendedI:
  assumes "log_text N t es'" and "list_all2 logged_entry es es'"
  shows "appended N lw (lw\<lparr>out := out lw @ t\<rparr>) es"
  using assms unfolding appended_def by (intro conjI exI [of _ t] exI [of _ es']) simp_all

lemma header_appends:
  assumes "nom_documented N" and "fmt_documented fmt3" and "short_duration d"
  shows "\<exists>lw'. write_header vec_write_all fmt3 lw ''#[StartTime: '' (duration_as_fp_seconds d) '' (seconds since epoch)]'' = Ok lw'
      \<and> appended N lw lw' [StartTime d]"
    and "\<exists>lw'. write_header vec_write_all fmt3 lw ''#[BaseTime: '' (duration_as_fp_seconds d) '' (seconds since epoch)]'' = Ok lw'
      \<and> appended N lw lw' [BaseTime d]"
proof -
  obtain d' where d: "logged_as d d'"
    "entered N (ascii ''#[StartTime: '' @ fmt3 (duration_as_fp_seconds d) @ ascii '' (seconds since epoch)]'' @ [10]) (StartTime d')"
    "entered N (ascii ''#[BaseTime: '' @ fmt3 (duration_as_fp_seconds d) @ ascii '' (seconds since epoch)]'' @ [10]) (BaseTime d')"
    using assms(3) unfolding short_duration_def by (elim conjE) (rule header_entered [OF assms(1,2)])
  have "list_all2 logged_entry [StartTime d] [StartTime d']" "list_all2 logged_entry [BaseTime d] [BaseTime d']"
    using d(1) by simp_all
  note a = appendedI [OF log_text_entered [OF d(2)] this(1)] appendedI [OF log_text_entered [OF d(3)] this(2)]
  show "\<exists>lw'. write_header vec_write_all fmt3 lw ''#[StartTime: '' (duration_as_fp_seconds d) '' (seconds since epoch)]'' = Ok lw'
      \<and> appended N lw lw' [StartTime d]"
    unfolding write_header_def write_text_vec by (rule exI, rule conjI, rule refl, rule a(1))
  show "\<exists>lw'. write_header vec_write_all fmt3 lw ''#[BaseTime: '' (duration_as_fp_seconds d) '' (seconds since epoch)]'' = Ok lw'
      \<and> appended N lw lw' [BaseTime d]"
    unfolding write_header_def write_text_vec by (rule exI, rule conjI, rule refl, rule a(2))
qed

lemma divisor_header_appends:
  assumes "nom_documented N" and "fmt_documented fmt3" and "0 \<le> x"
  shows "\<exists>lw'. write_header vec_write_all fmt3 lw ''#[MaxValueDivisor: '' (Fin x) '']'' = Ok lw' \<and> appended N lw lw' []"
proof -
  obtain n m where f: "m < 1000" "fmt3 (Fin x) = decimal n @ [46] @ three_digits m"
    using assms(2,3) by (auto simp: fmt_documented_def)
  let ?l = "ascii ''[MaxValueDivisor: '' @ (decimal n @ [46] @ three_digits m) @ ascii '']''"
  have "10 \<notin> set (decimal n)" "10 \<notin> set (three_digits m)"
    using digit_ge [of _ 10] decimal_facts [of n] three_digits_facts(1) [OF f(1)] by simp_all
  then have "10 \<notin> set ?l" by simp
  moreover have "plain_comment ?l" by (simp add: plain_comment_def header_names_def prefixed_def)
  ultimately have "skipped N (ascii ''#'' @ ?l @ [10])" by (rule comment_skipped [OF assms(1)])
  moreover have "ascii ''#[MaxValueDivisor: '' @ fmt3 (Fin x) @ ascii '']'' @ [10] = ascii ''#'' @ ?l @ [10]"
    by (simp add: f(2))
  ultimately show ?thesis
    unfolding write_header_def write_text_vec
    by (metis appendedI list.rel_intros(1) log_text_skipped)
qed

lemma configured_fields:
  "comments (configured cs st bt dv) = cs"
  "builder_start_time (configured cs st bt dv) = map_option duration_as_fp_seconds st"
  "builder_base_time (configured cs st bt dv) = map_option duration_as_fp_seconds bt"
  "builder_max_value_divisor (configured cs st bt dv) = Fin dv"
proof -
  have c: "foldl add_comment b cs = b\<lparr>comments := comments b @ cs\<rparr>" for b
    by (induction cs arbitrary: b) (simp_all add: add_comment_def)
  show "comments (configured cs st bt dv) = cs"
    "builder_start_time (configured cs st bt dv) = map_option duration_as_fp_seconds st"
    "builder_base_time (configured cs st bt dv) = map_option duration_as_fp_seconds bt"
    "builder_max_value_divisor (configured cs st bt dv) = Fin dv"
    by (simp_all add: configured_def Let_def c builder_new_def with_start_time_def with_base_time_def
        with_max_value_divisor_def system_time_as_fp_seconds_def split: option.split)
qed

lemma begin_log_appends:
  fixes ser :: 's
  assumes "nom_documented N" and "fmt_documented fmt3" and "0 \<le> dv"
    and "\<forall>s \<in> set cs. list_all plain_comment (split_at 10 s)"
    and "pred_option short_duration st" and "pred_option short_duration bt"
  shows "\<exists>lw es'. begin_log_with vec_write_all fmt3 (configured cs st bt dv) [] ser = Ok lw \<and> max_value_divisor lw = Fin dv \<and>
    log_text N (out lw) es' \<and>
    list_all2 logged_entry ((case st of None \<Rightarrow> [] | Some d \<Rightarrow> [StartTime d]) @ (case bt of None \<Rightarrow> [] | Some d \<Rightarrow> [BaseTime d])) es'"
proof -
  let ?w = "write_header vec_write_all fmt3"
  let ?lw = "\<lparr>out = [], serializer = ser, text_buf = [], serialize_buf = [], max_value_divisor = Fin dv\<rparr>"
  obtain lw1 where 1: "write_comments vec_write_all ?lw cs = Ok lw1" "appended N ?lw lw1 []"
    using write_comments_appends [OF assms(1,4)] by blast
  obtain lw2 where 2: "(case map_option duration_as_fp_seconds st of None \<Rightarrow> Ok lw1
      | Some x \<Rightarrow> ?w lw1 ''#[StartTime: '' x '' (seconds since epoch)]'') = Ok lw2"
    "appended N lw1 lw2 (case st of None \<Rightarrow> [] | Some d \<Rightarrow> [StartTime d])"
    using header_appends(1) [OF assms(1,2)] assms(5) appended_refl by (cases st) fastforce+
  obtain lw3 where 3: "(case map_option duration_as_fp_seconds bt of None \<Rightarrow> Ok lw2
      | Some x \<Rightarrow> ?w lw2 ''#[BaseTime: '' x '' (seconds since epoch)]'') = Ok lw3"
    "appended N lw2 lw3 (case bt of None \<Rightarrow> [] | Some d \<Rightarrow> [BaseTime d])"
    using header_appends(2) [OF assms(1,2)] assms(6) appended_refl by (cases bt) fastforce+
  have "\<exists>lw4. (if \<not> f64_eq (Fin dv) (Fin 1) then ?w lw3 ''#[MaxValueDivisor: '' (Fin dv) '']'' else Ok lw3) = Ok lw4
      \<and> appended N lw3 lw4 []"
    using divisor_header_appends [OF assms(1-3), of lw3] by (cases "dv = 1") (simp_all add: appended_refl)
  then obtain lw4 where 4: "(if \<not> f64_eq (Fin dv) (Fin 1) then ?w lw3 ''#[MaxValueDivisor: '' (Fin dv) '']'' else Ok lw3) = Ok lw4"
    "appended N lw3 lw4 []" by blast
  have "appended N ?lw lw4 ([] @ (case st of None \<Rightarrow> [] | Some d \<Rightarrow> [StartTime d]) @ (case bt of None \<Rightarrow> [] | Some d \<Rightarrow> [BaseTime d]) @ [])"
    by (rule appended_trans [OF 1(2) appended_trans [OF 2(2) appended_trans [OF 3(2) 4(2)]]])
  moreover have "begin_log_with vec_write_all fmt3 (configured cs st bt dv) [] ser = Ok lw4"
    unfolding begin_log_with_def configured_fields Let_def
    by (simp only: 1(1) bind_res.simps 2(1) 3(1) 4(1))
  ultimately show ?thesis by (auto simp: appended_def)
qed

lemma max_quotient:
  assumes "1 \<le> dv"
  shows "\<exists>x. f64_div (u64_as_f64 w) (Fin dv) = Fin x \<and> 0 \<le> x"
proof -
  let ?a = "of_nat (nat_as_f64 (unat w)) :: rat"
  have "unat w \<le> 2 ^ 64" using unat_u64_less [of w] by simp
  then have "nat_as_f64 (unat w) \<le> 2 ^ 64" by (rule nat_as_f64_le)
  then have "?a \<le> of_nat (2 ^ 64)" by (simp only: of_nat_le_iff)
  moreover have "?a / dv \<le> ?a" using assms by (simp add: divide_le_eq mult_left_le_one_le mult_le_cancel_left1)
  ultimately have less: "?a / dv < 2 ^ 65" by simp
  obtain y where "f64_round (?a / dv) = Fin y" "0 \<le> y"
    by (rule f64_round_near [of "?a / dv" 65]) (use assms less in simp_all)
  then show ?thesis using assms by (simp add: u64_as_f64_def)
qed


lemma write_histogram_appends:
  assumes "nom_documented N" and "fmt_documented fmt3" and "1 \<le> dv"
    and "line_encoding b64enc"
    and "op_serialized serialize ser_bytes (Hist h start dur t)"
    and "op_ok (Hist h start dur t)" and "max_value_divisor lw = Fin dv"
  shows "\<exists>lw'. write_histogram vec_write_all fmt3 b64enc serialize lw h start dur t = Ok lw'
    \<and> appended N lw lw' [hist_entry b64enc ser_bytes dv h start dur t]"
proof -
  obtain x where x: "f64_div (u64_as_f64 (hist_max h)) (Fin dv) = Fin x" "0 \<le> x"
    using max_quotient [OF assms(3)] by blast
  obtain s' n where ser: "serialize (serializer lw) h [] = Ok (s', ser_bytes h, n)" using assms(5) unfolding op_serialized.simps by blast
  let ?text = "b64enc (ser_bytes h)"
  have "10 \<notin> set ?text" "utf8 ?text" using assms(4) by (auto simp: line_encoding_def intro: utf8_ascii)
  then obtain e where e: "entered N (interval_prefix fmt3 t start dur (Fin x) @ ?text @ [10]) e"
    "logged_entry (hist_entry b64enc ser_bytes dv h start dur t) e"
    using assms(6) unfolding hist_entry_def x(1)
    by (auto elim: interval_entered [OF assms(1,2) _ _ _ x(2), of start dur t ?text])
  have "\<exists>lw'. write_histogram vec_write_all fmt3 b64enc serialize lw h start dur t = Ok lw'
      \<and> out lw' = out lw @ interval_prefix fmt3 t start dur (Fin x) @ ?text @ [10]
      \<and> max_value_divisor lw' = max_value_divisor lw"
    using x(1) ser assms(7) by (simp add: write_histogram_def write_text_vec Let_def)
  then show ?thesis
    using log_text_entered [OF e(1)] e(2) unfolding appended_def by fastforce
qed

lemma write_op_appends:
  assumes "nom_documented N" and "fmt_documented fmt3" and "1 \<le> dv"
    and "line_encoding b64enc"
    and "op_serialized serialize ser_bytes op"
    and "op_ok op" and "max_value_divisor lw = Fin dv"
  shows "\<exists>lw'. write_ops fmt3 b64enc serialize lw (op # ops) = write_ops fmt3 b64enc serialize lw' ops
    \<and> appended N lw lw' (ops_entries b64enc ser_bytes dv [op])"
proof (cases op)
  case (Comment s)
  then obtain lw' where "write_comment vec_write_all lw s = Ok lw'" "appended N lw lw' []"
    using write_comment_appends [OF assms(1), of s lw] assms(6) by auto
  then show ?thesis using Comment by (intro exI [of _ lw']) simp
next
  case (Hist h start dur t)
  then obtain lw' where "write_histogram vec_write_all fmt3 b64enc serialize lw h start dur t = Ok lw'"
    "appended N lw lw' [hist_entry b64enc ser_bytes dv h start dur t]"
    using write_histogram_appends [OF assms(1-4) _ _ assms(7)] assms(5,6) by blast
  then show ?thesis using Hist by (intro exI [of _ lw']) simp
qed

lemma ops_entries_Cons:
  "ops_entries b64enc ser_bytes dv (op # ops) = ops_entries b64enc ser_bytes dv [op] @ ops_entries b64enc ser_bytes dv ops"
  by (cases op) simp_all

lemma write_ops_appends:
  assumes "nom_documented N" and "fmt_documented fmt3" and "1 \<le> dv"
    and "line_encoding b64enc"
    and "list_all (op_serialized serialize ser_bytes) ops"
    and "list_all op_ok ops" and "max_value_divisor lw = Fin dv"
  shows "\<exists>lw'. write_ops fmt3 b64enc serialize lw ops = Ok lw' \<and> appended N lw lw' (ops_entries b64enc ser_bytes dv ops)"
  using assms(5-7)
proof (induction ops arbitrary: lw)
  case (Cons op ops)
  obtain lw1 where 1: "write_ops fmt3 b64enc serialize lw (op # ops) = write_ops fmt3 b64enc serialize lw1 ops"
    "appended N lw lw1 (ops_entries b64enc ser_bytes dv [op])"
    using write_op_appends [OF assms(1-4) _ _ Cons.prems(3), of serialize ser_bytes op ops] Cons.prems(1,2) by auto
  then have "max_value_divisor lw1 = Fin dv" using Cons.prems(3) by (simp add: appended_def)
  then obtain lw' where "write_ops fmt3 b64enc serialize lw1 ops = Ok lw'"
    "appended N lw1 lw' (ops_entries b64enc ser_bytes dv ops)"
    using Cons.IH [of lw1] Cons.prems(1,2) by auto
  then show ?case
    using 1 appended_trans [OF 1(2)] by (subst ops_entries_Cons) auto
qed (simp add: appended_refl)

lemma failed_histogram_text:
  assumes "nom_documented N" and "fmt_documented fmt3" and "1 \<le> dv" and "max_value_divisor lw = Fin dv"
    and "op_ok (Hist h start dur t)" and "serialize (serializer lw) h [] = Err (er, s', buf)"
    and "10 \<notin> set c" and "utf8 c"
  obtains lw1 lw2 t' e where
    "write_histogram vec_write_all fmt3 b64enc serialize lw h start dur t = Err (SerializeError er, lw1)"
    and "write_comment vec_write_all lw1 c = Ok lw2" and "out lw2 = out lw @ t'" and "entered N t' e"
    and "logged_entry (hist_entry id (\<lambda>h. ascii ''#'' @ c) dv h start dur t) e"
proof -
  obtain x where x: "f64_div (u64_as_f64 (hist_max h)) (Fin dv) = Fin x" "0 \<le> x"
    using max_quotient [OF assms(3)] by blast
  have "10 \<notin> set (ascii ''#'' @ c)" "utf8 (ascii ''#'' @ c)" using assms(7,8) by simp_all
  then obtain e where e: "entered N (interval_prefix fmt3 t start dur (Fin x) @ (ascii ''#'' @ c) @ [10]) e"
    "logged_entry (hist_entry id (\<lambda>h. ascii ''#'' @ c) dv h start dur t) e"
    using assms(5) unfolding hist_entry_def x(1) id_apply
    by (auto elim: interval_entered [OF assms(1,2) _ _ _ x(2), of start dur t "ascii ''#'' @ c"])
  have line: "split_at 10 c = [c]" using assms(7) by (induction c) simp_all
  let ?p = "interval_prefix fmt3 t start dur (Fin x)"
  have "\<exists>lw1. write_histogram vec_write_all fmt3 b64enc serialize lw h start dur t = Err (SerializeError er, lw1)
      \<and> out lw1 = out lw @ ?p"
    using x(1) assms(4,6) by (simp add: write_histogram_def write_text_vec Let_def)
  then obtain lw1 where w: "write_histogram vec_write_all fmt3 b64enc serialize lw h start dur t = Err (SerializeError er, lw1)"
    "out lw1 = out lw @ ?p" by blast
  show thesis
    by (rule that [of lw1 "lw1\<lparr>out := out lw1 @ ascii ''#'' @ c @ [10]\<rparr>" "?p @ (ascii ''#'' @ c) @ [10]" e])
      (rule w(1), simp only: write_comment_def line write_lines.simps write_text_vec bind_res.simps,
        simp add: w(2), rule e(1), rule e(2))
qed

section \<open>Concrete parsers, formatting and encoding\<close>

definition parse_double :: "f64 parser" where
  "parse_double i =
     (let a = takeWhile is_digit i; r = dropWhile is_digit i
      in case r of
           [] \<Rightarrow> Err ()
         | p # q \<Rightarrow>
             if p = 46 \<and> a \<noteq> [] \<and> takeWhile is_digit q \<noteq> []
             then Ok (dropWhile is_digit q,
                      f64_round (of_nat (digits_value (a @ takeWhile is_digit q)) / 10 ^ length (takeWhile is_digit q)))
             else Err ())"

definition map_opt_parser :: "('a parser) \<Rightarrow> ('a \<Rightarrow> 'b option) \<Rightarrow> 'b parser" where
  "map_opt_parser p f i = bind_res (p i) (\<lambda>(r, x). case f x of Some y \<Rightarrow> Ok (r, y) | None \<Rightarrow> Err ())"

fun first_of :: "'a parser list \<Rightarrow> 'a parser" where
  "first_of [] i = Err ()"
| "first_of (p # ps) i = (case p i of Err _ \<Rightarrow> first_of ps i | r \<Rightarrow> r)"

definition plain_nom :: nom where
  "plain_nom = \<lparr>
     nom_tag = (\<lambda>t i. if take (length t) i = t then Ok (drop (length t) i, t) else Err ()),
     nom_char = (\<lambda>c i. case i of [] \<Rightarrow> Err () | b # r \<Rightarrow> if b = c then Ok (r, b) else Err ()),
     nom_take_until = (\<lambda>t i. if hd t \<in> set i then Ok (dropWhile (\<lambda>b. b \<noteq> hd t) i, takeWhile (\<lambda>b. b \<noteq> hd t) i) else Err ()),
     nom_take = (\<lambda>n i. if n \<le> length i then Ok (drop n i, take n i) else Err ()),
     nom_digits1 = (\<lambda>i. if takeWhile is_digit i = [] then Err () else Ok (dropWhile is_digit i, takeWhile is_digit i)),
     nom_double = parse_double,
     nom_recognize = (\<lambda>p i. bind_res (p i) (\<lambda>(r, x). Ok (r, take (length i - length r) i))),
     nom_complete = (\<lambda>p. p), nom_complete_entry = (\<lambda>p. p),
     nom_map_str = map_opt_parser, nom_map_u64 = map_opt_parser,
     nom_opt = (\<lambda>p i. case p i of Ok (r, x) \<Rightarrow> Ok (r, Some x) | Err e \<Rightarrow> Ok (i, None) | Panic \<Rightarrow> Panic),
     nom_alt = first_of, nom_alt_unit = first_of\<rparr>"

lemma parse_double_text:
  assumes "m < 1000"
  shows "parse_double (decimal n @ [46] @ three_digits m @ [44] @ r) = Ok ([44] @ r, f64_round (of_nat (1000 * n + m) / 1000))"
proof -
  note d = decimal_facts [of n] and t = three_digits_facts [OF assms]
  have "digits_value (ds @ three_digits m) = 1000 * digits_value ds + digits_value (three_digits m)" for ds
    by (simp add: digits_value_def three_digits_def)
  moreover have "takeWhile is_digit (decimal n @ 46 # q) = decimal n" "dropWhile is_digit (decimal n @ 46 # q) = 46 # q" for q
    using digits_then [of "decimal n" "46 # q"] d by simp_all
  moreover have "takeWhile is_digit (three_digits m @ 44 # r) = three_digits m" "dropWhile is_digit (three_digits m @ 44 # r) = 44 # r"
    using digits_then [OF t(1), of "44 # r"] by simp_all
  moreover have "three_digits m \<noteq> []" using t(4) by auto
  ultimately show ?thesis using d t(2,4) by (simp add: parse_double_def)
qed

lemma parse_double_reads: "parse_double i \<noteq> Panic" "parse_double i = Ok (r, x) \<Longrightarrow> \<exists>u. i = u @ r"
proof -
  show "parse_double i \<noteq> Panic" by (simp add: parse_double_def Let_def split: list.split)
  assume "parse_double i = Ok (r, x)"
  then obtain p q where q: "dropWhile is_digit i = p # q" "r = dropWhile is_digit q"
    by (auto simp: parse_double_def Let_def split: list.splits if_splits)
  have "i = takeWhile is_digit i @ p # q" by (simp flip: q(1))
  also have "q = takeWhile is_digit q @ r" by (simp add: q(2))
  finally show "\<exists>u. i = u @ r" by (intro exI [of _ "takeWhile is_digit i @ p # takeWhile is_digit q"]) simp
qed

lemma plain_nom_documented: "nom_documented plain_nom"
  unfolding nom_documented_def
  by (intro conjI allI impI)
    (simp_all add: plain_nom_def map_opt_parser_def parse_double_text [simplified] parse_double_reads split: res.split)


definition plain_fmt3 :: "f64 \<Rightarrow> u8 list" where
  "plain_fmt3 x =
     (case x of
        Fin y \<Rightarrow> (let k = nat \<lfloor>1000 * y + 1 / 2\<rfloor> in decimal (k div 1000) @ [46] @ three_digits (k mod 1000))
      | _ \<Rightarrow> ascii ''inf'')"

lemma plain_fmt3_documented: "fmt_documented plain_fmt3"
  unfolding fmt_documented_def
proof (intro allI impI)
  fix y :: rat assume "0 \<le> y"
  let ?k = "nat \<lfloor>1000 * y + 1 / 2\<rfloor>"
  have "of_nat ?k = (of_int \<lfloor>1000 * y + 1 / 2\<rfloor> :: rat)" using \<open>0 \<le> y\<close> by simp
  then have "\<bar>of_nat ?k - 1000 * y\<bar> \<le> 1 / 2"
    using floor_correct [of "1000 * y + 1 / 2"] unfolding abs_le_iff by linarith
  then show "\<exists>n m. m < 1000 \<and> plain_fmt3 (Fin y) = decimal n @ [46] @ three_digits m \<and> \<bar>of_nat (1000 * n + m) - 1000 * y\<bar> \<le> 1 / 2"
    by (intro exI [of _ "?k div 1000"] exI [of _ "?k mod 1000"]) (simp add: plain_fmt3_def Let_def del: of_nat_add of_nat_mult)
qed

definition b64_char :: "nat \<Rightarrow> u8" where
  "b64_char n = (if n < 26 then of_nat (65 + n) else if n < 52 then of_nat (71 + n)
     else if n < 62 then of_nat (n - 4) else if n = 62 then 43 else 47)"

fun b64_encode :: "u8 list \<Rightarrow> u8 list" where
  "b64_encode (a # b # c # r) =
     (let n = unat a * 65536 + unat b * 256 + unat c
      in map b64_char [n div 262144, n div 4096 mod 64, n div 64 mod 64, n mod 64] @ b64_encode r)"
| "b64_encode [a, b] =
     (let n = unat a * 65536 + unat b * 256 in map b64_char [n div 262144, n div 4096 mod 64, n div 64 mod 64] @ [61])"
| "b64_encode [a] = (let n = unat a * 65536 in map b64_char [n div 262144, n div 4096 mod 64] @ [61, 61])"
| "b64_encode [] = []"

lemma b64_char_line: "b64_char n \<noteq> 10 \<and> b64_char n < 0x80"
proof -
  have a: "(of_nat k :: u8) \<noteq> 10 \<and> (of_nat k :: u8) < 0x80" if "10 < k" "k < 128" for k
  proof -
    have "unat (of_nat k :: u8) = k" using that by (intro unat_of_nat_less) simp
    then show ?thesis using that by (simp add: word_unat_eq_iff word_less_nat_alt)
  qed
  consider "n < 26" | "26 \<le> n" "n < 52" | "52 \<le> n" "n < 62" | "62 \<le> n" by linarith
  then show ?thesis
    by cases (use a [of "65 + n"] a [of "71 + n"] a [of "n - 4"] in \<open>auto simp: b64_char_def simp del: of_nat_add\<close>)
qed

lemma b64_encode_line: "\<forall>b \<in> set (b64_encode bs). b \<noteq> 10 \<and> b < 0x80"
  by (induction bs rule: b64_encode.induct) (auto simp: Let_def b64_char_line)

text \<open>The V2 serializer as the log uses it, on a vector.\<close>

definition v2_log_serialize :: "(v2_serializer, 'c::len word, v2_serialize_error) serialize" where
  "v2_log_serialize s h buf = map_err (\<lambda>e. (e, s, buf)) (v2_serialize vec_write (\<lambda>_. 0) s h buf)"

lemma v2_op_serialized:
  fixes h :: "'c::len word histogram"
  assumes "wf h" and "\<forall>c \<in> set (counts h). unat c < 2 ^ 63"
  shows "op_serialized v2_log_serialize message (Hist h start dur t)"
proof -
  have "\<not> (\<exists>c \<in> set (written_counts h). 2 ^ 63 \<le> unat c)"
    using assms(2) set_written_counts [of h] by fastforce
  then have "\<exists>s' n. v2_serialize vec_write (\<lambda>_. 0) s h [] = Ok (s', message h, n)" for s
    using v2_serialize_vec [OF assms(1), of "\<lambda>_. 0" s "[]"] by auto
  then show ?thesis by (simp add: v2_log_serialize_def)
qed

lemma sample_serialized: "op_serialized v2_log_serialize message (Hist sample start dur t)"
  by (rule v2_op_serialized [OF wf_sample]) (simp add: sample_eq)

section \<open>Properties\<close>

text \<open>
  C39. Reading an interval log ends on every input and never panics: the iterator yields entries, and
  then either nothing more or one \<open>ParseError\<close>, at an offset inside the input where neither an entry
  nor a line to ignore can be parsed.
\<close>

theorem log_iterator_ends:
  assumes "nom_documented N"
  shows "\<exists>es err. log_collect N (log_iterator_new bs) [] = Some (Ok (map Ok es @ err)) \<and>
    (err = [] \<or> (\<exists>off. err = [Err (ParseError off)] \<and> fails_at N bs off))"
  using log_collect_result [OF assms, of bs "log_iterator_new bs" "[]"]
  by (simp add: iterates_def log_iterator_new_def)

theorem log_iterator_ends_witness:
  "\<exists>es err. log_collect plain_nom (log_iterator_new (ascii ''#c'')) [] = Some (Ok (map Ok es @ err)) \<and>
    (err = [] \<or> (\<exists>off. err = [Err (ParseError off)] \<and> fails_at plain_nom (ascii ''#c'') off))"
  by (rule log_iterator_ends [OF plain_nom_documented])

text \<open>
  C12. An interval log round-trips. Whatever comments (none that reads as a header), headers, divisor
  and histograms are written, with timestamps below \<open>2 ^ 40\<close> seconds and tags that \<open>Tag::new\<close>
  accepts, no call fails and the iterator yields the headers and the histograms in the order they were
  written and no error: tags and encoded histograms are the same, timestamps and durations come back
  in whole milliseconds within 0.7 ms, maxima as the double nearest their three decimals.
\<close>

theorem log_roundtrip:
  assumes "nom_documented N" and "fmt_documented fmt3" and "1 \<le> dv"
    and "line_encoding b64enc"
    and "list_all (op_serialized serialize ser_bytes) ops"
    and "\<forall>s \<in> set cs. op_ok (Comment s)" and "list_all op_ok ops"
    and "pred_option short_duration st" and "pred_option short_duration bt"
  shows "\<exists>lw es. log_written fmt3 b64enc serialize ser cs st bt dv ops = Ok lw \<and>
    log_collect N (log_iterator_new (out lw)) [] = Some (Ok (map Ok es)) \<and>
    list_all2 logged_entry (log_entries b64enc ser_bytes st bt dv ops) es"
proof -
  have dv: "0 \<le> dv" and cs: "\<forall>s \<in> set cs. list_all plain_comment (split_at 10 s)" using assms(3,6) by simp_all
  obtain lw1 es1 where 1: "begin_log_with vec_write_all fmt3 (configured cs st bt dv) [] ser = Ok lw1"
    "max_value_divisor lw1 = Fin dv" "log_text N (out lw1) es1"
    "list_all2 logged_entry ((case st of None \<Rightarrow> [] | Some d \<Rightarrow> [StartTime d]) @ (case bt of None \<Rightarrow> [] | Some d \<Rightarrow> [BaseTime d])) es1"
    using begin_log_appends [where ser = ser, OF assms(1,2) dv cs assms(8,9)] by (elim exE conjE) (rule that)
  obtain lw2 where 2: "write_ops fmt3 b64enc serialize lw1 ops = Ok lw2" "appended N lw1 lw2 (ops_entries b64enc ser_bytes dv ops)"
    using write_ops_appends [OF assms(1-5) assms(7) 1(2)] by blast
  obtain t es2 where t: "out lw2 = out lw1 @ t" "log_text N t es2" "list_all2 logged_entry (ops_entries b64enc ser_bytes dv ops) es2"
    using 2(2) unfolding appended_def by blast
  have "log_text N (out lw2) (es1 @ es2)" unfolding t(1) by (rule log_text_append [OF 1(3) t(2)])
  from log_collect_text [OF this, of "log_iterator_new (out lw2)" "[]"]
  have "log_collect N (log_iterator_new (out lw2)) [] = Some (Ok (map Ok (es1 @ es2)))"
    by (simp add: log_iterator_new_def)
  moreover have "list_all2 logged_entry (log_entries b64enc ser_bytes st bt dv ops) (es1 @ es2)"
    unfolding log_entries_def append_assoc [symmetric] by (rule list_all2_appendI [OF 1(4) t(3)])
  moreover have "log_written fmt3 b64enc serialize ser cs st bt dv ops = Ok lw2"
    by (simp add: log_written_def 1(1) 2(1))
  ultimately show ?thesis by blast
qed


definition a_log :: "u64 log_op list" where
  "a_log = [Comment (ascii ''first''),
     Hist sample \<lparr>secs = 1, subsec_nanos = 500000000\<rparr> \<lparr>secs = 12, subsec_nanos = 345678901\<rparr> (Some (ascii ''t''))]"

theorem log_roundtrip_witness:
  "\<exists>lw es. log_written plain_fmt3 b64_encode v2_log_serialize \<lparr>ser_buf = []\<rparr> [ascii ''hi''] (Some \<lparr>secs = 5, subsec_nanos = 0\<rparr>)
      None 1 a_log = Ok lw \<and>
    log_collect plain_nom (log_iterator_new (out lw)) [] = Some (Ok (map Ok es)) \<and>
    list_all2 logged_entry (log_entries b64_encode message (Some \<lparr>secs = 5, subsec_nanos = 0\<rparr>) None 1 a_log) es"
  by (rule log_roundtrip [OF plain_nom_documented plain_fmt3_documented])
    (simp_all add: line_encoding_def b64_encode_line a_log_def sample_serialized
      plain_comment_def header_names_def prefixed_def short_duration_def tag_ok_def tag_new_def
      del: op_serialized.simps(2))

text \<open>
  C40. A histogram that cannot be serialized ruins the line it was to be on. \<open>write_histogram\<close> reports
  the serializer's error when the tag, timestamps and maximum are already written, and does not end
  the line: a comment written next is read back as the histogram of an interval entry.
\<close>

theorem failed_histogram_takes_comment:
  assumes "nom_documented N" and "fmt_documented fmt3" and "1 \<le> dv" and "max_value_divisor lw = Fin dv"
    and "op_ok (Hist h start dur t)" and "serialize (serializer lw) h [] = Err (er, s', buf)"
    and "log_text N (out lw) es" and "10 \<notin> set c" and "utf8 c"
  shows "\<exists>lw1 lw2 e.
    write_histogram vec_write_all fmt3 b64enc serialize lw h start dur t = Err (SerializeError er, lw1) \<and>
    write_comment vec_write_all lw1 c = Ok lw2 \<and>
    log_collect N (log_iterator_new (out lw2)) [] = Some (Ok (map Ok (es @ [e]))) \<and>
    logged_entry (hist_entry id (\<lambda>h. ascii ''#'' @ c) dv h start dur t) e"
proof -
  obtain lw1 lw2 t' e where w:
    "write_histogram vec_write_all fmt3 b64enc serialize lw h start dur t = Err (SerializeError er, lw1)"
    "write_comment vec_write_all lw1 c = Ok lw2" "out lw2 = out lw @ t'" "entered N t' e"
    "logged_entry (hist_entry id (\<lambda>h. ascii ''#'' @ c) dv h start dur t) e"
    by (rule failed_histogram_text [where serialize = serialize and lw = lw and s' = s' and h = h and t = t
          and start = start and dur = dur and c = c and er = er and b64enc = b64enc, OF assms(1-6,8,9)])
  have "log_text N (out lw2) (es @ [e])"
    unfolding w(3) by (rule log_text_append [OF assms(7) log_text_entered [OF w(4)]])
  from log_collect_text [OF this, of "log_iterator_new (out lw2)" "[]"]
  have "log_collect N (log_iterator_new (out lw2)) [] = Some (Ok (map Ok (es @ [e])))"
    by (simp add: log_iterator_new_def)
  with w(1,2,5) show ?thesis by blast
qed

definition huge_count :: "u64 histogram" where
  "huge_count = bump sample 0 (- 1)"

lemma huge_count_not_serialized: "\<exists>s' buf. v2_log_serialize ser huge_count [] = Err (CountNotSerializable, s', buf)"
proof -
  have z: "unat (0 :: u64) < capacity sample" by (simp add: capacity_def sample_eq)
  have w: "wf huge_count" unfolding huge_count_def by (rule wf_bump [OF wf_sample z])
  have "max_value huge_count = 0"
    by (simp add: huge_count_def bump_def sample_eq update_min_max_def update_max_def update_min_def Let_def)
  then have "h_index huge_count (unat (max_value huge_count)) = 0" using wfD(2) [OF w] by simp
  moreover have "counts huge_count ! 0 = - 1" "counts huge_count \<noteq> []"
    using wfD(2) [OF wf_sample] by (simp_all add: huge_count_def counts_bump) (simp_all add: sample_eq saturating_add_def)
  ultimately have "- 1 \<in> set (written_counts huge_count)"
    by (cases "counts huge_count") (simp_all add: written_counts_def)
  moreover have "2 ^ 63 \<le> unat (- 1 :: u64)" by (simp add: u64_max_def)
  ultimately have "\<exists>c \<in> set (written_counts huge_count). 2 ^ 63 \<le> unat c" by blast
  then show ?thesis
    using v2_serialize_vec [OF w, of "\<lambda>_. 0" ser "[]"] by (simp add: v2_log_serialize_def)
qed

definition an_empty_log :: "(u8 list, v2_serializer) log_writer" where
  "an_empty_log = \<lparr>out = [], serializer = \<lparr>ser_buf = []\<rparr>, text_buf = [], serialize_buf = [], max_value_divisor = Fin 1\<rparr>"

theorem failed_histogram_takes_comment_witness:
  "\<exists>lw1 lw2 e.
    write_histogram vec_write_all plain_fmt3 b64_encode v2_log_serialize an_empty_log huge_count
      \<lparr>secs = 1, subsec_nanos = 0\<rparr> \<lparr>secs = 2, subsec_nanos = 0\<rparr> None = Err (SerializeError CountNotSerializable, lw1) \<and>
    write_comment vec_write_all lw1 (ascii ''next'') = Ok lw2 \<and>
    log_collect plain_nom (log_iterator_new (out lw2)) [] = Some (Ok (map Ok ([] @ [e]))) \<and>
    logged_entry (hist_entry id (\<lambda>h. ascii ''#'' @ ascii ''next'') 1 huge_count \<lparr>secs = 1, subsec_nanos = 0\<rparr>
      \<lparr>secs = 2, subsec_nanos = 0\<rparr> None) e"
proof -
  obtain s' buf where "v2_log_serialize (serializer an_empty_log) huge_count [] = Err (CountNotSerializable, s', buf)"
    using huge_count_not_serialized by blast
  then show ?thesis
    by (intro failed_histogram_takes_comment [OF plain_nom_documented plain_fmt3_documented])
      (simp_all add: an_empty_log_def short_duration_def tag_ok_def log_text.none)
qed

end
