(* ===== verification/Random_Varint.thy ===== *)
theory Random_Varint
  imports Varint
begin

unbundle bit_operations_syntax

text \<open>
  The numbers by the length of their varint (\<open>serialization/rand_varint.rs\<close>): the least and the
  greatest number of each length, and the generator the tests of the serialization draw from, whose
  numbers have every length equally often. The distributions and the source of randomness belong to
  the crate \<open>rand\<close> and are arguments of the definitions.
\<close>

section \<open>Operations\<close>

function largest_number_in_7_bit_chunk :: "nat \<Rightarrow> ('e, u64) res" where
  "largest_number_in_7_bit_chunk chunk_index =
     bind_res (assert_that (chunk_index \<le> 7)) (\<lambda>_.
     bind_res (if chunk_index = 0 then Ok 0 else largest_number_in_7_bit_chunk (chunk_index - 1)) (\<lambda>lower_bits.
       let this_chunk = push_bit (chunk_index * 7) 0x7F
       in Ok (lower_bits OR this_chunk)))"
  by pat_completeness simp
termination by (relation "measure id") simp_all

declare largest_number_in_7_bit_chunk.simps [simp del]

definition largest_number_in_n_byte_varint :: "nat \<Rightarrow> ('e, u64) res" where
  "largest_number_in_n_byte_varint byte_length =
     bind_res (assert_that (byte_length \<le> 9 \<and> byte_length \<ge> 1)) (\<lambda>_.
       if byte_length = 9 then Ok (- 1) else largest_number_in_7_bit_chunk (byte_length - 1))"

definition smallest_number_in_n_byte_varint :: "nat \<Rightarrow> ('e, u64) res" where
  "smallest_number_in_n_byte_varint byte_length =
     bind_res (assert_that (byte_length \<le> 9 \<and> byte_length \<ge> 1)) (\<lambda>_.
       if byte_length = 1 then Ok 0
       else bind_res (largest_number_in_n_byte_varint (byte_length - 1)) (\<lambda>n. Ok (n + 1)))"

text \<open>
  The generator: \<open>'u\<close> is a uniform distribution on \<open>u64\<close>, \<open>'p\<close> one on \<open>usize\<close>, \<open>'r\<close> the source of
  randomness.
\<close>

record ('u, 'p, 'r) varint_iter =
  ranges :: "'u list"
  range_for_picking_range :: 'p
  rng :: 'r

fun new_ranges :: "(u64 \<Rightarrow> u64 \<Rightarrow> ('e, 'u) res) \<Rightarrow> nat list \<Rightarrow> ('e, 'u list) res" where
  "new_ranges uniform [] = Ok []"
| "new_ranges uniform (n # ns) =
     bind_res (smallest_number_in_n_byte_varint n) (\<lambda>lowest.
     bind_res (largest_number_in_n_byte_varint n) (\<lambda>highest.
     bind_res (uniform lowest (if n = 9 then highest else highest + 1)) (\<lambda>u.
     bind_res (new_ranges uniform ns) (\<lambda>us. Ok (u # us)))))"

definition varint_iter_new ::
  "(u64 \<Rightarrow> u64 \<Rightarrow> ('e, 'u) res) \<Rightarrow> (nat \<Rightarrow> nat \<Rightarrow> ('e, 'p) res) \<Rightarrow> 'r
    \<Rightarrow> ('e, ('u, 'p, 'r) varint_iter) res" where
  "varint_iter_new uniform uniform_usize r =
     bind_res (new_ranges uniform [1, 2, 3, 4, 5, 6, 7, 8, 9]) (\<lambda>us.
     bind_res (uniform_usize 0 9) (\<lambda>p.
       Ok \<lparr>ranges = us, range_for_picking_range = p, rng = r\<rparr>))"

definition varint_iter_next ::
  "('u \<Rightarrow> 'r \<Rightarrow> u64 \<times> 'r) \<Rightarrow> ('p \<Rightarrow> 'r \<Rightarrow> nat \<times> 'r) \<Rightarrow> ('u, 'p, 'r) varint_iter
    \<Rightarrow> ('e, u64 option \<times> ('u, 'p, 'r) varint_iter) res" where
  "varint_iter_next sample sample_usize it =
     (case sample_usize (range_for_picking_range it) (rng it) of (i, r1) \<Rightarrow>
       if i < length (ranges it) then
         (case sample (ranges it ! i) r1 of (v, r2) \<Rightarrow> Ok (Some v, it\<lparr>rng := r2\<rparr>))
       else Panic)"

section \<open>The numbers of each length\<close>

lemma largest_chunk: "k \<le> 7 \<Longrightarrow> largest_number_in_7_bit_chunk k = Ok (mask (7 * k + 7))"
proof (induction k)
  case 0
  then show ?case by (simp add: largest_number_in_7_bit_chunk.simps [of 0] assert_that_def mask_eq_exp_minus_1)
next
  case (Suc k)
  have "mask (7 * k + 7) OR push_bit (Suc k * 7) 0x7F = (mask (7 * Suc k + 7) :: u64)"
    using Suc.prems by (intro bit_word_eqI) (auto simp: byte_bits bit_mask_iff)
  then show ?case
    using Suc by (simp add: largest_number_in_7_bit_chunk.simps [of "Suc k"] assert_that_def)
qed

lemma length_leb_le: "0 < n \<Longrightarrow> n \<le> k \<Longrightarrow> length (leb k v) \<le> n \<longleftrightarrow> unat v < 2 ^ (7 * n)"
proof (induction k v arbitrary: n rule: leb.induct)
  case (2 k v)
  have small: "v < 128 \<longleftrightarrow> unat v < 128" by (simp add: word_less_nat_alt)
  show ?case
  proof (cases "v < 128")
    case True
    moreover have "128 \<le> (2 :: nat) ^ (7 * n)"
      using power_increasing [of 7 "7 * n" "2 :: nat"] 2(2) by simp
    ultimately show ?thesis using small 2(2) by simp
  next
    case big: False
    show ?thesis
    proof (cases "n = 1")
      case True
      then show ?thesis using big small length_leb(1) [of k "drop_bit 7 v"] by (auto simp: not_le)
    next
      case False
      then have n: "0 < n - 1" "n - 1 \<le> k" "n = Suc (n - 1)" using 2(2,3) by auto
      have "unat v div 128 < 2 ^ (7 * (n - 1)) \<longleftrightarrow> unat v < 2 ^ (7 * n)"
        by (subst (2) n(3)) (simp add: div_less_iff_less_mult power_add mult.commute)
      moreover have "length (leb (Suc k) v) \<le> n \<longleftrightarrow> length (leb k (drop_bit 7 v)) \<le> n - 1"
        using big n(1) by (auto simp: not_le)
      ultimately show ?thesis using 2(1) [OF big n(1,2)] by (simp add: unat_drop_7)
    qed
  qed
qed simp


lemma unat_mask_7: "n \<le> 8 \<Longrightarrow> unat (mask (7 * n) :: u64) = 2 ^ (7 * n) - 1"
proof -
  assume n: "n \<le> 8"
  then have "(2 :: nat) ^ (7 * n) \<le> 2 ^ 56" by (intro power_increasing) simp_all
  then have "unat (of_nat (mask (7 * n)) :: u64) = mask (7 * n)"
    by (intro unat_of_nat_less) (simp add: mask_eq_exp_minus_1)
  then show ?thesis by (simp add: of_nat_mask_eq mask_eq_exp_minus_1)
qed

lemma unat_mask_7_Suc: "n \<le> 8 \<Longrightarrow> unat (mask (7 * n) + 1 :: u64) = 2 ^ (7 * n)"
proof -
  assume n: "n \<le> 8"
  then have "(2 :: nat) ^ (7 * n) \<le> 2 ^ 56" by (intro power_increasing) simp_all
  then show ?thesis by (subst unat_plus_if') (simp add: unat_mask_7 [OF n])
qed

lemma le_mask_iff: "n \<le> 8 \<Longrightarrow> v \<le> mask (7 * n) \<longleftrightarrow> unat (v :: u64) < 2 ^ (7 * n)"
proof -
  assume "n \<le> 8"
  moreover have "0 < (2 :: nat) ^ (7 * n)" by simp
  ultimately show ?thesis unfolding word_le_nat_alt unat_mask_7 [OF \<open>n \<le> 8\<close>] by linarith
qed

lemma length_varint_le: "0 < n \<Longrightarrow> n \<le> 8 \<Longrightarrow> length (varint v) \<le> n \<longleftrightarrow> v \<le> mask (7 * n)"
  using length_leb_le [of n 8 v] by (simp add: varint_def le_mask_iff)

lemma largest_number: "1 \<le> n \<Longrightarrow> n \<le> 9 \<Longrightarrow>
  largest_number_in_n_byte_varint n = Ok (if n = 9 then - 1 else mask (7 * n))"
proof -
  assume n: "1 \<le> n" "n \<le> 9"
  have "7 * (n - 1) + 7 = 7 * n" using n by simp
  then show ?thesis
    using n largest_chunk [of "n - 1"] by (auto simp: largest_number_in_n_byte_varint_def assert_that_def)
qed

lemma smallest_number:
  assumes "1 \<le> n" and "n \<le> 9"
  shows "smallest_number_in_n_byte_varint n = Ok (if n = 1 then 0 else mask (7 * (n - 1)) + 1)"
proof (cases "n = 1")
  case True
  then show ?thesis by (simp add: smallest_number_in_n_byte_varint_def assert_that_def)
next
  case False
  then have "1 \<le> n - 1" and "n - 1 \<le> 9" and "n - 1 \<noteq> 9" using assms by auto
  then show ?thesis
    using assms False
    by (simp add: smallest_number_in_n_byte_varint_def assert_that_def largest_number del: One_nat_def)
qed

lemma not_le_mask: "n \<le> 8 \<Longrightarrow> \<not> v \<le> mask (7 * n) \<longleftrightarrow> mask (7 * n) + 1 \<le> (v :: u64)"
  by (simp add: le_mask_iff word_le_nat_alt [of "mask (7 * n) + 1"] unat_mask_7_Suc not_less)

text \<open>The numbers of a length are those between the least and the greatest of it.\<close>

lemma length_varint_iff:
  assumes "1 \<le> n" and "n \<le> 9"
  shows "\<exists>lo hi. smallest_number_in_n_byte_varint n = Ok lo \<and> largest_number_in_n_byte_varint n = Ok hi \<and>
    (\<forall>v. length (varint v) = n \<longleftrightarrow> lo \<le> v \<and> v \<le> hi)"
proof -
  have "length (varint v) \<le> n \<longleftrightarrow> v \<le> (if n = 9 then - 1 else mask (7 * n))" for v
    using assms length_varint_le [of n v] length_varint(2) [of v] by auto
  moreover have "n \<le> length (varint v) \<longleftrightarrow> (if n = 1 then 0 else mask (7 * (n - 1)) + 1) \<le> v" for v
  proof (cases "n = 1")
    case False
    then have "0 < n - 1" and "n - 1 \<le> 8" and "n \<le> length (varint v) \<longleftrightarrow> \<not> length (varint v) \<le> n - 1"
      using assms by auto
    then show ?thesis using False length_varint_le [of "n - 1" v] not_le_mask [of "n - 1" v] by simp
  qed (use length_varint(1) [of v] in simp)
  ultimately show ?thesis
    using smallest_number [OF assms] largest_number [OF assms] by (metis le_antisym order_refl)
qed

section \<open>The generator\<close>

text \<open>A uniform distribution, as \<open>rand\<close> documents it: it yields values of a half-open, non-empty range.\<close>

definition uniform_documented ::
  "('a::linorder \<Rightarrow> 'a \<Rightarrow> ('e, 'u) res) \<Rightarrow> ('u \<Rightarrow> 'r \<Rightarrow> 'a \<times> 'r) \<Rightarrow> bool" where
  "uniform_documented uniform sample \<longleftrightarrow>
     (\<forall>lo hi. lo < hi \<longrightarrow> (\<exists>u. uniform lo hi = Ok u \<and> (\<forall>r. lo \<le> fst (sample u r) \<and> fst (sample u r) < hi)))"

lemma uniformD:
  assumes "uniform_documented uniform sample" and "lo < hi"
  shows "\<exists>u. uniform lo hi = Ok u \<and> (\<forall>r. lo \<le> fst (sample u r) \<and> fst (sample u r) < hi)"
  using assms unfolding uniform_documented_def by blast

definition draws :: "('u \<Rightarrow> 'r \<Rightarrow> u64 \<times> 'r) \<Rightarrow> 'u \<Rightarrow> nat \<Rightarrow> bool" where
  "draws sample u n \<longleftrightarrow> (\<forall>r. length (varint (fst (sample u r))) = n \<and> fst (sample u r) < - 1)"

definition range_start :: "nat \<Rightarrow> u64" where
  "range_start n = (if n = 1 then 0 else mask (7 * (n - 1)) + 1)"

definition range_end :: "nat \<Rightarrow> u64" where
  "range_end n = (if n = 9 then - 1 else mask (7 * n) + 1)"

lemma unat_range:
  assumes "1 \<le> n" and "n \<le> 9"
  shows "unat (range_start n) = (if n = 1 then 0 else 2 ^ (7 * (n - 1)))"
    and "unat (range_end n) = (if n = 9 then 2 ^ 64 - 1 else 2 ^ (7 * n))"
  using assms unat_mask_7_Suc [of n] unat_mask_7_Suc [of "n - 1"] 
  by (auto simp: range_start_def range_end_def u64_max_def)

lemma range_start_less_end:
  assumes "1 \<le> n" and "n \<le> 9"
  shows "range_start n < range_end n"
proof -
  have "(2 :: nat) ^ (7 * (n - 1)) < 2 ^ (7 * n)" using assms by (intro power_strict_increasing) auto
  moreover have "(2 :: nat) ^ (7 * 8) < 2 ^ 64 - 1" by simp
  ultimately show ?thesis using unat_range [OF assms] by (auto simp: word_less_nat_alt)
qed

lemma in_range:
  assumes "1 \<le> n" and "n \<le> 9" and "range_start n \<le> v" and "v < range_end n"
  shows "length (varint v) = n" and "v < - 1"
proof -
  obtain lo hi where r: "smallest_number_in_n_byte_varint n = (Ok lo :: (unit, u64) res)"
    "largest_number_in_n_byte_varint n = (Ok hi :: (unit, u64) res)"
    "\<And>v. length (varint v) = n \<longleftrightarrow> lo \<le> v \<and> v \<le> hi"
    using length_varint_iff [OF assms(1,2), where 'a = unit and 'b = unit] by auto
  have lo: "lo = range_start n" and hi: "hi = (if n = 9 then - 1 else mask (7 * n))"
    using r(1,2) smallest_number [OF assms(1,2), where 'a = unit] largest_number [OF assms(1,2), where 'a = unit]
    by (simp_all add: range_start_def)
  have "v \<le> hi"
    using assms(2,4) not_le_mask [of n v] by (auto simp: hi range_end_def not_le)
  then show "length (varint v) = n" using assms(3) r(3) lo by simp
  show "v < - 1" using assms(4) word_order.extremum_strict by (metis less_le_trans word_order.extremum)
qed

lemma range_draws:
  assumes "uniform_documented uniform sample" and "1 \<le> n" and "n \<le> 9"
  shows "\<exists>u. uniform (range_start n) (range_end n) = Ok u \<and> draws sample u n"
  using uniformD [OF assms(1) range_start_less_end [OF assms(2,3)]] in_range [OF assms(2,3)]
  by (auto simp: draws_def)

lemma new_ranges_draw:
  fixes uniform :: "u64 \<Rightarrow> u64 \<Rightarrow> ('e, 'u) res"
  assumes "uniform_documented uniform sample"
  shows "\<forall>n \<in> set ns. 1 \<le> n \<and> n \<le> 9 \<Longrightarrow>
    \<exists>us. new_ranges uniform ns = Ok us \<and> list_all2 (draws sample) us ns"
proof (induction ns)
  case (Cons n ns)
  then have n: "1 \<le> n" "n \<le> 9" by auto
  have ends: "smallest_number_in_n_byte_varint n = (Ok (range_start n) :: ('e, u64) res)"
    "largest_number_in_n_byte_varint n = (Ok (if n = 9 then - 1 else mask (7 * n)) :: ('e, u64) res)"
    using smallest_number [OF n, where 'a = 'e] largest_number [OF n, where 'a = 'e] by (simp_all add: range_start_def)
  have "(if n = 9 then (if n = 9 then - 1 else mask (7 * n)) else (if n = 9 then - 1 else mask (7 * n)) + 1) = range_end n"
    by (simp add: range_end_def)
  moreover obtain u where "uniform (range_start n) (range_end n) = Ok u" "draws sample u n"
    using range_draws [OF assms n] by auto
  moreover obtain us where "new_ranges uniform ns = Ok us" "list_all2 (draws sample) us ns" using Cons by auto
  ultimately show ?case using ends by (intro exI [of _ "u # us"]) simp
qed simp

section \<open>Properties\<close>

text \<open>
  C38. The generator of test numbers does what its tests rest on: it is built without a panic, and in
  every state of the source of randomness its next number is one whose varint is as long as the range
  it picked says, so that lengths are as evenly distributed as the picks. (\<open>u64::MAX\<close> is never drawn.)
\<close>

theorem random_varint_lengths:
  assumes "uniform_documented uniform sample" and "uniform_documented uniform_usize sample_usize"
  shows "\<exists>g. varint_iter_new uniform uniform_usize r = Ok g \<and>
    (\<forall>r'. case varint_iter_next sample sample_usize (g\<lparr>rng := r'\<rparr>) :: (unit, _) res of
      Ok (Some v, g') \<Rightarrow> (\<exists>r''. g' = g\<lparr>rng := r''\<rparr>) \<and> v \<noteq> - 1 \<and>
        (\<exists>buf. varint_write v (replicate 9 0) =
          (Ok (buf, 1 + fst (sample_usize (range_for_picking_range g) r')) :: (unit, _) res))
    | _ \<Rightarrow> False)"
proof -
  let ?lens = "[1, 2, 3, 4, 5, 6, 7, 8, 9] :: nat list"
  obtain us where us: "new_ranges uniform ?lens = Ok us" "list_all2 (draws sample) us ?lens"
    using new_ranges_draw [OF assms(1), of ?lens] by auto
  obtain p where p: "uniform_usize 0 9 = Ok p" "\<And>r. fst (sample_usize p r) < 9"
    using uniformD [OF assms(2), of 0 9] by auto
  define g where "g = \<lparr>ranges = us, range_for_picking_range = p, rng = r\<rparr>"
  have new: "varint_iter_new uniform uniform_usize r = Ok g" using us(1) p(1) by (simp add: varint_iter_new_def g_def)
  have "case varint_iter_next sample sample_usize (g\<lparr>rng := r'\<rparr>) :: (unit, _) res of
      Ok (Some v, g') \<Rightarrow> (\<exists>r''. g' = g\<lparr>rng := r''\<rparr>) \<and> v \<noteq> - 1 \<and>
        (\<exists>buf. varint_write v (replicate 9 0) =
          (Ok (buf, 1 + fst (sample_usize (range_for_picking_range g) r')) :: (unit, _) res))
    | _ \<Rightarrow> False" for r'
  proof -
    obtain i r1 where i: "sample_usize p r' = (i, r1)" by (cases "sample_usize p r'")
    then have "i < 9" using p(2) [of r'] by simp
    have len: "length us = 9" using us(2) by (simp add: list_all2_lengthD)
    obtain v r2 where v: "sample (us ! i) r1 = (v, r2)" by (cases "sample (us ! i) r1")
    have "draws sample (us ! i) (?lens ! i)" using us(2) \<open>i < 9\<close> len by (auto simp: list_all2_conv_all_nth)
    moreover have "?lens ! i = 1 + i" using \<open>i < 9\<close> by (auto simp: less_Suc_eq numeral_eq_Suc)
    ultimately have "length (varint v) = 1 + i" "v < - 1" using v by (metis draws_def fst_conv)+
    then show ?thesis
      using i v len \<open>i < 9\<close> by (auto simp: varint_iter_next_def g_def varint_write_eq)
  qed
  then show ?thesis using new by blast
qed

definition counting :: "'a \<times> 'a \<Rightarrow> nat \<Rightarrow> 'a \<times> nat" where
  "counting u r = (fst u, Suc r)"

definition half_open :: "'a::linorder \<Rightarrow> 'a \<Rightarrow> (unit, 'a \<times> 'a) res" where
  "half_open lo hi = (if lo < hi then Ok (lo, hi) else Panic)"

theorem random_varint_lengths_witness:
  "\<exists>g. varint_iter_new half_open half_open 5 = Ok g \<and>
    (\<forall>r'. case varint_iter_next counting counting (g\<lparr>rng := r'\<rparr>) :: (unit, _) res of
      Ok (Some v, g') \<Rightarrow> (\<exists>r''. g' = g\<lparr>rng := r''\<rparr>) \<and> v \<noteq> - 1 \<and>
        (\<exists>buf. varint_write v (replicate 9 0) =
          (Ok (buf, 1 + fst (counting (range_for_picking_range g) r')) :: (unit, _) res))
    | _ \<Rightarrow> False)"
  by (rule random_varint_lengths) (simp_all add: uniform_documented_def half_open_def counting_def)

end
