(* ===== verification/Cli.thy ===== *)
theory Cli
  imports Ticks Deflate Evolution Text
begin

unbundle bit_operations_syntax

text \<open>
  The command line program that comes with the library (\<open>examples/cli.rs\<close>): \<open>serialize\<close> records the
  numbers of its input, one per line, and writes the histogram; \<open>iter-quantiles\<close> reads a histogram
  and prints it by quantiles. The parser of the command line (\<open>clap\<close>) is left out: \<open>cli_main\<close> starts
  from what it has matched. The formatting of doubles is an argument.
\<close>

section \<open>Recording lines\<close>

datatype cli_error =
    CliIo io_error
  | HistogramSerialize v2_serialize_error
  | HistogramSerializeCompressed v2_deflate_serialize_error
  | HistogramDeserialize deserialize_error
  | HistogramRecord record_error

text \<open>
  \<open>BufRead::lines\<close>: what ends with a newline, less the newline and a carriage return before it, and
  what is left at the end. \<open>None\<close> is an error: text that is not UTF-8, or the error of the reader.
\<close>

definition strip_cr :: "u8 list \<Rightarrow> u8 list" where
  "strip_cr l = (if l \<noteq> [] \<and> last l = 13 then butlast l else l)"

definition buf_lines :: "reader \<Rightarrow> u8 list option list" where
  "buf_lines r = (case r of (bs, e) \<Rightarrow>
     map (\<lambda>l. map_option strip_cr (from_utf8 l)) (butlast (split_at 10 bs)) @
     (if e \<noteq> UnexpectedEof then [None]
      else if last (split_at 10 bs) = [] then [] else [from_utf8 (last (split_at 10 bs))]))"

fun record_lines :: "u64 histogram \<Rightarrow> u8 list option list \<Rightarrow> (cli_error, u64 histogram) res" where
  "record_lines h [] = Ok h"
| "record_lines h (l # ls) =
     bind_res (expect l) (\<lambda>s.
     bind_res (expect (parse_u64 s)) (\<lambda>num.
     bind_res (map_err (\<lambda>(e, _). HistogramRecord e) (record_value h num)) (\<lambda>h'.
       record_lines h' ls)))"

definition v2_serializer_new :: v2_serializer where
  "v2_serializer_new = \<lparr>ser_buf = []\<rparr>"

definition v2_deflate_serializer_new :: v2_deflate_serializer where
  "v2_deflate_serializer_new =
     \<lparr>uncompressed_buf = [], compressed_buf = [], inner_serializer = v2_serializer_new\<rparr>"

definition deserializer_new :: deserializer where
  "deserializer_new = \<lparr>payload_buf = []\<rparr>"

definition cli_serialize ::
  "(u8 list \<Rightarrow> (io_error, u8 list) res) \<Rightarrow> ('w \<Rightarrow> u8 list \<Rightarrow> (io_error, 'w) res) \<Rightarrow> (nat \<Rightarrow> u8)
    \<Rightarrow> reader \<Rightarrow> 'w \<Rightarrow> u64 histogram \<Rightarrow> bool \<Rightarrow> (cli_error, 'w) res" where
  "cli_serialize zlib_encode write_all spare reader writer h compression =
     bind_res (record_lines h (buf_lines reader)) (\<lambda>h'.
       if compression then
         bind_res (map_err HistogramSerializeCompressed
             (v2_deflate_serialize zlib_encode write_all spare v2_deflate_serializer_new h' writer))
           (\<lambda>(_, writer', _). Ok writer')
       else
         bind_res (map_err HistogramSerialize (v2_serialize write_all spare v2_serializer_new h' writer))
           (\<lambda>(_, writer', _). Ok writer'))"

section \<open>Printing quantiles\<close>

definition cli_header :: "nat \<Rightarrow> u8 list" where
  "cli_header quantile_precision =
     (let w = (quantile_precision + 2) mod 2 ^ 64
      in pad_left 12 (ascii ''Value'') @ [32] @ pad_left w (ascii ''QuantileValue'') @ [32] @
         pad_left w (ascii ''QuantileIteration'') @ [32] @ pad_left 10 (ascii ''TotalCount'') @ [32] @
         pad_left 14 (ascii ''1/(1-Quantile)'') @ [10, 10])"

text \<open>One row; the last column of the row for quantile 1 is the sign of infinity, one character of three bytes.\<close>

definition cli_row :: "fmt_f64 \<Rightarrow> nat \<Rightarrow> 'c iteration_value \<Rightarrow> u64 \<Rightarrow> u8 list" where
  "cli_row fmt quantile_precision v so_far =
     pad_left 12 (decimal (unat (value_iterated_to v))) @ [32] @
     fmt 1 quantile_precision (quantile v) @ [32] @
     fmt 1 quantile_precision (quantile_iterated_to v) @ [32] @
     pad_left 10 (decimal (unat so_far)) @ [32] @
     (if f64_lt (quantile_iterated_to v) (Fin 1)
      then fmt 14 2 (f64_div (Fin 1) (f64_sub (Fin 1) (quantile_iterated_to v)))
      else replicate 13 32 @ [0xE2, 0x88, 0x9E]) @ [10]"

text \<open>The loop over the iterator, which prints as it goes.\<close>

partial_function (option) print_rows_loop ::
  "('c::len, 'p) pick_fn \<Rightarrow> 'p more_fn \<Rightarrow> fmt_f64 \<Rightarrow> ('w \<Rightarrow> u8 list \<Rightarrow> (io_error, 'w) res) \<Rightarrow> nat
    \<Rightarrow> ('c word, 'p) histogram_iterator \<Rightarrow> u64 \<Rightarrow> 'w \<Rightarrow> (cli_error, 'w) res option" where
  "print_rows_loop pick more_of fmt write_all precision it so_far writer =
     (case iterator_next pick more_of it of
        None \<Rightarrow> None
      | Some r \<Rightarrow>
          (case r of
             Ok (it1, v) \<Rightarrow>
               (case v of
                  None \<Rightarrow> Some (Ok writer)
                | Some x \<Rightarrow>
                    (case write_all writer (cli_row fmt precision x (so_far + count_since_last x)) of
                       Ok writer' \<Rightarrow>
                         print_rows_loop pick more_of fmt write_all precision it1 (so_far + count_since_last x) writer'
                     | Err e \<Rightarrow> Some (Err (CliIo e))
                     | Panic \<Rightarrow> Some Panic))
           | Err e \<Rightarrow> Some Panic
           | Panic \<Rightarrow> Some Panic))"

definition extra_data :: "string \<Rightarrow> u8 list \<Rightarrow> string \<Rightarrow> u8 list \<Rightarrow> u8 list" where
  "extra_data label1 data1 label2 data2 =
     ascii ''#['' @ pad_right 10 (ascii label1) @ ascii '' = '' @ data1 @ ascii '', '' @
     pad_right 14 (ascii label2) @ ascii '' = '' @ data2 @ ascii '']'' @ [10]"

definition write_extra_data ::
  "('w \<Rightarrow> u8 list \<Rightarrow> (io_error, 'w) res) \<Rightarrow> 'w \<Rightarrow> string \<Rightarrow> u8 list \<Rightarrow> string \<Rightarrow> u8 list
    \<Rightarrow> (cli_error, 'w) res" where
  "write_extra_data write_all writer label1 data1 label2 data2 =
     map_err CliIo (write_all writer (extra_data label1 data1 label2 data2))"

text \<open>What follows a part of the program that may not end.\<close>

definition and_then :: "('e, 'a) res option \<Rightarrow> ('a \<Rightarrow> ('e, 'b) res option) \<Rightarrow> ('e, 'b) res option" where
  "and_then m f =
     (case m of None \<Rightarrow> None
      | Some r \<Rightarrow> (case r of Ok x \<Rightarrow> f x | Err e \<Rightarrow> Some (Err e) | Panic \<Rightarrow> Some Panic))"

definition print_summary ::
  "fmt_f64 \<Rightarrow> ('w \<Rightarrow> u8 list \<Rightarrow> (io_error, 'w) res) \<Rightarrow> 'c::len word histogram \<Rightarrow> 'w \<Rightarrow> f64 \<Rightarrow> f64
    \<Rightarrow> (cli_error, 'w) res" where
  "print_summary fmt write_all h writer mn sd =
     bind_res (write_extra_data write_all writer ''Mean'' (fmt 12 2 mn) ''StdDeviation'' (fmt 12 2 sd)) (\<lambda>w1.
     bind_res (write_extra_data write_all w1 ''Max'' (pad_left 12 (decimal (unat (hist_max h))))
         ''Total count'' (pad_left 12 (decimal (unat (len h))))) (\<lambda>w2.
       write_extra_data write_all w2 ''Buckets'' (pad_left 12 (decimal (unat (buckets h))))
         ''SubBuckets'' (pad_left 12 (decimal (distinct_values h)))))"

definition cli_quantiles ::
  "(f64 \<Rightarrow> f64) \<Rightarrow> (reader \<Rightarrow> reader) \<Rightarrow> fmt_f64 \<Rightarrow> ('w \<Rightarrow> u8 list \<Rightarrow> (io_error, 'w) res)
    \<Rightarrow> reader \<Rightarrow> 'w \<Rightarrow> nat \<Rightarrow> u32 \<Rightarrow> (cli_error, 'w) res option" where
  "cli_quantiles log2 zlib_decoder fmt write_all reader writer quantile_precision ticks_per_half =
     and_then (Some (map_err HistogramDeserialize (deserialize zlib_decoder deserializer_new reader)))
       (\<lambda>(_, h :: u64 histogram).
     and_then (Some (map_err CliIo (write_all writer (cli_header quantile_precision)))) (\<lambda>w1.
     and_then (Some (unwrap_res (bind_res (quantile_new h ticks_per_half) (iterator_new h)))) (\<lambda>it.
     and_then (print_rows_loop (quantile_pick log2) quantile_more fmt write_all quantile_precision it 0 w1) (\<lambda>w2.
     and_then (map_option unwrap_res (mean h)) (\<lambda>mn.
     and_then (map_option unwrap_res (stdev h)) (\<lambda>sd.
       Some (print_summary fmt write_all h w2 mn sd)))))))"

section \<open>The program\<close>

text \<open>
  What \<open>clap\<close> has matched: the values of the options as texts (given or by default), and whether the
  flags are present. A value that does not parse and any error of a subcommand end in a panic.
\<close>

datatype cli_matches =
    SerializeCommand (arg_min: "u8 list") (arg_max: "u8 list") (arg_sigfig: "u8 list") (resize_present: bool)
      (compression_present: bool)
  | IterQuantilesCommand (arg_ticks: "u8 list") (arg_quantile_precision: "u8 list")
  | NoCommand

definition cli_main ::
  "(u8 list \<Rightarrow> (io_error, u8 list) res) \<Rightarrow> (reader \<Rightarrow> reader) \<Rightarrow> (f64 \<Rightarrow> f64) \<Rightarrow> fmt_f64
    \<Rightarrow> ('w \<Rightarrow> u8 list \<Rightarrow> (io_error, 'w) res) \<Rightarrow> (nat \<Rightarrow> u8) \<Rightarrow> cli_matches \<Rightarrow> reader \<Rightarrow> 'w
    \<Rightarrow> (unit, 'w) res option" where
  "cli_main zlib_encode zlib_decoder log2 fmt write_all spare matches stdin stdout =
     (case matches of
        SerializeCommand a_min a_max a_sigfig resizing compressing \<Rightarrow> Some (
          bind_res (expect (parse_u64 a_min)) (\<lambda>mn.
          bind_res (expect (parse_u64 a_max)) (\<lambda>mx.
          bind_res (expect (map_option of_nat (parse_uint (2 ^ 8) a_sigfig))) (\<lambda>sf.
          bind_res (unwrap_res (new_with_bounds mn mx sf)) (\<lambda>h.
          let h1 = (if resizing then auto h True else h)
          in unwrap_res (cli_serialize zlib_encode write_all spare stdin stdout h1 compressing))))))
      | IterQuantilesCommand a_ticks a_precision \<Rightarrow>
          and_then (Some (expect (parse_u32 a_ticks))) (\<lambda>ticks.
          and_then (Some (expect (parse_uint (2 ^ 64) a_precision))) (\<lambda>precision.
            map_option unwrap_res (cli_quantiles log2 zlib_decoder fmt write_all stdin stdout precision ticks)))
      | NoCommand \<Rightarrow> Some Panic)"

section \<open>Lines of numbers\<close>

definition number_lines :: "u64 list \<Rightarrow> u8 list" where
  "number_lines xs = concat (map (\<lambda>x. decimal (unat x) @ [10]) xs)"

lemma split_at_append: "c \<notin> set l \<Longrightarrow> split_at c (l @ c # bs) = l # split_at c bs"
  by (induction l) auto

lemma decimal_plain: "10 \<notin> set (decimal n)" "13 \<notin> set (decimal n)" "from_utf8 (decimal n) = Some (decimal n)"
proof -
  have "list_all is_digit (decimal n)" and "\<forall>b \<in> set (decimal n). b < 0x80" using decimal_facts [of n] by auto
  then show "10 \<notin> set (decimal n)" "13 \<notin> set (decimal n)" "from_utf8 (decimal n) = Some (decimal n)"
    by (auto simp: list_all_iff is_digit_def from_utf8_ascii)
qed

lemma strip_cr_decimal [simp]: "strip_cr (decimal n) = decimal n"
  using decimal_plain(2) [of n] last_in_set [of "decimal n"] unfolding strip_cr_def by metis

lemma split_number_lines: "split_at 10 (number_lines xs) = map (\<lambda>x. decimal (unat x)) xs @ [[]]"
  by (induction xs) (simp_all add: number_lines_def split_at_append decimal_plain)

lemma buf_lines_numbers: "buf_lines (number_lines xs, UnexpectedEof) = map (\<lambda>x. Some (decimal (unat x))) xs"
  by (simp add: buf_lines_def split_number_lines decimal_plain)

lemma parse_u64_decimal [simp]: "parse_u64 (decimal (unat (x :: u64))) = Some x"
proof -
  have "unat x < 2 ^ 64" using unsigned_less [of x, where ?'a = nat] by simp
  then show ?thesis by (simp add: parse_u64_def parse_uint_decimal del: of_nat_unat) simp
qed

section \<open>Recording the lines\<close>

text \<open>A histogram with the bins of \<open>h\<close> that holds exactly the samples \<open>xs\<close>.\<close>

definition holds_samples :: "u64 histogram \<Rightarrow> u64 list \<Rightarrow> u64 histogram \<Rightarrow> bool" where
  "holds_samples h xs h' \<longleftrightarrow> wf h' \<and> exact h' \<and> h_index h' = h_index h \<and>
     total_count h' = of_nat (length xs) \<and>
     (\<forall>i. bin_count h' i = length (filter (\<lambda>x. h_index h (unat x) = i) xs))"

lemma holds_samples_record:
  assumes "holds_samples h0 ys h" and "length ys < 2 ^ 63" and "record_value h x = Ok h'"
  shows "holds_samples h0 (ys @ [x]) h'"
proof -
  have w: "wf h" "exact h" "h_index h = h_index h0" "total_count h = of_nat (length ys)"
    "\<And>i. bin_count h i = length (filter (\<lambda>x. h_index h0 (unat x) = i) ys)"
    using assms(1) by (auto simp: holds_samples_def)
  have r: "record_n h x 1 = Ok h'" using assms(3) by (simp add: record_value_def)
  have small: "length (filter P ys) < 2 ^ 63" for P using assms(2) length_filter_le [of P ys] by linarith
  have n: "unat (of_nat (length ys) :: u64) = length ys" using assms(2) by (intro unat_of_nat_less) simp
  have "unat (total_count h') = Suc (length ys)"
    using record_n_total [OF w(1) r] w(4) assms(2) by (simp add: unat_saturating_add_u64 u64_max_def n)
  moreover have "unat (of_nat (length (ys @ [x])) :: u64) = length (ys @ [x])"
    using assms(2) by (intro unat_of_nat_less) simp
  ultimately have "total_count h' = of_nat (length (ys @ [x]))"
    by (simp only: word_unat_eq_iff length_append_singleton)
  moreover have "bin_count h' i = length (filter (\<lambda>x. h_index h0 (unat x) = i) (ys @ [x]))" for i
    using record_n_bin_count [OF w(1) r] w(3,5) small [of "\<lambda>y. h_index h0 (unat y) = h_index h0 (unat x)"]
    by (cases "i = h_index h0 (unat x)") (simp_all add: min_def)
  moreover have "wf h'" "h_index h' = h_index h0"
    using evolves_record_n_Ok [OF w(1) r] w(3) by (simp_all add: evolves_def)
  moreover have "exact h'" by (rule record_n_exact [OF w(1) r w(2)]) simp_all
  ultimately show ?thesis by (simp add: holds_samples_def)
qed

text \<open>Whether every sample is recorded: the histogram may grow, or they all fit.\<close>

definition accepts :: "u64 histogram \<Rightarrow> u64 list \<Rightarrow> bool" where
  "accepts h xs \<longleftrightarrow> auto_resize h \<or> list_all (\<lambda>x. unat x < capacity h) xs"

lemma record_value_outcome:
  assumes "wf h"
  shows "if accepts h [x] then \<exists>h'. record_value h x = Ok h' \<and> evolves h h'
    else record_value h x = Err (ValueOutOfRangeResizeDisabled, h)"
proof (cases "accepts h [x]")
  case True
  then obtain h' where r: "record_n h x 1 = Ok h'"
    using record_n_inner_eq [OF wfD(1) [OF assms], of x 1]
    by (cases "unat x < capacity h") (auto simp: accepts_def record_n_def)
  then show ?thesis using True evolves_record_n_Ok [OF assms r] by (simp add: record_value_def)
next
  case False
  then show ?thesis
    using record_n_inner_eq [OF wfD(1) [OF assms], of x 1] by (simp add: accepts_def record_value_def record_n_def)
qed

lemma accepts_evolves: "evolves h h' \<Longrightarrow> accepts h (x # xs) \<longleftrightarrow> accepts h [x] \<and> accepts h' xs"
  by (auto simp: accepts_def evolves_def list_all_iff)

lemma record_lines_numbers:
  assumes "holds_samples h0 ys h" and "length (ys @ xs) < 2 ^ 63"
  shows "if accepts h xs
    then \<exists>h'. record_lines h (map (\<lambda>x. Some (decimal (unat x))) xs) = Ok h' \<and> holds_samples h0 (ys @ xs) h'
    else record_lines h (map (\<lambda>x. Some (decimal (unat x))) xs) = Err (HistogramRecord ValueOutOfRangeResizeDisabled)"
  using assms
proof (induction xs arbitrary: ys h)
  case Nil
  then show ?case by (simp add: accepts_def)
next
  case (Cons x xs)
  have w: "wf h" using Cons.prems(1) by (simp add: holds_samples_def)
  show ?case
  proof (cases "accepts h [x]")
    case True
    then obtain h' where h': "record_value h x = Ok h'" "evolves h h'" using record_value_outcome [OF w, of x] by auto
    have "holds_samples h0 (ys @ [x]) h'"
      using Cons.prems by (intro holds_samples_record [OF _ _ h'(1)]) simp_all
    from Cons.IH [OF this] show ?thesis
      using Cons.prems(2) accepts_evolves [OF h'(2), of x xs] h'(1) True by (simp split: if_splits)
  next
    case False
    moreover from False have "\<not> accepts h (x # xs)" by (simp add: accepts_def)
    ultimately show ?thesis using record_value_outcome [OF w, of x] by simp
  qed
qed

lemma new_holds_nothing:
  assumes "new_with_bounds lo hi sf = (Ok h :: (creation_error, u64 histogram) res)"
  shows "holds_samples h [] (auto h b)" and "capacity (auto h b) = capacity h" and "auto_resize (auto h b) = b"
proof -
  note f = new_with_bounds_fields [OF assms]
  have "counts h ! i = 0" if "i < length (counts h)" for i using that f(7) by (metis nth_replicate)
  moreover have "total_count h = 0" using assms by (auto simp: new_with_bounds_eq fresh_def Let_def split: if_splits)
  moreover have "sum_counts (counts h) = 0" using f(7) by (metis sum_counts_replicate_0)
  ultimately show "holds_samples h [] (auto h b)"
    using new_with_bounds_wf [OF assms]
    by (simp add: holds_samples_def wf_auto, simp add: auto_def exact_def bin_count_def)
  show "capacity (auto h b) = capacity h" "auto_resize (auto h b) = b" by (simp_all add: auto_def)
qed

section \<open>Writing and reading back\<close>

text \<open>What is relied on of zlib: that decoding undoes encoding, and that encoding does not fail or grow much.\<close>

definition zlib_documented :: "(u8 list \<Rightarrow> (io_error, u8 list) res) \<Rightarrow> (reader \<Rightarrow> reader) \<Rightarrow> bool" where
  "zlib_documented zlib_encode zlib_decoder \<longleftrightarrow> zlib_inverse zlib_encode zlib_decoder \<and>
     (\<forall>bs. length bs < 2 ^ 31 \<longrightarrow> (\<exists>z. zlib_encode bs = Ok z \<and> length z < 2 ^ 32))"

lemma length_message:
  fixes h :: "'c::len word histogram"
  assumes "wf h"
  shows "length (message h) < 2 ^ 31"
proof -
  have "h_index h (unat (max_value h)) + 1 \<le> 65 * 2 ^ 17"
    using max_index_less [OF assms] length_counts_bound [OF wfD(3) [OF assms]] by simp
  then have "length (payload h) \<le> 9 * (65 * 2 ^ 17)" by (rule order_trans [OF length_payload mult_le_mono2])
  then show ?thesis by (simp add: message_def)
qed

lemma holds_samples_restated:
  assumes "holds_samples h xs g" and "restated (g\<lparr>auto_resize := False\<rparr>) g'"
  shows "holds_samples h xs g'"
proof -
  have g: "wf g" "exact g" using assms(1) by (auto simp: holds_samples_def)
  have g': "wf g'" "exact g'" "counts g' = counts g" "lowest_discernible_value g' = lowest_discernible_value g"
    "significant_value_digits g' = significant_value_digits g"
    using assms(2) by (auto simp: restated_def)
  have "h_index g' = h_index g" using h_index_cong [OF wfD(1) [OF g'(1)] wfD(1) [OF g(1)] g'(4,5)] .
  moreover have "total_count g' = total_count g" using g(2) g'(2,3) by (simp add: exact_def word_unat_eq_iff)
  moreover have "bin_count g' i = bin_count g i" for i by (simp add: bin_count_def g'(3))
  ultimately show ?thesis using assms(1) g' by (simp add: holds_samples_def)
qed

lemma small_counts:
  assumes "holds_samples h xs g" and "length xs < 2 ^ 63"
  shows "\<forall>c \<in> set (written_counts g). unat c < 2 ^ 63"
proof
  fix c assume "c \<in> set (written_counts g)"
  with set_written_counts [of g] have "c \<in> set (counts g)" by blast
  then obtain i where "i < length (counts g)" "c = counts g ! i" unfolding in_set_conv_nth by blast
  then have "unat c = bin_count g i" by (simp add: bin_count_def)
  also have "\<dots> = length (filter (\<lambda>x. h_index h (unat x) = i) xs)"
    using assms(1) unfolding holds_samples_def by blast
  also have "\<dots> < 2 ^ 63" by (rule le_less_trans [OF length_filter_le assms(2)])
  finally show "unat c < 2 ^ 63" .
qed

lemma written_and_read:
  assumes "holds_samples h xs g" and "length xs < 2 ^ 63" and "zlib_documented zlib_encode zlib_decoder"
  obtains bs ds' g' where
    "(if compressing then
        bind_res (map_err HistogramSerializeCompressed
           (v2_deflate_serialize zlib_encode vec_write spare v2_deflate_serializer_new g []))
          (\<lambda>(_, writer', _). Ok writer')
      else bind_res (map_err HistogramSerialize (v2_serialize vec_write spare v2_serializer_new g []))
          (\<lambda>(_, writer', _). Ok writer')) = Ok bs"
    and "deserialize zlib_decoder ds (bs @ rest, e) = Ok (ds', g')" and "holds_samples h xs g'"
proof -
  note c = small_counts [OF assms(1,2)]
  have w: "wf g" using assms(1) by (simp add: holds_samples_def)
  have l: "LENGTH(64) \<le> (64 :: nat)" by simp
  note restored = holds_samples_restated [OF assms(1)]
  show thesis
  proof (cases compressing)
    case True
    obtain z where z: "zlib_encode (message g) = Ok z" "length z < 2 ^ 32"
      using assms(3) length_message [OF w] unfolding zlib_documented_def by blast
    have inverse: "zlib_decoder (z, UnexpectedEof) = (message g, UnexpectedEof)"
      using assms(3) z(1) unfolding zlib_documented_def zlib_inverse_def by blast
    obtain ser' where s: "v2_deflate_serialize zlib_encode vec_write spare v2_deflate_serializer_new g [] =
        Ok (ser', compressed_message z, length (compressed_message z))"
      using v2_deflate_serialize_eq [OF w, of zlib_encode vec_write spare v2_deflate_serializer_new "[]"] c z(1)
      by (auto simp: vec_write_def split: if_splits)
    obtain ds' g' where d: "deserialize zlib_decoder ds (compressed_message z @ rest, e) = Ok (ds', g')"
      "restated (g\<lparr>auto_resize := False\<rparr>) g'"
      by (rule deserialize_compressed_message [where zlib_decoder = zlib_decoder and z = z, OF w l c inverse z(2)])
    show ?thesis by (rule that [OF _ d(1) restored [OF d(2)]]) (simp add: True s)
  next
    case False
    obtain ser' where s: "v2_serialize vec_write spare v2_serializer_new g [] = Ok (ser', message g, length (message g))"
      using v2_serialize_vec [OF w, of spare v2_serializer_new "[]"] c by (auto split: if_splits)
    obtain ds' g' where d: "deserialize zlib_decoder ds (message g @ rest, e) = Ok (ds', g')"
      "restated (g\<lparr>auto_resize := False\<rparr>) g'"
      by (rule deserialize_message [OF w l c])
    show ?thesis by (rule that [OF _ d(1) restored [OF d(2)]]) (simp add: False s)
  qed
qed

section \<open>Properties\<close>

text \<open>
  C13. The subcommand \<open>serialize\<close>, from its text to its bytes: given numbers, one per line, and options
  that \<open>new_with_bounds\<close> accepts, it writes bytes that read back as a histogram with the bins of the
  options that holds exactly these samples, compressed or not. It fails only when a number does not fit
  and the histogram may not grow.
\<close>

theorem cli_serialize_roundtrip:
  assumes "new_with_bounds lo hi (of_nat sf) = (Ok h :: (creation_error, u64 histogram) res)" and "sf < 256"
    and "length xs < 2 ^ 63" and "zlib_documented zlib_encode zlib_decoder"
    and "matches = SerializeCommand (decimal (unat lo)) (decimal (unat hi)) (decimal sf) resizing compressing"
    and "result = cli_main zlib_encode zlib_decoder lg fmt vec_write spare matches (number_lines xs, UnexpectedEof) []"
  shows "if resizing \<or> list_all (\<lambda>x. unat x < capacity h) xs
    then \<exists>bs ds' h'. result = Some (Ok bs) \<and> holds_samples h xs h' \<and>
      deserialize zlib_decoder ds (bs @ rest, e) = Ok (ds', h')
    else result = Some Panic"
proof -
  note h1 = new_holds_nothing [OF assms(1), of resizing]
  have sf: "parse_uint 256 (decimal sf) = Some sf" using assms(2) by (simp add: parse_uint_decimal)
  have off: "auto h False = h"
    using new_with_bounds_fields(6) [OF assms(1)] by (intro histogram.equality) (simp_all add: auto_def)
  have run: "result = Some (unwrap_res (cli_serialize zlib_encode vec_write spare (number_lines xs, UnexpectedEof) []
      (auto h resizing) compressing))"
    unfolding assms(5,6) cli_main_def by (cases resizing) (simp_all add: assms(1) sf off)
  have accepts: "accepts (auto h resizing) xs \<longleftrightarrow> resizing \<or> list_all (\<lambda>x. unat x < capacity h) xs"
    using h1(2,3) by (simp add: accepts_def)
  note lines = record_lines_numbers [OF h1(1), of xs]
  show ?thesis
  proof (cases "accepts (auto h resizing) xs")
    case True
    then obtain g where g: "record_lines (auto h resizing) (map (\<lambda>x. Some (decimal (unat x))) xs) = Ok g" "holds_samples h xs g"
      using lines assms(3) by auto
    show ?thesis
      by (rule written_and_read [OF g(2) assms(3,4), of compressing spare ds rest e])
        (use True accepts g(1) in \<open>auto simp: run cli_serialize_def buf_lines_numbers\<close>)
  next
    case False
    then show ?thesis using lines assms(3) accepts by (auto simp: run cli_serialize_def buf_lines_numbers)
  qed
qed

theorem cli_serialize_roundtrip_witness:
  "\<exists>bs ds' h'. cli_main Ok id id (\<lambda>_ _ _. []) vec_write (\<lambda>_. 0)
      (SerializeCommand (decimal (unat (1 :: u64))) (decimal (unat (100 :: u64))) (decimal 0) False True)
      (number_lines [5, 90, 5], UnexpectedEof) [] = Some (Ok bs) \<and>
    holds_samples sample [5, 90, 5] h' \<and>
    deserialize id deserializer_new (bs @ [], UnexpectedEof) = Ok (ds', h')"
proof -
  have new: "new_with_bounds 1 100 (of_nat 0) = (Ok sample :: (creation_error, u64 histogram) res)"
    by (simp add: new_with_bounds_eq sample_def eval_layout)
  have zlib: "zlib_documented Ok id" by (auto simp: zlib_documented_def zlib_inverse_def)
  show ?thesis
    using cli_serialize_roundtrip [where xs = "[5, 90, 5]" and resizing = False and compressing = True
        and lg = id and fmt = "\<lambda>_ _ _. []" and spare = "\<lambda>_. 0" and rest = "[]" and e = UnexpectedEof
        and ds = deserializer_new, OF new _ _ zlib refl refl]
    by (simp add: capacity_sample)
qed

section \<open>What any iterator counts\<close>

text \<open>
  Whatever the picker, the counts since the last item add up to the total up to the index, which is at
  most what the bins hold.
\<close>

definition conserves :: "u64 histogram \<Rightarrow> nat \<Rightarrow> (u64, 'p) histogram_iterator \<Rightarrow> bool" where
  "conserves h yielded it \<longleftrightarrow> hist it = h \<and>
     yielded + unat (count_since_last_iteration it) = unat (total_count_to_index it) \<and>
     unat (total_count_to_index it) \<le> sum_counts (take (if fresh_index it then current_index it else Suc (current_index it)) (counts h))"

lemma conserves_take_index:
  assumes "sum_counts (counts h) < 2 ^ 64" and "conserves h n it" and "take_index go_on it = Ok (it', b)"
  shows "conserves h n it'"
proof (cases "last_picked_index it \<ge> max_value_index it")
  case True
  then show ?thesis using assms(2,3) by (auto simp: take_index_def bind_res_eq_Ok conserves_def)
next
  case False
  show ?thesis
  proof (cases "fresh_index it")
    case fresh: True
    let ?i = "current_index it"
    have h: "hist it = h" and n: "n + unat (count_since_last_iteration it) = unat (total_count_to_index it)"
      and le: "unat (total_count_to_index it) \<le> sum_counts (take ?i (counts h))"
      using assms(2) fresh by (auto simp: conserves_def)
    have i: "?i < length (counts h)"
      and it': "it' = it\<lparr>count_at_idx := counts h ! ?i,
        total_count_to_index := saturating_add (total_count_to_index it) (counts h ! ?i),
        count_since_last_iteration := saturating_add (count_since_last_iteration it) (counts h ! ?i), fresh_index := False\<rparr>"
      using assms(3) False fresh h
      by (auto simp: take_index_def bind_res_eq_Ok assert_that_def distinct_values_def count_at_index_def split: if_splits)
    have all: "sum_counts (take (Suc ?i) (counts h)) < 2 ^ 64"
      using sum_counts_take_le [of "Suc ?i" "counts h"] assms(1) by linarith
    have "unat (total_count_to_index it) + unat (counts h ! ?i) \<le> sum_counts (take (Suc ?i) (counts h))"
      using le sum_counts_take_Suc [OF i] by simp
    then show ?thesis using n h all by (simp add: it' conserves_def unat_saturating_add_u64 u64_max_def)
  next
    case not_fresh: False
    then show ?thesis using False assms(2,3)
      by (auto simp: take_index_def bind_res_eq_Ok assert_that_def split: if_splits)
  qed
qed

lemma conserves_pick_index:
  assumes "conserves h n it" and "pick_index pick it = Ok r"
  shows "case r of Inl it' \<Rightarrow> conserves h n it'
    | Inr (it', v) \<Rightarrow> (\<exists>x. v = Some x \<and> conserves h (n + unat (count_since_last x)) it')"
proof -
  obtain p m where pm: "pick (picker it) (current_index it) (total_count_to_index it) (count_at_idx it) = Ok (p, m)"
    using assms(2) by (auto simp: pick_index_def bind_res_eq_Ok)
  show ?thesis
  proof (cases m)
    case None
    then have "r = Inl (it\<lparr>picker := p, current_index := current_index it + 1, fresh_index := True\<rparr>)"
      using assms(2) pm by (simp add: pick_index_def Let_def)
    moreover have "sum_counts (take (current_index it) (counts h)) \<le> sum_counts (take (Suc (current_index it)) (counts h))"
      using sum_counts_take_le [of "current_index it" "take (Suc (current_index it)) (counts h)"] by (simp add: min_def)
    ultimately show ?thesis using assms(1) by (auto simp: conserves_def split: if_splits)
  next
    case (Some meta)
    then obtain x where "r = Inr (it\<lparr>picker := p, count_since_last_iteration := 0, last_picked_index := current_index it\<rparr>, Some x)"
      "count_since_last x = count_since_last_iteration it"
      using assms(2) pm by (auto simp: pick_index_def Let_def bind_res_eq_Ok)
    then show ?thesis using assms(1) by (auto simp: conserves_def)
  qed
qed

lemma conserves_round:
  assumes "sum_counts (counts h) < 2 ^ 64" and "conserves h n it" and "iterator_round pick go_on it = Ok r"
  shows "case r of Inl it' \<Rightarrow> conserves h n it'
    | Inr (it', v) \<Rightarrow> v = None \<or> (\<exists>x. v = Some x \<and> conserves h (n + unat (count_since_last x)) it')"
proof (cases "current_index it = distinct_values (hist it)")
  case True
  then show ?thesis using assms(3) by (auto simp: iterator_round_def)
next
  case False
  then obtain it1 b where t: "take_index go_on it = Ok (it1, b)"
    and r: "(if \<not> b then Ok (Inr (it1\<lparr>ended := True\<rparr>, None)) else pick_index pick it1) = Ok r"
    using assms(3) by (auto simp: iterator_round_def bind_res_eq_Ok)
  note c = conserves_take_index [OF assms(1,2) t]
  show ?thesis
  proof (cases b)
    case True
    then have "pick_index pick it1 = Ok r" using r by simp
    from conserves_pick_index [OF c this] show ?thesis by (auto split: sum.splits)
  next
    case False
    then show ?thesis using r by auto
  qed
qed

lemma conserves_next:
  assumes "sum_counts (counts h) < 2 ^ 64" and "iterator_next pick go_on it = Some r" and "conserves h n it"
    and "r = Ok (it', Some x)"
  shows "conserves h (n + unat (count_since_last x)) it'"
proof -
  have "\<forall>n it' x. conserves h n it \<longrightarrow> r = Ok (it', Some x) \<longrightarrow> conserves h (n + unat (count_since_last x)) it'"
    using assms(2)
  proof (induction rule: iterator_next.raw_induct [rotated, consumes 1, case_names 1])
    case (1 rec pick go_on it r)
    show ?case
    proof (intro allI impI)
      fix n it' x assume c: "conserves h n it" and r: "r = Ok (it', Some x)"
      then have "\<not> ended it" using 1(2) by (auto split: if_splits)
      show "conserves h (n + unat (count_since_last x)) it'"
      proof (cases "iterator_round pick go_on it")
        case (Ok s)
        note step = conserves_round [OF assms(1) c Ok]
        show ?thesis
        proof (cases s)
          case (Inl it1)
          then have "rec pick go_on it1 = Some r" using 1(2) Ok \<open>\<not> ended it\<close> by simp
          from 1(1) [OF this] show ?thesis using step Inl r by simp
        next
          case (Inr q)
          then show ?thesis using step 1(2) Ok \<open>\<not> ended it\<close> r by auto
        qed
      qed (use 1(2) \<open>\<not> ended it\<close> r in simp_all)
    qed
  qed
  then show ?thesis using assms(3,4) by blast
qed

section \<open>The rows\<close>

text \<open>The text of the rows: each shows the number of samples up to it.\<close>

fun rows_text :: "fmt_f64 \<Rightarrow> nat \<Rightarrow> nat \<Rightarrow> u64 iteration_value list \<Rightarrow> u8 list" where
  "rows_text fmt precision n [] = []"
| "rows_text fmt precision n (v # vs) =
     cli_row fmt precision v (of_nat (n + unat (count_since_last v))) @
     rows_text fmt precision (n + unat (count_since_last v)) vs"

lemma print_rows_collect:
  assumes "sum_counts (counts h) < 2 ^ 64"
    and "iterator_collect pick go_on it acc = Some r" and "conserves h n it" and "r = Ok vs"
  shows "\<exists>ws. vs = rev acc @ ws \<and> n + sum_list (map (\<lambda>v. unat (count_since_last v)) ws) \<le> sum_counts (counts h) \<and>
    print_rows_loop pick go_on fmt vec_write precision it (of_nat n) w = Some (Ok (w @ rows_text fmt precision n ws))"
proof -
  have "\<forall>n vs w. conserves h n it \<longrightarrow> r = Ok vs \<longrightarrow>
    (\<exists>ws. vs = rev acc @ ws \<and> n + sum_list (map (\<lambda>v. unat (count_since_last v)) ws) \<le> sum_counts (counts h) \<and>
      print_rows_loop pick go_on fmt vec_write precision it (of_nat n) w = Some (Ok (w @ rows_text fmt precision n ws)))"
    (is "?P pick go_on it acc r")
    using assms(2)
  proof (induction rule: iterator_collect.raw_induct [rotated, consumes 1, case_names 1])
    case (1 rec pick go_on it acc r)
    show ?case
    proof (intro allI impI)
      fix n vs w assume c: "conserves h n it" and r: "r = Ok vs"
      obtain it1 v where step: "iterator_next pick go_on it = Some (Ok (it1, v))"
        using 1(2) r by (auto split: option.splits res.splits)
      have le: "n \<le> sum_counts (counts h)"
        using c sum_counts_take_le [of "current_index it" "counts h"] sum_counts_take_le [of "Suc (current_index it)" "counts h"]
        unfolding conserves_def by (auto split: if_splits)
      show "\<exists>ws. vs = rev acc @ ws \<and> n + sum_list (map (\<lambda>v. unat (count_since_last v)) ws) \<le> sum_counts (counts h) \<and>
        print_rows_loop pick go_on fmt vec_write precision it (of_nat n) w = Some (Ok (w @ rows_text fmt precision n ws))"
      proof (cases v)
        case None
        then show ?thesis using 1(2) step r le by (subst print_rows_loop.simps) simp
      next
        case (Some x)
        let ?n = "n + unat (count_since_last x)"
        have rec: "rec pick go_on it1 (x # acc) = Some r" using 1(2) step Some by simp
        have c1: "conserves h ?n it1" using conserves_next [OF assms(1) step c] Some by simp
        obtain ws where ws: "vs = rev (x # acc) @ ws" "?n + sum_list (map (\<lambda>v. unat (count_since_last v)) ws) \<le> sum_counts (counts h)"
          "print_rows_loop pick go_on fmt vec_write precision it1 (of_nat ?n) (w @ cli_row fmt precision x (of_nat ?n))
            = Some (Ok ((w @ cli_row fmt precision x (of_nat ?n)) @ rows_text fmt precision ?n ws))"
          using 1(1) [OF rec] c1 r by blast
        have "of_nat n + count_since_last x = of_nat ?n" by simp
        then have "print_rows_loop pick go_on fmt vec_write precision it (of_nat n) w
            = Some (Ok (w @ rows_text fmt precision n (x # ws)))"
          using ws(3) by (subst print_rows_loop.simps) (simp add: step Some vec_write_def del: of_nat_add)
        then show ?thesis using ws(1,2) by (intro exI [of _ "x # ws"]) simp
      qed
    qed
  qed
  then show ?thesis using assms(3,4) by blast
qed

section \<open>Properties of the second subcommand\<close>

definition summary_text :: "fmt_f64 \<Rightarrow> u64 histogram \<Rightarrow> f64 \<Rightarrow> f64 \<Rightarrow> u8 list" where
  "summary_text fmt h mn sd =
     extra_data ''Mean'' (fmt 12 2 mn) ''StdDeviation'' (fmt 12 2 sd) @
     extra_data ''Max'' (pad_left 12 (decimal (unat (hist_max h)))) ''Total count''
       (pad_left 12 (decimal (unat (total_count h)))) @
     extra_data ''Buckets'' (pad_left 12 (decimal (unat (bucket_count h)))) ''SubBuckets''
       (pad_left 12 (decimal (length (counts h))))"

text \<open>
  C37. The subcommand \<open>iter-quantiles\<close> on whatever reads as a histogram of fewer than \<open>u64::MAX\<close> samples,
  with \<open>--ticks-per-half\<close> below 1024, an output that takes all bytes and a logarithm whose integer part is
  right. With 0 ticks it panics in the constructor of the iterator. Otherwise
  it ends, does not panic, and prints the heading, one row per item of \<open>iter_quantiles\<close> (none, if the
  histogram is empty or all samples lie in bin 0) with the number of samples up to it, which never
  overflows or exceeds the total, and the summary.
\<close>

theorem cli_quantiles_prints:
  assumes "deserialize zlib_decoder deserializer_new reader = Ok (ds', h :: u64 histogram)"
    and "total_count h \<noteq> - 1" and "unat ticks < 1024" and "log2_documented lg"
  shows "if ticks = 0 then cli_quantiles lg zlib_decoder fmt vec_write reader [] precision ticks = Some Panic
    else \<exists>vs mn sd. iter_quantiles lg h ticks = Some (Ok vs) \<and> mean h = Some (Ok mn) \<and> stdev h = Some (Ok sd) \<and>
      sum_list (map (\<lambda>v. unat (count_since_last v)) vs) \<le> unat (total_count h) \<and>
      cli_quantiles lg zlib_decoder fmt vec_write reader [] precision ticks =
        Some (Ok (cli_header precision @ rows_text fmt precision 0 vs @ summary_text fmt h mn sd))"
proof (cases "ticks = 0")
  case True
  then show ?thesis
    by (simp add: cli_quantiles_def and_then_def assms(1) quantile_new_def assert_that_def vec_write_def)
next
  case False
  then have ticks: "0 < ticks" by (simp add: word_gt_0)
  have w: "wf h" "exact h"
    using deserialize_safe [where 'c = 64, of zlib_decoder deserializer_new reader] assms(1) by (simp_all add: safe_def)
  have "unat (total_count h) < u64_max"
    using assms(2) unat_le_u64_max [of "total_count h"] by (simp add: eq_minus_1_iff)
  then have total: "unat (total_count h) = sum_counts (counts h)" "sum_counts (counts h) < 2 ^ 64"
    using w(2) by (auto simp: exact_def u64_max_def min_def split: if_splits)
  obtain vs where vs: "iter_quantiles lg h ticks = Some (Ok vs)"
    using iter_quantiles_nothing [OF w ticks, of lg] iter_quantiles_ticked [OF w _ _ _ ticks assms(3,4)]
    by (cases "total_count h = 0 \<or> h_index h (unat (hist_max h)) = 0") (auto simp: ticked_def)
  obtain it where it: "bind_res (quantile_new h ticks) (iterator_new h) = Ok it"
    "iterator_collect (quantile_pick lg) quantile_more it [] = Some (Ok vs)"
    using vs by (auto simp: iter_quantiles_def split: res.splits)
  have "conserves h 0 it" using it(1) by (auto simp: bind_res_eq_Ok iterator_new_def conserves_def)
  from print_rows_collect [OF total(2) it(2) this refl, of fmt precision "cli_header precision"]
  have rows: "sum_list (map (\<lambda>v. unat (count_since_last v)) vs) \<le> sum_counts (counts h)"
    "print_rows_loop (quantile_pick lg) quantile_more fmt vec_write precision it 0 (cli_header precision)
      = Some (Ok (cli_header precision @ rows_text fmt precision 0 vs))" by simp_all
  obtain mn sd where m: "mean h = Some (Ok mn)" "stdev h = Some (Ok sd)"
    using mean_stdev_return [OF w(1)] by auto
  have "cli_quantiles lg zlib_decoder fmt vec_write reader [] precision ticks =
      Some (Ok (cli_header precision @ rows_text fmt precision 0 vs @ summary_text fmt h mn sd))"
    unfolding cli_quantiles_def
    by (simp add: and_then_def assms(1) it(1) rows(2) m vec_write_def print_summary_def write_extra_data_def
        summary_text_def len_def buckets_def distinct_values_def)
  then show ?thesis using vs m rows(1) total(1) False by auto
qed

lemma loaded_read_back:
  obtains ds' h where "deserialize id deserializer_new (message loaded @ [], UnexpectedEof) = Ok (ds', h :: u64 histogram)"
    and "total_count h = total_count loaded" and "0 < h_index h (unat (hist_max h))"
proof -
  have "sum_counts (counts loaded) = 4"
    using loaded_facts(2,3) by (simp add: exact_def u64_max_def min_def split: if_splits)
  then have "\<forall>c \<in> set (counts loaded). unat c \<le> 4"
    using member_le_sum_list [of _ "map unat (counts loaded)"] by (auto simp: sum_counts_def)
  then have c: "\<forall>c \<in> set (written_counts loaded). unat c < 2 ^ 63" using set_written_counts [of loaded] by fastforce
  have l: "LENGTH(64) \<le> (64 :: nat)" by simp
  obtain ds' h where d: "deserialize id deserializer_new (message loaded @ [], UnexpectedEof) = Ok (ds', h)"
    "restated (loaded\<lparr>auto_resize := False\<rparr>) h"
    by (rule deserialize_message [OF loaded_facts(1) l c])
  have "counts h = counts loaded" "exact h" using d(2) by (simp_all add: restated_def)
  then have "total_count h = total_count loaded"
    using loaded_facts(2) by (simp add: exact_def word_unat_eq_iff)
  moreover have "0 < h_index h (unat (hist_max h))"
    using d(2) loaded_bin unfolding restated_def by force
  ultimately show thesis using d(1) that by blast
qed

theorem cli_quantiles_prints_witness:
  "\<exists>ds' h vs mn sd.
    deserialize id deserializer_new (message loaded @ [], UnexpectedEof) = Ok (ds', h :: u64 histogram) \<and>
    iter_quantiles floor_log2 h 5 = Some (Ok vs) \<and> mean h = Some (Ok mn) \<and> stdev h = Some (Ok sd) \<and>
    sum_list (map (\<lambda>v. unat (count_since_last v)) vs) \<le> 4 \<and>
    cli_quantiles floor_log2 id (\<lambda>_ _ _. []) vec_write (message loaded @ [], UnexpectedEof) [] 3 5 =
      Some (Ok (cli_header 3 @ rows_text (\<lambda>_ _ _. []) 3 0 vs @ summary_text (\<lambda>_ _ _. []) h mn sd))"
proof -
  obtain ds' and h :: "u64 histogram" where h: "deserialize id deserializer_new (message loaded @ [], UnexpectedEof) = Ok (ds', h)"
    "total_count h = total_count loaded" "0 < h_index h (unat (hist_max h))"
    by (rule loaded_read_back)
  have t: "total_count h \<noteq> 0" "total_count h \<noteq> - 1" "unat (total_count h) = 4"
    using h(2) loaded_facts(3) by (auto simp: u64_max_def)
  show ?thesis
    using cli_quantiles_prints [OF h(1) t(2) _ floor_log2_documented, of 5 "\<lambda>_ _ _. []" 3] h(1) t(3)
    by auto
qed

end
