(* ===== verification/Messages.thy ===== *)
theory Messages
  imports Deflate Decoding Interval_Log
begin

text \<open>
  The errors of the library as its users read them: the \<open>Display\<close> implementations (\<open>errors/mod.rs\<close> and
  the error types under \<open>serialization/\<close>) and the \<open>source\<close> of an error. The message of an error of
  the operating system is an argument, \<open>io\<close>.
\<close>

section \<open>Errors of histograms\<close>

primrec display_creation_error :: "creation_error \<Rightarrow> string" where
  "display_creation_error LowIsZero = ''Lowest discernible value must be >= 1''"
| "display_creation_error LowExceedsMax = ''Lowest discernible value must be <= `u64::max_value() / 2`''"
| "display_creation_error HighLessThanTwiceLow =
     ''Highest trackable value must be >= 2 * lowest discernible value for some internal calculations''"
| "display_creation_error SigFigExceedsMax =
     ''Number of significant digits must be in the range `[0, 5]`''"
| "display_creation_error CannotRepresentSigFigBeyondLow =
     ''Cannot represent sigfig worth of values beyond the lowest discernible value''"
| "display_creation_error CreationUsizeTypeTooSmall =
     ''The `usize` type is too small to represent the desired configuration''"

primrec display_addition_error :: "addition_error \<Rightarrow> string" where
  "display_addition_error OtherAddendValueExceedsRange =
     ''The other histogram includes values that do not fit in this histogram's range''"
| "display_addition_error AddResizeFailedUsizeTypeTooSmall =
     ''The other histogram includes values that would map to indexes in this histogram that are not expressible for `usize`''"

primrec display_subtraction_error :: "subtraction_error \<Rightarrow> string" where
  "display_subtraction_error SubtrahendValueExceedsMinuendRange =
     ''The other histogram includes values that do not fit in this histogram's range''"
| "display_subtraction_error SubtrahendCountExceedsMinuendCount =
     ''The other histogram includes counts that are higher than the current count for a value, and counts cannot go negative''"

primrec display_record_error :: "record_error \<Rightarrow> string" where
  "display_record_error ValueOutOfRangeResizeDisabled =
     ''The value to record is not representable in this histogram and resizing is disabled''"
| "display_record_error ResizeFailedUsizeTypeTooSmall =
     ''Auto resizing is enabled and must be used to represent the provided value, but the histogram cannot be resized because `usize` cannot represent sufficient length''"

primrec display_usize_type_too_small :: "usize_type_too_small \<Rightarrow> string" where
  "display_usize_type_too_small UsizeTypeTooSmall =
     ''The `usize` type is too small to represent the desired configuration''"

section \<open>Errors of the serializers\<close>

primrec display_v2_serialize_error :: "(io_error \<Rightarrow> string) \<Rightarrow> v2_serialize_error \<Rightarrow> string" where
  "display_v2_serialize_error io CountNotSerializable =
     ''A count above i64::max_value() cannot be zig-zag encoded''"
| "display_v2_serialize_error io SerUsizeTypeTooSmall =
     ''Internal calculations cannot be represented in `usize`''"
| "display_v2_serialize_error io (SerIoError e) = ''An i/o operation failed: '' @ io e"

primrec display_v2_deflate_serialize_error ::
  "(io_error \<Rightarrow> string) \<Rightarrow> v2_deflate_serialize_error \<Rightarrow> string" where
  "display_v2_deflate_serialize_error io (InternalSerializationError e) =
     ''The underlying serialization failed: '' @ display_v2_serialize_error io e"
| "display_v2_deflate_serialize_error io (DeflateIoError e) =
     ''The underlying serialization failed: '' @ io e"

primrec display_deserialize_error :: "(io_error \<Rightarrow> string) \<Rightarrow> deserialize_error \<Rightarrow> string" where
  "display_deserialize_error io (DeIoError e) = ''An i/o operation failed: '' @ io e"
| "display_deserialize_error io InvalidCookie =
     ''The cookie (first 4 bytes) did not match that for any supported format''"
| "display_deserialize_error io UnsupportedFeature =
     ''The histogram uses features that this implementation doesn't support''"
| "display_deserialize_error io UnsuitableCounterType =
     ''A count exceeded what can be represented in the chosen counter type''"
| "display_deserialize_error io InvalidParameters =
     ''The serialized parameters were invalid(e.g. lowest value, highest value, etc)''"
| "display_deserialize_error io DeUsizeTypeTooSmall =
     ''The current system's pointer width cannot represent the encoded histogram''"
| "display_deserialize_error io EncodedArrayTooLong =
     ''The encoded array is longer than it should be for the histogram's value range''"

primrec display_log_writer_error ::
  "(io_error \<Rightarrow> string) \<Rightarrow> ('e \<Rightarrow> string) \<Rightarrow> 'e log_writer_error \<Rightarrow> string" where
  "display_log_writer_error io display (SerializeError e) = ''Histogram serialization failed: '' @ display e"
| "display_log_writer_error io display (LogIoError e) = ''An i/o error occurred: '' @ io e"

text \<open>The cause an error names (\<open>Error::source\<close>).\<close>

datatype 'e cause = SerializeCause 'e | IoCause io_error

primrec source_v2_serialize_error :: "v2_serialize_error \<Rightarrow> io_error option" where
  "source_v2_serialize_error (SerIoError e) = Some e"
| "source_v2_serialize_error CountNotSerializable = None"
| "source_v2_serialize_error SerUsizeTypeTooSmall = None"

primrec source_v2_deflate_serialize_error ::
  "v2_deflate_serialize_error \<Rightarrow> v2_serialize_error cause option" where
  "source_v2_deflate_serialize_error (InternalSerializationError e) = Some (SerializeCause e)"
| "source_v2_deflate_serialize_error (DeflateIoError e) = Some (IoCause e)"

definition source_deserialize_error :: "deserialize_error \<Rightarrow> io_error option" where
  "source_deserialize_error e = (case e of DeIoError x \<Rightarrow> Some x | _ \<Rightarrow> None)"

primrec source_log_writer_error :: "'e log_writer_error \<Rightarrow> 'e cause option" where
  "source_log_writer_error (SerializeError e) = Some (SerializeCause e)"
| "source_log_writer_error (LogIoError e) = Some (IoCause e)"

section \<open>What a message tells\<close>

text \<open>
  A message determines its error, as far as the messages of the operating system do. The exception is
  the compressed serializer: an error of the writer reads like one of the serializer inside it, and
  only \<open>source\<close> tells them apart.
\<close>

lemma creation_error_told: "inj display_creation_error"
  by (rule injI) (rename_tac x y, case_tac x; case_tac y; simp)

lemma record_error_told: "inj display_record_error"
  by (rule injI) (rename_tac x y, case_tac x; case_tac y; simp)

lemma addition_error_told: "inj display_addition_error"
  by (rule injI) (rename_tac x y, case_tac x; case_tac y; simp)

lemma subtraction_error_told: "inj display_subtraction_error"
  by (rule injI) (rename_tac x y, case_tac x; case_tac y; simp)

lemma v2_serialize_error_told: "inj io \<Longrightarrow> inj (display_v2_serialize_error io)"
  by (rule injI) (rename_tac x y, case_tac x; case_tac y; simp add: inj_eq)

lemma deserialize_error_told: "inj io \<Longrightarrow> inj (display_deserialize_error io)"
  by (rule injI) (rename_tac x y, case_tac x; case_tac y; simp add: inj_eq)

lemma log_writer_error_told: "inj io \<Longrightarrow> inj display \<Longrightarrow> inj (display_log_writer_error io display)"
  by (rule injI) (rename_tac x y, case_tac x; case_tac y; simp add: inj_eq)

lemma deflate_error_not_told:
  assumes "io (OtherIoError m) = ''An i/o operation failed: '' @ io e"
  shows "display_v2_deflate_serialize_error io (DeflateIoError (OtherIoError m))
      = display_v2_deflate_serialize_error io (InternalSerializationError (SerIoError e))"
    and "source_v2_deflate_serialize_error (DeflateIoError (OtherIoError m))
      \<noteq> source_v2_deflate_serialize_error (InternalSerializationError (SerIoError e))"
  using assms by simp_all

end
