(* ===== verification/Spec2Isabelle.thy ===== *)
theory Spec2Isabelle
  imports Resolution Correction Chist_Text Logarithmic Phases Typing Log_Roundtrip Random_Varint Cli Messages
begin

text \<open>
  The histograms of this repository and the tool that uses them: HdrHistogram for Rust as
  vendored and patched under \<open>src/tools/chist/HdrHistogram_rust\<close>, and \<open>chist\<close>
  (\<open>src/tools/chist/src/main.rs\<close>), which reads files of histogram records, merges the records of
  one round over all files and prints percentiles, or checks a file for gaps. Paths below are
  relative to \<open>HdrHistogram_rust/src\<close>, where they do not start with \<open>src\<close> or \<open>examples\<close>.

  A histogram is a layout (which value falls into which bin) derived from the least value to be
  discerned, the greatest to be tracked and the number of significant digits, an array of counts,
  and statistics kept beside it (the total, the extremes). Samples are recorded into it,
  histograms are added, subtracted and copied, queried by quantile or iterated over, written and
  read in a binary format (plain or compressed) or in a log of intervals, and filled from several
  threads.

  \<^bold>\<open>Theories and the code they model\<close>

  \<^item> \<open>Prelude\<close>: the outcome of a Rust call (\<open>Ok\<close>, \<open>Err\<close>, \<open>Panic\<close>), the integer primitives of the
    standard library the code names (checked and saturating addition, shifts, \<open>leading_zeros\<close>,
    conversions), and the lemmas that read words as natural numbers.
  \<^item> \<open>Geometry\<close>: the arithmetic of bins on natural numbers, without words: which bin a value falls
    into, where a bin begins, and that these are inverse and monotone.
  \<^item> \<open>Layout\<close> (\<open>lib.rs\<close>): the record \<open>histogram\<close>, and \<open>index_for\<close>, \<open>value_for\<close>, \<open>bucket_for\<close>,
    \<open>lowest_equivalent\<close> and the other internal helpers on words, shown to compute the bins of
    \<open>Geometry\<close> for every layout that is well-formed (\<open>layout_ok\<close>, \<open>bins_ok\<close>). The locale
    \<open>binning\<close> is what clients know of bins; it is interpreted on the model as \<open>bins\<close>.
  \<^item> \<open>Float64\<close>, \<open>Double\<close>: the \<open>f64\<close> operations the code uses, as exact rationals rounded to nearest
    with ties to even at 53 bits, with infinities and NaN.
  \<^item> \<open>Counter\<close> (\<open>core/counter.rs\<close>): the conversions of the counter types.
  \<^item> \<open>Construction\<close> (\<open>lib.rs\<close>, \<open>errors/mod.rs\<close>): \<open>new\<close>, \<open>new_with_max\<close>, \<open>new_with_bounds\<close>,
    \<open>new_from\<close>, \<open>new_from_snapshot\<close>, \<open>resize\<close>, \<open>restat\<close> and \<open>RestatState\<close>, the extremes.
  \<^item> \<open>Invariant\<close>: the invariant \<open>wf\<close> of a histogram, for the constructors and \<open>resize\<close>.
  \<^item> \<open>Resolution\<close>: the properties of construction and layout.
  \<^item> \<open>Recording\<close> (\<open>lib.rs\<close>): \<open>record_n_inner\<close> and everything built on it, \<open>clear\<close>, \<open>reset\<close>.
  \<^item> \<open>Statistics\<close> (\<open>lib.rs\<close>): \<open>max\<close>, \<open>min\<close>, \<open>min_nz\<close>, equality, and what \<open>restat\<close> recomputes.
  \<^item> \<open>Combining\<close> (\<open>lib.rs\<close>): \<open>add\<close>, \<open>subtract\<close>, \<open>clone\<close>, \<open>set_to\<close>, \<open>sum\<close> and the operators.
  \<^item> \<open>Queries\<close> (\<open>lib.rs\<close>): \<open>value_at_quantile\<close>, \<open>quantile_below\<close>, \<open>count_between\<close>, \<open>count_at\<close>.
  \<^item> \<open>Iterators\<close> (\<open>iterators/\<close>): \<open>HistogramIterator::next\<close> for any picker, and the pickers of
    recorded, all, linear and logarithmic steps. The locale \<open>single_picker\<close> states what the iterator
    needs of a picker; it is interpreted for the recorded and for all bins. \<open>Linear\<close> and
    \<open>Logarithmic\<close>: the iterations by linear and by logarithmic steps, whole. \<open>Ticks\<close> (\<open>iterators/quantile.rs\<close>): the picker of quantile ticks and its iteration.
  \<^item> \<open>Correction\<close> (\<open>lib.rs\<close>): \<open>add_correct\<close>, \<open>clone_correct\<close>, \<open>set_to_corrected\<close>, \<open>mean\<close>, \<open>stdev\<close>.
  \<^item> \<open>Bytes\<close>, \<open>Varint\<close>, \<open>Encoding\<close>, \<open>Decoding\<close>, \<open>Deflate\<close> (\<open>serialization/\<close>): reading and writing
    bytes, the unrolled varint routines against a recursive reference, the V2 serializer against a
    description of its message by tokens, the deserializer with its fast and slow loops, and the
    compressed format. The locale \<open>serializer_contract\<close> is what a serializer promises to whoever
    queries the histogram that is read back; \<open>v2\<close> is its interpretation.
  \<^item> \<open>Random_Varint\<close> (\<open>serialization/rand_varint.rs\<close>): the numbers by the length of their varint, and
    the generator of test numbers.
  \<^item> \<open>Text\<close>: text as bytes: UTF-8, numbers in decimal, lines.
  \<^item> \<open>Interval_Log\<close> (\<open>serialization/interval_log/mod.rs\<close>): the builder and writer of interval logs, the
    parsers of its lines and the iterator over its entries; \<open>Log_Reading\<close>: what parsers consume and
    that the iterator ends; \<open>Log_Lines\<close>: what each written line reads as; \<open>Log_Roundtrip\<close>: whole logs.
  \<^item> \<open>Messages\<close> (\<open>errors/mod.rs\<close> and the errors of \<open>serialization/\<close>): what an error displays and the
    source it names.
  \<^item> \<open>Evolution\<close>: what every operation that changes a histogram keeps, failing or not; \<open>Typing\<close>: the
    type of a histogram (invariant, mapping of values to bins) through any sequence of operations.
  \<^item> \<open>Sync\<close>, \<open>Phases\<close> (\<open>sync/mod.rs\<close>): recorders, idle recorders and the shared histogram, the
    threads as a step relation, and phase shifts.
  \<^item> \<open>Chist\<close> (\<open>src/tools/chist/src/main.rs\<close>): walking files of records in step, merging and
    printing a round, and the summary of one file; \<open>Chist_Text\<close>: reading the files, the text of what is
    printed, and the program from its arguments to its output and exit status.
  \<^item> \<open>Cli\<close> (\<open>examples/cli.rs\<close>): the program that comes with the library, from the bytes it reads to
    the bytes it writes.

  \<^bold>\<open>Correspondence\<close>

  A struct is a record with the fields of the code, an enum a datatype; \<open>u64\<close> is \<open>64 word\<close> and
  arithmetic on it wraps; a counter type is a word of any width, where a lemma needs at most 64
  bits it says so. \<open>usize\<close> is 64 bits wide. An index is a natural number. A method on \<open>&mut self\<close>
  returns the changed state; where it fails, the state it leaves is in its error. A loop is a
  recursion over the list it walks, or has its measure. The loops of \<open>HistogramIterator::next\<close>, of
  the iterator of interval logs, and the loops over iterators are \<open>partial_function (option)\<close>: \<open>None\<close>
  stands for not ending, and the properties of each iterator show that it ends. Doubles are rationals
  with the rounding written out; the logarithm in \<open>new_with_bounds\<close> is rounded down with the slack
  of a correctly rounded \<open>log2\<close> (\<open>f64_log2_floor\<close>).

  Code from outside the repository is a parameter, and what is relied on is a hypothesis: the
  compressor and decompressor of \<open>flate2\<close> (\<open>zlib_inverse\<close>, \<open>zlib_documented\<close>), the combinators of \<open>nom\<close>
  that the parsers of the interval log are written in (\<open>nom_documented\<close>), the formatting of doubles
  with three decimals (\<open>fmt_documented\<close>) and base 64, the distributions of \<open>rand\<close>
  (\<open>uniform_documented\<close>), opening files, the JSON reader and the calendar of \<open>chist\<close> (a linear order of times with the
  difference in milliseconds, a checked addition and its texts). The standard library leaves the precision of
  \<open>log2\<close> open where the ticks of quantiles take it: it is a parameter that yields a finite number
  whose integer part is not too small (\<open>log2_documented\<close>), and with fewer than 1024 ticks per half
  distance each tick is then far enough from the last that rounding cannot stop the iteration. The
  channel of \<open>crossbeam\<close> is a list of messages in order, and \<open>byteorder\<close> is big-endian reading and
  writing.

  \<^bold>\<open>What the lemmas show\<close>

  \<^item> Layout: index and value are inverse on the bins, equivalence is sharing a bin, and a bin is as
    narrow as the significant digits ask. Every constructor yields \<open>wf\<close> or the documented error.
  \<^item> Recording, addition, subtraction and copies change exactly the bins they should, on every
    path, at the width of the counter, keep \<open>wf\<close> and the exactness of the total, and panic only
    where stated; the two paths of \<open>add\<close> agree with one description (\<open>added\<close>).
  \<^item> Queries: the value at a quantile is the end of the first bin that reaches the rank.
  \<^item> Iterators: the recorded and all-bins iterators end and yield the bins in order; linear steps cut
    the samples at the multiples of the step, logarithmic steps end for any base above 1; quantile
    ticks grow strictly and reach 1. All of this where a sample lies above bin 0.
  \<^item> Formats: what is written can be read back, with the same answers to queries; the
    deserializer is total on all inputs and only yields well-formed histograms. An interval log reads
    as what was written to it, and reading one ends on every input.
  \<^item> Programs: numbers in text become bytes that read back as the histogram of these numbers, and
    printing it ends, with exact running counts; mean and standard deviation never panic.
  \<^item> Threads: any interleaving of calls that add samples refines one histogram to which the calls are
    applied at once, out-of-range calls included; refreshes do not panic; a refresh that waits has someone
    to wait for, but for one race.
  \<^item> \<open>chist\<close>: a round merges exactly the records that correspond, on files in step; the program succeeds
    on such files and writes a table of the merged rounds, and the summary warns exactly where the file is
    irregular.
  \<^item> Defects: properties that exhibit a panic, a loss or a stall, on concrete states.

  \<^bold>\<open>Conditions\<close>

  Some hypotheses recur, and each marks a limit of the code or of doubles:
  \<^item> \<open>exact\<close>: the total is the sum of the counts, saturated at \<open>u64::MAX\<close>. Every operation keeps this for
    64-bit counters; for narrower ones it is lost when a bin saturates, since the total still counts the
    samples the bin does not. Quantiles, clones and copies through a format then differ.
  \<^item> \<open>capacity h < 2 ^ 64\<close>: the range ends below the top of \<open>u64\<close>. In the bin of \<open>u64::MAX\<close> the highest
    equivalent value is one too low, and a histogram of fixed range that has recorded \<open>u64::MAX\<close> is rejected
    by \<open>add\<close>: clones and merges panic (\<open>clone_of_max_value_panics\<close>).
  \<^item> \<open>0 < h_index h (unat (hist_max h))\<close>: a sample lies above bin 0. Otherwise the iterators take bin 0 for
    picked from the start (\<open>iter_recorded_loses_bin_0\<close>).
  \<^item> At most \<open>2 ^ 53\<close> samples, where a query computes a rank as a double; fewer than \<open>u64::MAX\<close>, where
    iterators add up counts; fewer than 1024 ticks per half distance; no overflow at the end of a linear step.
  \<^item> \<open>LENGTH('c) \<le> 64\<close>: the counter has at most 64 bits, as all of the code's have.

  \<^bold>\<open>Not modelled\<close>

  \<open>Debug\<close> implementations and \<open>Display\<close> of what is not an error; the \<open>From\<close> and \<open>Default\<close> implementations
  that only call a constructor (they are the constructors); accessors that return a field (they are the
  selectors); tests and benchmarks; the parsing of command lines (\<open>clap\<close>) and how \<open>anyhow\<close> prints the
  causes of an error; \<open>fetcher\<close>, which transfers files.
\<close>

end
